(* ===== verification/Prelude.thy ===== *)
theory Prelude
  imports Main "HOL-Library.AList" "HOL-Library.Multiset"
begin

text \<open>
  What every component of the model shares.

  \<^item> Failures. A C++ exception, a glog \<open>CHECK\<close>/\<open>LOG(FATAL)\<close> abort and an
    access the C++ standard leaves undefined are values of \<open>exn\<close>; a computation
    that may fail has type \<open>exn + 'a\<close>.
  \<^item> Effects. An operation that also talks to the outside world returns the list of
    the actions it performed, in order, next to its value: \<open>('x, 'a) eff\<close>. Actions
    performed before an exception stay performed.
  \<^item> Unordered maps. \<open>std::unordered_map\<close> is an association list with distinct
    keys; the order in which the C++ code iterates over it is unspecified and is
    always taken from a parameter of the model, never from the list.
  \<^item> The collections \<open>eff_simps\<close> and \<open>um_simps\<close> carry the rewrite rules of the two.
\<close>

named_theorems eff_simps \<open>unfolding and commuting rules of the effect monad\<close>
named_theorems um_simps \<open>rules of unordered maps\<close>

section \<open>Failures\<close>

datatype exn =
    Bad_function_call     \<comment> \<open>calling an empty std::function\<close>
  | Regex_error           \<comment> \<open>std::regex on a malformed pattern\<close>
  | Invalid_argument      \<comment> \<open>std::stoi and std::stod on text that is not a number\<close>
  | Out_of_range          \<comment> \<open>std::stoi and std::stod on a number that does not fit\<close>
  | Future_error          \<comment> \<open>std::promise::set_value on a promise that has a value\<close>
  | Check_failed          \<comment> \<open>glog CHECK and LOG(FATAL): the process aborts\<close>
  | Undefined             \<comment> \<open>the C++ standard gives no meaning to this access\<close>

definition bind_exn :: "exn + 'a \<Rightarrow> ('a \<Rightarrow> exn + 'b) \<Rightarrow> exn + 'b" where
  "bind_exn m f = (case m of Inl x \<Rightarrow> Inl x | Inr a \<Rightarrow> f a)"

lemma bind_exn_simps [simp]:
  "bind_exn (Inl x) f = Inl x"
  "bind_exn (Inr a) f = f a"
  by (simp_all add: bind_exn_def)

lemma bind_exn_Inr_iff: "bind_exn m f = Inr b \<longleftrightarrow> (\<exists>a. m = Inr a \<and> f a = Inr b)"
  by (cases m) simp_all

section \<open>Effects\<close>

type_synonym ('x, 'a) eff = "'x list \<times> (exn + 'a)"

definition ret :: "'a \<Rightarrow> ('x, 'a) eff" where
  "ret a = ([], Inr a)"

definition throw :: "exn \<Rightarrow> ('x, 'a) eff" where
  "throw x = ([], Inl x)"

definition lift_exn :: "exn + 'a \<Rightarrow> ('x, 'a) eff" where
  "lift_exn r = ([], r)"

definition emit :: "'x list \<Rightarrow> 'a \<Rightarrow> ('x, 'a) eff" where
  "emit w a = (w, Inr a)"

definition bind_eff :: "('x, 'a) eff \<Rightarrow> ('a \<Rightarrow> ('x, 'b) eff) \<Rightarrow> ('x, 'b) eff" where
  "bind_eff m f =
     (case snd m of
        Inl x \<Rightarrow> (fst m, Inl x)
      | Inr a \<Rightarrow> (fst m @ fst (f a), snd (f a)))"

text \<open>The actions performed and, when the call returned, its value.\<close>

definition actions :: "('x, 'a) eff \<Rightarrow> 'x list" where
  "actions m = fst m"

definition returns :: "('x, 'a) eff \<Rightarrow> 'a \<Rightarrow> bool" where
  "returns m a \<longleftrightarrow> snd m = Inr a"

lemma bind_eff_ret [simp]: "bind_eff (ret a) f = f a"
  by (simp add: bind_eff_def ret_def)

lemma bind_eff_throw [simp]: "bind_eff (throw x) f = throw x"
  by (simp add: bind_eff_def throw_def)

lemma bind_eff_ret_right [simp]: "bind_eff m ret = m"
  by (cases m) (auto simp: bind_eff_def ret_def split: sum.splits)

lemma bind_eff_assoc [eff_simps]:
  "bind_eff (bind_eff m f) g = bind_eff m (\<lambda>a. bind_eff (f a) g)"
  by (cases m) (auto simp: bind_eff_def split: sum.splits)

lemma returns_ret [simp]: "returns (ret a) b \<longleftrightarrow> a = b"
  by (simp add: returns_def ret_def)

lemma ret_eq_iff [simp]: "ret a = ret b \<longleftrightarrow> a = b"
  by (simp add: ret_def)

lemma returns_throw [simp]: "\<not> returns (throw x) b"
  by (simp add: returns_def throw_def)

lemma returns_emit [simp]: "returns (emit w a) b \<longleftrightarrow> a = b"
  by (simp add: returns_def emit_def)

lemma returns_lift_exn [simp]: "returns (lift_exn r) b \<longleftrightarrow> r = Inr b"
  by (simp add: returns_def lift_exn_def)

lemma actions_simps [simp]:
  "actions (ret a) = []"
  "actions (throw x) = []"
  "actions (emit w a) = w"
  "actions (lift_exn r) = []"
  by (simp_all add: actions_def ret_def throw_def emit_def lift_exn_def)

lemma returns_bind_eff:
  "returns (bind_eff m f) b \<longleftrightarrow> (\<exists>a. returns m a \<and> returns (f a) b)"
  by (cases "snd m") (auto simp: bind_eff_def returns_def)

lemma returns_unique: "returns m a \<Longrightarrow> returns m b \<Longrightarrow> a = b"
  by (simp add: returns_def)

section \<open>Unordered maps\<close>

type_synonym ('k, 'v) um = "('k \<times> 'v) list"

definition um_wf :: "('k, 'v) um \<Rightarrow> bool" where
  "um_wf m \<longleftrightarrow> distinct (map fst m)"

definition um_set :: "('k, 'v) um \<Rightarrow> 'k \<Rightarrow> 'v \<Rightarrow> ('k, 'v) um" where
  "um_set m k v = AList.update k v m"

definition um_erase :: "('k, 'v) um \<Rightarrow> 'k \<Rightarrow> ('k, 'v) um" where
  "um_erase m k = AList.delete k m"

text \<open>
  The entries in the order an iteration visits them; \<open>ord\<close> is that unspecified order,
  a permutation of the keys.
\<close>

definition um_iter :: "('k list \<Rightarrow> 'k list) \<Rightarrow> ('k, 'v) um \<Rightarrow> ('k \<times> 'v) list" where
  "um_iter ord m = map (\<lambda>k. (k, the (map_of m k))) (ord (map fst m))"

definition iteration_order :: "('k list \<Rightarrow> 'k list) \<Rightarrow> bool" where
  "iteration_order ord \<longleftrightarrow> (\<forall>ks. mset (ord ks) = mset ks)"

lemma um_wf_Nil [simp, um_simps]: "um_wf []"
  by (simp add: um_wf_def)

lemma um_wf_set [simp, um_simps]: "um_wf m \<Longrightarrow> um_wf (um_set m k v)"
  by (simp add: um_wf_def um_set_def distinct_update)

lemma um_wf_erase [simp, um_simps]: "um_wf m \<Longrightarrow> um_wf (um_erase m k)"
  by (simp add: um_wf_def um_erase_def distinct_delete)

lemma map_of_um_set [simp, um_simps]: "map_of (um_set m k v) = (map_of m)(k \<mapsto> v)"
  by (simp add: um_set_def update_conv')

lemma map_of_um_erase [simp, um_simps]: "map_of (um_erase m k) = (map_of m)(k := None)"
  by (simp add: um_erase_def delete_conv')

lemma map_of_filter_key:
  "um_wf m \<Longrightarrow>
     map_of (filter (\<lambda>(k, v). P k v) m) k =
       (case map_of m k of None \<Rightarrow> None | Some v \<Rightarrow> if P k v then Some v else None)"
  by (induction m) (force simp: um_wf_def split: option.splits dest: map_of_SomeD)+

lemma map_of_filter_Some:
  "um_wf m \<Longrightarrow> map_of (filter (\<lambda>(k, v). P k v) m) k = Some x \<longleftrightarrow> map_of m k = Some x \<and> P k x"
  by (auto simp: map_of_filter_key split: option.split)

lemma um_wf_filter [simp, um_simps]: "um_wf m \<Longrightarrow> um_wf (filter P m)"
  by (induction m) (auto simp: um_wf_def)

lemma mset_um_iter:
  assumes "iteration_order ord" "um_wf m"
  shows "mset (um_iter ord m) = mset m"
proof -
  have "mset (um_iter ord m) = image_mset (\<lambda>k. (k, the (map_of m k))) (mset (map fst m))"
    using assms(1) by (simp add: um_iter_def iteration_order_def)
  also have "\<dots> = mset (map (\<lambda>kv. (fst kv, the (map_of m (fst kv)))) m)"
    by (simp add: image_mset.compositionality comp_def)
  also have "map (\<lambda>kv. (fst kv, the (map_of m (fst kv)))) m = m"
    using assms(2) by (intro map_idI) (auto simp: um_wf_def)
  finally show ?thesis .
qed

lemma set_um_iter:
  "iteration_order ord \<Longrightarrow> um_wf m \<Longrightarrow> set (um_iter ord m) = set m"
  by (metis mset_um_iter set_mset_mset)

lemma distinct_um_iter:
  "iteration_order ord \<Longrightarrow> um_wf m \<Longrightarrow> distinct (map fst (um_iter ord m))"
  by (metis mset_um_iter mset_eq_imp_distinct_iff mset_map um_wf_def)

lemma iteration_order_id [simp]: "iteration_order (\<lambda>ks. ks)"
  by (simp add: iteration_order_def)

lemma iteration_order_rev [simp]: "iteration_order rev"
  by (simp add: iteration_order_def)

section \<open>Lists\<close>

definition last_n :: "nat \<Rightarrow> 'a list \<Rightarrow> 'a list" where
  "last_n n xs = drop (length xs - n) xs"

lemma length_last_n [simp]: "length (last_n n xs) = min n (length xs)"
  by (simp add: last_n_def min_def)

lemma last_n_snoc:
  "last_n n (xs @ [x]) =
     (if length (last_n n xs @ [x]) = Suc n then tl (last_n n xs @ [x]) else last_n n xs @ [x])"
proof (cases "n \<le> length xs")
  case True
  then have "length xs + 1 - n = Suc (length xs - n)" by simp
  then have "last_n n (xs @ [x]) = tl (drop (length xs - n) (xs @ [x]))"
    unfolding last_n_def by (simp del: drop_append add: drop_Suc tl_drop [symmetric])
  then show ?thesis
    using True by (simp add: last_n_def)
next
  case False
  then show ?thesis by (simp add: last_n_def)
qed

lemma last_n_Nil [simp]: "last_n n [] = []"
  by (simp add: last_n_def)

end
