(* ===== verification/Floats.thy ===== *)
theory Floats
  imports Complex_Main Prelude
begin

text \<open>
  The floating-point numbers of the program. \<open>double\<close> is IEEE binary64 and \<open>float\<close>
  is IEEE binary32; both are values of \<open>fp\<close>, a finite number being the rational it
  denotes. Every arithmetic operation rounds its exact result to nearest, ties to even,
  with gradual underflow and overflow to infinity, so the operations compute what the
  hardware computes. The sign of zero is not kept; the program could only show it by
  printing a negative zero.
\<close>

datatype fp = Fin rat | PInf | NInf | NaN

section \<open>Rounding\<close>

function bits :: "int \<Rightarrow> int" where
  "bits n = (if n \<le> 0 then 0 else 1 + bits (n div 2))"
  by pat_completeness auto
termination
  by (relation "measure nat") auto

declare bits.simps [simp del]

definition pow2 :: "int \<Rightarrow> rat" where
  "pow2 e = (if 0 \<le> e then 2 ^ nat e else 1 / 2 ^ nat (- e))"

text \<open>The exponent \<open>k\<close> with \<open>2^k \<le> q < 2^(k+1)\<close>, for a positive rational.\<close>

definition ilog2 :: "rat \<Rightarrow> int" where
  "ilog2 q =
     (let (n, d) = quotient_of q;
          k = bits n - bits d
      in if pow2 k \<le> q then k else k - 1)"

definition round_half_even :: "rat \<Rightarrow> int" where
  "round_half_even q =
     (let f = \<lfloor>q\<rfloor>; d = q - of_int f
      in if d < 1 / 2 then f
         else if 1 / 2 < d then f + 1
         else if even f then f else f + 1)"

definition round_fp :: "int \<Rightarrow> int \<Rightarrow> int \<Rightarrow> rat \<Rightarrow> fp" where
  "round_fp prec emin emax q =
     (if q = 0 then Fin 0
      else let e = max emin (ilog2 \<bar>q\<bar> - (prec - 1));
               r = of_int (round_half_even (q / pow2 e)) * pow2 e
           in if pow2 emax \<le> r then PInf else if r \<le> - pow2 emax then NInf else Fin r)"

definition round64 :: "rat \<Rightarrow> fp" where
  "round64 = round_fp 53 (- 1074) 1024"

definition round32 :: "rat \<Rightarrow> fp" where
  "round32 = round_fp 24 (- 149) 128"

section \<open>Arithmetic on doubles\<close>

fun fp_neg :: "fp \<Rightarrow> fp" where
  "fp_neg (Fin a) = Fin (- a)"
| "fp_neg PInf = NInf"
| "fp_neg NInf = PInf"
| "fp_neg NaN = NaN"

fun fp_add :: "fp \<Rightarrow> fp \<Rightarrow> fp" where
  "fp_add (Fin a) (Fin b) = round64 (a + b)"
| "fp_add NaN y = NaN"
| "fp_add x NaN = NaN"
| "fp_add PInf NInf = NaN"
| "fp_add NInf PInf = NaN"
| "fp_add PInf y = PInf"
| "fp_add NInf y = NInf"
| "fp_add x PInf = PInf"
| "fp_add x NInf = NInf"

definition fp_sub :: "fp \<Rightarrow> fp \<Rightarrow> fp" where
  "fp_sub x y = fp_add x (fp_neg y)"

definition inf_of_sign :: "rat \<Rightarrow> fp" where
  "inf_of_sign a = (if a = 0 then NaN else if 0 < a then PInf else NInf)"

fun fp_mul :: "fp \<Rightarrow> fp \<Rightarrow> fp" where
  "fp_mul (Fin a) (Fin b) = round64 (a * b)"
| "fp_mul NaN y = NaN"
| "fp_mul x NaN = NaN"
| "fp_mul PInf (Fin b) = inf_of_sign b"
| "fp_mul NInf (Fin b) = fp_neg (inf_of_sign b)"
| "fp_mul (Fin a) PInf = inf_of_sign a"
| "fp_mul (Fin a) NInf = fp_neg (inf_of_sign a)"
| "fp_mul PInf PInf = PInf"
| "fp_mul PInf NInf = NInf"
| "fp_mul NInf PInf = NInf"
| "fp_mul NInf NInf = PInf"

fun fp_div :: "fp \<Rightarrow> fp \<Rightarrow> fp" where
  "fp_div (Fin a) (Fin b) = (if b = 0 then inf_of_sign a else round64 (a / b))"
| "fp_div NaN y = NaN"
| "fp_div x NaN = NaN"
| "fp_div PInf (Fin b) = (if b < 0 then NInf else PInf)"
| "fp_div NInf (Fin b) = (if b < 0 then PInf else NInf)"
| "fp_div (Fin a) y = Fin 0"
| "fp_div x y = NaN"

section \<open>Comparisons\<close>

fun fp_lt :: "fp \<Rightarrow> fp \<Rightarrow> bool" where
  "fp_lt NaN y = False"
| "fp_lt x NaN = False"
| "fp_lt (Fin a) (Fin b) = (a < b)"
| "fp_lt x NInf = False"
| "fp_lt PInf y = False"
| "fp_lt x y = True"

definition fp_eq :: "fp \<Rightarrow> fp \<Rightarrow> bool" where
  "fp_eq x y \<longleftrightarrow> x = y \<and> x \<noteq> NaN"

definition fp_le :: "fp \<Rightarrow> fp \<Rightarrow> bool" where
  "fp_le x y \<longleftrightarrow> fp_lt x y \<or> fp_eq x y"

definition fp_gt :: "fp \<Rightarrow> fp \<Rightarrow> bool" where
  "fp_gt x y = fp_lt y x"

definition fp_ge :: "fp \<Rightarrow> fp \<Rightarrow> bool" where
  "fp_ge x y = fp_le y x"

section \<open>Conversions\<close>

definition double_of_int :: "int \<Rightarrow> fp" where
  "double_of_int i = round64 (of_int i)"

definition float_of_int :: "int \<Rightarrow> fp" where
  "float_of_int i = round32 (of_int i)"

text \<open>A conversion from \<open>float\<close> to \<open>double\<close> is exact and changes nothing.\<close>

fun float_of_double :: "fp \<Rightarrow> fp" where
  "float_of_double (Fin q) = round32 q"
| "float_of_double x = x"

definition int64_range :: "int \<Rightarrow> bool" where
  "int64_range i \<longleftrightarrow> - (2 ^ 63) \<le> i \<and> i < 2 ^ 63"

text \<open>A cast to \<open>int64_t\<close> truncates; out of range it is undefined.\<close>

fun int64_of_fp :: "fp \<Rightarrow> exn + int" where
  "int64_of_fp (Fin q) =
     (let i = (if 0 \<le> q then \<lfloor>q\<rfloor> else \<lceil>q\<rceil>) in if int64_range i then Inr i else Inl Undefined)"
| "int64_of_fp x = Inl Undefined"

section \<open>std::to_string on a double\<close>

function digits :: "int \<Rightarrow> string" where
  "digits n =
     (if n < 10 then [char_of (48 + n)] else digits (n div 10) @ [char_of (48 + n mod 10)])"
  by pat_completeness auto
termination
  by (relation "measure nat") auto

declare digits.simps [simp del]

definition int_to_string :: "int \<Rightarrow> string" where
  "int_to_string i = (if i < 0 then CHR ''-'' # digits (- i) else digits i)"

text \<open>\<open>"%f"\<close>: six digits after the point, the exact binary value rounded half to even.\<close>

definition fixed6 :: "rat \<Rightarrow> string" where
  "fixed6 q =
     (let n = round_half_even (\<bar>q\<bar> * 1000000);
          f = digits (n mod 1000000)
      in (if q < 0 then ''-'' else []) @ digits (n div 1000000) @ ''.''
         @ replicate (6 - length f) CHR ''0'' @ f)"

fun double_to_string :: "fp \<Rightarrow> string" where
  "double_to_string (Fin q) = fixed6 q"
| "double_to_string PInf = ''inf''"
| "double_to_string NInf = ''-inf''"
| "double_to_string NaN = ''nan''"

section \<open>Small integers are exact\<close>

lemma bits_nonneg: "0 \<le> bits n"
  by (induction n rule: bits.induct) (subst bits.simps, simp)

lemma bits_le: "n < 2 ^ k \<Longrightarrow> bits n \<le> int k"
proof (induction k arbitrary: n)
  case 0
  then show ?case by (subst bits.simps) simp
next
  case (Suc k)
  from Suc.prems have "n div 2 < 2 ^ k" by simp
  then have "bits (n div 2) \<le> int k" by (rule Suc.IH)
  then show ?case by (subst bits.simps) simp
qed

lemma pow2_bits: "0 < n \<Longrightarrow> pow2 (bits n - 1) \<le> of_int n"
proof (induction n rule: bits.induct)
  case (1 n)
  show ?case
  proof (cases "n div 2 \<le> 0")
    case True
    with 1 have "n = 1" by simp
    then show ?thesis by (simp add: bits.simps pow2_def)
  next
    case False
    with 1 have IH: "pow2 (bits (n div 2) - 1) \<le> of_int (n div 2)" by simp
    have "bits n = 1 + bits (n div 2)" using 1 by (subst bits.simps) simp
    moreover have "1 \<le> bits (n div 2)"
      using False bits_nonneg [of "n div 2 div 2"] by (subst bits.simps) simp
    ultimately have "pow2 (bits n - 1) = 2 * pow2 (bits (n div 2) - 1)"
      by (simp add: pow2_def nat_diff_distrib power_Suc [symmetric] del: power_Suc)
    also have "\<dots> \<le> 2 * of_int (n div 2)" using IH by simp
    also have "\<dots> = (of_int (2 * (n div 2)) :: rat)" by simp
    also have "\<dots> \<le> of_int n" by (subst of_int_le_iff) simp
    finally show ?thesis .
  qed
qed

lemma ilog2_of_int: "0 < n \<Longrightarrow> ilog2 (of_int n) = bits n - 1"
  using pow2_bits [of n] by (simp add: ilog2_def bits.simps [of 1] bits.simps [of 0] quotient_of_int)

lemma pow2_neg_inverse: "e \<le> 0 \<Longrightarrow> of_int i / pow2 e = (of_int (i * 2 ^ nat (- e)) :: rat)"
  by (auto simp: pow2_def)

lemma pow2_pos [simp]: "0 < pow2 e"
  by (simp add: pow2_def)

lemma round_half_even_of_int [simp]: "round_half_even (of_int i) = i"
  by (simp add: round_half_even_def)

lemma round_fp_of_int:
  assumes i: "\<bar>i\<bar> < 2 ^ nat prec" and p: "0 \<le> prec" and m: "emin \<le> 0" and x: "prec \<le> emax"
  shows "round_fp prec emin emax (of_int i) = Fin (of_int i)"
proof (cases "i = 0")
  case True
  then show ?thesis by (simp add: round_fp_def)
next
  case False
  define e where "e = max emin (ilog2 \<bar>of_int i\<bar> - (prec - 1))"
  have "ilog2 \<bar>of_int i\<bar> = bits \<bar>i\<bar> - 1"
    using False ilog2_of_int [of "\<bar>i\<bar>"] by simp
  then have "e \<le> 0"
    using bits_le [OF i] p m by (simp add: e_def)
  then have r: "of_int (round_half_even (of_int i / pow2 e)) * pow2 e = of_int i"
    by (simp only: pow2_neg_inverse round_half_even_of_int) (auto simp: pow2_def)
  have "\<bar>i\<bar> < 2 ^ nat emax"
    using i x by (meson less_le_trans nat_mono one_le_numeral power_increasing)
  then have "\<bar>of_int i\<bar> < (pow2 emax :: rat)"
    using p x unfolding pow2_def by (simp flip: of_int_abs)
  then have "\<not> pow2 emax \<le> of_int i" "\<not> of_int i \<le> - (pow2 emax)"
    by auto
  with False r show ?thesis
    by (simp add: round_fp_def Let_def e_def [symmetric])
qed

lemma round64_of_int [simp]: "\<bar>i\<bar> < 2 ^ 53 \<Longrightarrow> round64 (of_int i) = Fin (of_int i)"
  by (simp add: round64_def round_fp_of_int)

lemma round32_of_int [simp]: "\<bar>i\<bar> < 2 ^ 24 \<Longrightarrow> round32 (of_int i) = Fin (of_int i)"
  by (simp add: round32_def round_fp_of_int)

lemma round64_numeral [simp]:
  "(numeral n :: int) < 2 ^ 53 \<Longrightarrow> round64 (numeral n) = Fin (numeral n)"
  "(numeral n :: int) < 2 ^ 53 \<Longrightarrow> round64 (- numeral n) = Fin (- numeral n)"
  "round64 0 = Fin 0" "round64 1 = Fin 1" "round64 (- 1) = Fin (- 1)"
  using round64_of_int [of "numeral n"] round64_of_int [of "- numeral n"]
    round64_of_int [of 0] round64_of_int [of 1] round64_of_int [of "- 1"] by simp_all

section \<open>The order on numbers\<close>

lemma fp_lt_irrefl [simp]: "\<not> fp_lt x x"
  by (cases x) simp_all

lemma fp_lt_trans: "fp_lt x y \<Longrightarrow> fp_lt y z \<Longrightarrow> fp_lt x z"
  by (cases x; cases y; cases z) auto

lemma fp_lt_antisym: "fp_lt x y \<Longrightarrow> \<not> fp_lt y x"
  by (cases x; cases y) auto

lemma fp_le_iff_not_lt: "x \<noteq> NaN \<Longrightarrow> y \<noteq> NaN \<Longrightarrow> fp_le x y \<longleftrightarrow> \<not> fp_lt y x"
  by (cases x; cases y) (auto simp: fp_le_def fp_eq_def)

lemma fp_le_trans: "fp_le x y \<Longrightarrow> fp_le y z \<Longrightarrow> fp_le x z"
  by (cases x; cases y; cases z) (auto simp: fp_le_def fp_eq_def)

lemma fp_le_refl [simp]: "fp_le x x \<longleftrightarrow> x \<noteq> NaN"
  by (simp add: fp_le_def fp_eq_def)

lemma fp_lt_NaN [simp]: "\<not> fp_lt x NaN" "\<not> fp_lt NaN x"
  by (cases x; simp)+

lemma fp_le_NaN [simp]: "\<not> fp_le x NaN" "\<not> fp_le NaN x"
  by (simp_all add: fp_le_def fp_eq_def)

end
