(* ===== verification/Runtime.thy ===== *)
theory Runtime
  imports Floats
begin

text \<open>
  What the program takes from outside its own sources, as one record of parameters.

  \<^item> \<open>unix_time\<close> is what the scheduler's clock reads during one step of the model.
  \<^item> \<open>um_order\<close> is the order in which \<open>std::unordered_map\<close> iterates, and
    \<open>str_hash\<close> is \<open>std::hash<std::string>\<close>; the standard leaves both open.
  \<^item> \<open>regex_fn\<close> is \<open>std::regex_match(value, std::regex(re))\<close> as a function of the
    value and the pattern; a malformed pattern raises.
  \<^item> \<open>styled\<close> is jsoncpp's \<open>toStyledString\<close> on a JSON value.
  \<^item> \<open>unescape\<close> is libcurl's \<open>curl_easy_unescape\<close>, \<open>None\<close> when
    \<open>curl_easy_init\<close> fails, and \<open>sha1_fn\<close> is OpenSSL's \<open>SHA1\<close>.

  A JSON object keeps its members in an association list with distinct keys; assigning
  to a member that exists replaces its value, as \<open>Json::Value::operator[]\<close> does. A
  default-constructed value that is never assigned to stays \<open>JNull\<close>.
\<close>

datatype json =
    JNull
  | JString string
  | JUInt int
  | JReal fp
  | JArray "json list"
  | JObject "(string \<times> json) list"

record runtime =
  unix_time :: int
  um_order :: "string list \<Rightarrow> string list"
  str_hash :: "string \<Rightarrow> nat"
  regex_fn :: "string \<Rightarrow> string \<Rightarrow> exn + bool"
  styled :: "json \<Rightarrow> string"
  unescape :: "string \<Rightarrow> string option"
  sha1_fn :: "string \<Rightarrow> string"

text \<open>A concrete runtime at a given time, for evaluation.\<close>

definition rt_at :: "int \<Rightarrow> runtime" where
  "rt_at t =
     \<lparr>unix_time = t, um_order = (\<lambda>ks. ks), str_hash = length,
      regex_fn = (\<lambda>v re. Inr (v = re)), styled = (\<lambda>_. []), unescape = Some,
      sha1_fn = (\<lambda>s. take 20 (s @ replicate 20 CHR 0x00))\<rparr>"

lemma unix_time_rt_at [simp]: "unix_time (rt_at t) = t"
  by (simp add: rt_at_def)

lemma um_order_rt_at [simp]: "iteration_order (um_order (rt_at t))"
  by (simp add: rt_at_def)

end
