(* ===== verification/Event.thy ===== *)
theory Event
  imports Runtime
begin

text \<open>
  The event, as src/proto.proto declares it and src/common/event.cpp wraps it.

  A protobuf \<open>optional\<close> field is an \<open>option\<close>: its accessor gives the type's default
  when the field is unset, \<open>has_\<close> tells whether it is set, \<open>set_\<close> and \<open>clear_\<close>
  write it. A \<open>repeated\<close> field is a list. The C++ methods that return
  \<open>Event &\<close> return the updated event here.
\<close>

record attribute =
  a_key :: "string option"
  a_value :: "string option"

record event =
  ev_time :: "int option"
  ev_state :: "string option"
  ev_service :: "string option"
  ev_host :: "string option"
  ev_description :: "string option"
  ev_tags :: "string list"
  ev_ttl :: "fp option"
  ev_attributes :: "attribute list"
  ev_metric_sint64 :: "int option"
  ev_metric_d :: "fp option"
  ev_metric_f :: "fp option"

definition str_default :: "string option \<Rightarrow> string" where
  "str_default x = (case x of None \<Rightarrow> [] | Some s \<Rightarrow> s)"

definition int_default :: "int option \<Rightarrow> int" where
  "int_default x = (case x of None \<Rightarrow> 0 | Some i \<Rightarrow> i)"

definition fp_default :: "fp option \<Rightarrow> fp" where
  "fp_default x = (case x of None \<Rightarrow> Fin 0 | Some d \<Rightarrow> d)"

definition k_default_metric :: fp where
  "k_default_metric = Fin 0"

definition k_empty_value :: string where
  "k_empty_value = ''nil''"

text \<open>The default constructor: every optional field unset, every repeated one empty.\<close>

definition empty_event :: event where
  "empty_event =
     \<lparr>ev_time = None, ev_state = None, ev_service = None, ev_host = None,
      ev_description = None, ev_tags = [], ev_ttl = None, ev_attributes = [],
      ev_metric_sint64 = None, ev_metric_d = None, ev_metric_f = None\<rparr>"

section \<open>Accessors\<close>

definition host :: "event \<Rightarrow> string" where "host e = str_default (ev_host e)"

definition set_host :: "string \<Rightarrow> event \<Rightarrow> event" where "set_host h e = e\<lparr>ev_host := Some h\<rparr>"

definition has_host :: "event \<Rightarrow> bool" where "has_host e = (ev_host e \<noteq> None)"

definition clear_host :: "event \<Rightarrow> event" where "clear_host e = e\<lparr>ev_host := None\<rparr>"

definition service :: "event \<Rightarrow> string" where "service e = str_default (ev_service e)"

definition set_service :: "string \<Rightarrow> event \<Rightarrow> event" where
  "set_service s e = e\<lparr>ev_service := Some s\<rparr>"

definition has_service :: "event \<Rightarrow> bool" where "has_service e = (ev_service e \<noteq> None)"

definition clear_service :: "event \<Rightarrow> event" where "clear_service e = e\<lparr>ev_service := None\<rparr>"

definition state :: "event \<Rightarrow> string" where "state e = str_default (ev_state e)"

definition set_state :: "string \<Rightarrow> event \<Rightarrow> event" where "set_state s e = e\<lparr>ev_state := Some s\<rparr>"

definition has_state :: "event \<Rightarrow> bool" where "has_state e = (ev_state e \<noteq> None)"

definition clear_state :: "event \<Rightarrow> event" where "clear_state e = e\<lparr>ev_state := None\<rparr>"

definition description :: "event \<Rightarrow> string" where
  "description e = str_default (ev_description e)"

definition set_description :: "string \<Rightarrow> event \<Rightarrow> event" where
  "set_description s e = e\<lparr>ev_description := Some s\<rparr>"

definition has_description :: "event \<Rightarrow> bool" where
  "has_description e = (ev_description e \<noteq> None)"

definition clear_description :: "event \<Rightarrow> event" where
  "clear_description e = e\<lparr>ev_description := None\<rparr>"

definition time :: "event \<Rightarrow> int" where "time e = int_default (ev_time e)"

definition set_time :: "int \<Rightarrow> event \<Rightarrow> event" where "set_time t e = e\<lparr>ev_time := Some t\<rparr>"

definition has_time :: "event \<Rightarrow> bool" where "has_time e = (ev_time e \<noteq> None)"

definition clear_time :: "event \<Rightarrow> event" where "clear_time e = e\<lparr>ev_time := None\<rparr>"

definition ttl :: "event \<Rightarrow> fp" where "ttl e = fp_default (ev_ttl e)"

definition set_ttl :: "fp \<Rightarrow> event \<Rightarrow> event" where "set_ttl t e = e\<lparr>ev_ttl := Some t\<rparr>"

definition has_ttl :: "event \<Rightarrow> bool" where "has_ttl e = (ev_ttl e \<noteq> None)"

definition clear_ttl :: "event \<Rightarrow> event" where "clear_ttl e = e\<lparr>ev_ttl := None\<rparr>"

section \<open>The metric\<close>

definition clear_metrics :: "event \<Rightarrow> event" where
  "clear_metrics e = e\<lparr>ev_metric_d := None, ev_metric_f := None, ev_metric_sint64 := None\<rparr>"

text \<open>The float field wins over the integer field, which wins over the double field.\<close>

definition metric :: "event \<Rightarrow> fp" where
  "metric e =
     (if ev_metric_f e \<noteq> None then fp_default (ev_metric_f e)
      else if ev_metric_sint64 e \<noteq> None then double_of_int (int_default (ev_metric_sint64 e))
      else if ev_metric_d e \<noteq> None then fp_default (ev_metric_d e)
      else k_default_metric)"

definition set_metric :: "fp \<Rightarrow> event \<Rightarrow> event" where
  "set_metric m e = (clear_metrics e)\<lparr>ev_metric_d := Some m\<rparr>"

definition has_metric :: "event \<Rightarrow> bool" where
  "has_metric e \<longleftrightarrow> ev_metric_f e \<noteq> None \<or> ev_metric_d e \<noteq> None \<or> ev_metric_sint64 e \<noteq> None"

definition clear_metric :: "event \<Rightarrow> event" where
  "clear_metric e = clear_metrics e"

definition metric_to_str :: "event \<Rightarrow> string" where
  "metric_to_str e = (if has_metric e then double_to_string (metric e) else k_empty_value)"

text \<open>The method \<open>metric_f\<close> returns the presence flag, converted to a float.\<close>

definition metric_f :: "event \<Rightarrow> fp" where
  "metric_f e = (if ev_metric_f e \<noteq> None then Fin 1 else Fin 0)"

definition set_metric_f :: "fp \<Rightarrow> event \<Rightarrow> event" where
  "set_metric_f m e = e\<lparr>ev_metric_f := Some m\<rparr>"

definition has_metric_f :: "event \<Rightarrow> bool" where "has_metric_f e = (ev_metric_f e \<noteq> None)"

definition clear_metric_f :: "event \<Rightarrow> event" where "clear_metric_f e = e\<lparr>ev_metric_f := None\<rparr>"

text \<open>The method \<open>metric_d\<close> returns a \<open>float\<close>: the double is rounded to it.\<close>

definition metric_d :: "event \<Rightarrow> fp" where
  "metric_d e = float_of_double (fp_default (ev_metric_d e))"

definition set_metric_d :: "fp \<Rightarrow> event \<Rightarrow> event" where
  "set_metric_d m e = e\<lparr>ev_metric_d := Some m\<rparr>"

definition has_metric_d :: "event \<Rightarrow> bool" where "has_metric_d e = (ev_metric_d e \<noteq> None)"

definition clear_metric_d :: "event \<Rightarrow> event" where "clear_metric_d e = e\<lparr>ev_metric_d := None\<rparr>"

definition metric_sint64 :: "event \<Rightarrow> int" where
  "metric_sint64 e = int_default (ev_metric_sint64 e)"

definition set_metric_sint64 :: "int \<Rightarrow> event \<Rightarrow> event" where
  "set_metric_sint64 m e = e\<lparr>ev_metric_sint64 := Some m\<rparr>"

definition has_metric_sint64 :: "event \<Rightarrow> bool" where
  "has_metric_sint64 e = (ev_metric_sint64 e \<noteq> None)"

definition clear_metric_sint64 :: "event \<Rightarrow> event" where
  "clear_metric_sint64 e = e\<lparr>ev_metric_sint64 := None\<rparr>"

section \<open>Tags and attributes\<close>

fun has_tag_from :: "string list \<Rightarrow> string \<Rightarrow> bool" where
  "has_tag_from [] tag = False"
| "has_tag_from (t # ts) tag = (if t = tag then True else has_tag_from ts tag)"

definition has_tag :: "event \<Rightarrow> string \<Rightarrow> bool" where
  "has_tag e tag = has_tag_from (ev_tags e) tag"

definition add_tag :: "string \<Rightarrow> event \<Rightarrow> event" where
  "add_tag tag e = e\<lparr>ev_tags := ev_tags e @ [tag]\<rparr>"

definition clear_tags :: "event \<Rightarrow> event" where "clear_tags e = e\<lparr>ev_tags := []\<rparr>"

definition key_of :: "attribute \<Rightarrow> string" where "key_of a = str_default (a_key a)"

definition value_of :: "attribute \<Rightarrow> string" where "value_of a = str_default (a_value a)"

fun has_attr_from :: "attribute list \<Rightarrow> string \<Rightarrow> bool" where
  "has_attr_from [] k = False"
| "has_attr_from (a # as) k = (if key_of a = k then True else has_attr_from as k)"

definition has_attr :: "event \<Rightarrow> string \<Rightarrow> bool" where
  "has_attr e k = has_attr_from (ev_attributes e) k"

fun attr_from :: "attribute list \<Rightarrow> string \<Rightarrow> string" where
  "attr_from [] k = k_empty_value"
| "attr_from (a # as) k = (if key_of a = k then value_of a else attr_from as k)"

definition attr :: "event \<Rightarrow> string \<Rightarrow> string" where
  "attr e k = (if has_attr e k then attr_from (ev_attributes e) k else k_empty_value)"

definition set_attr :: "string \<Rightarrow> string \<Rightarrow> event \<Rightarrow> event" where
  "set_attr k v e =
     (if has_attr e k
      then e\<lparr>ev_attributes :=
               map (\<lambda>a. if key_of a = k then a\<lparr>a_value := Some v\<rparr> else a) (ev_attributes e)\<rparr>
      else e\<lparr>ev_attributes := ev_attributes e @ [\<lparr>a_key = Some k, a_value = Some v\<rparr>]\<rparr>)"

definition attrs :: "event \<Rightarrow> (string \<times> string) list" where
  "attrs e = map (\<lambda>a. (key_of a, value_of a)) (ev_attributes e)"

definition clear_attrs :: "event \<Rightarrow> event" where "clear_attrs e = e\<lparr>ev_attributes := []\<rparr>"

section \<open>Fields by name, and JSON\<close>

definition value_to_str :: "event \<Rightarrow> string \<Rightarrow> string" where
  "value_to_str e key =
     (if key = ''host'' then host e
      else if key = ''service'' then service e
      else if key = ''description'' then description e
      else if key = ''state'' then state e
      else if has_attr e key then attr e key
      else k_empty_value)"

definition has_field_set :: "event \<Rightarrow> string \<Rightarrow> bool" where
  "has_field_set e key =
     (if key = ''host'' then has_host e
      else if key = ''service'' then has_service e
      else if key = ''description'' then has_description e
      else if key = ''state'' then has_state e
      else if key = ''metric'' then has_metric e
      else if key = ''ttl'' then has_ttl e
      else has_attr e key)"

definition json_put :: "bool \<Rightarrow> string \<Rightarrow> json \<Rightarrow> (string, json) um \<Rightarrow> (string, json) um" where
  "json_put c k v m = (if c then um_set m k v else m)"

text \<open>\<open>Json::UInt64(time())\<close> reads a negative time modulo \<open>2^64\<close>.\<close>

definition event_json :: "event \<Rightarrow> json" where
  "event_json e =
     (let m1 = json_put (has_host e) ''host'' (JString (host e)) [];
          m2 = json_put (has_service e) ''service'' (JString (service e)) m1;
          m3 = json_put (has_description e) ''description'' (JString (description e)) m2;
          m4 = json_put (has_state e) ''state'' (JString (state e)) m3;
          m5 = json_put (has_time e) ''time'' (JUInt (time e mod 2 ^ 64)) m4;
          m6 = json_put (has_metric e) ''metric'' (JReal (metric e)) m5;
          m7 = fold (\<lambda>a. json_put (a_key a \<noteq> None \<and> a_value a \<noteq> None)
                           (key_of a) (JString (value_of a))) (ev_attributes e) m6;
          m8 = json_put (0 < length (ev_tags e)) ''tags'' (JArray (map JString (ev_tags e))) m7
      in if m8 = [] then JNull else JObject m8)"

definition json_str :: "runtime \<Rightarrow> event \<Rightarrow> string" where
  "json_str rt e = styled rt (event_json e)"

section \<open>Laws of the accessors\<close>

lemmas default_defs = str_default_def int_default_def fp_default_def

lemmas field_defs =
  host_def set_host_def has_host_def clear_host_def
  service_def set_service_def has_service_def clear_service_def
  state_def set_state_def has_state_def clear_state_def
  description_def set_description_def has_description_def clear_description_def
  time_def set_time_def has_time_def clear_time_def
  ttl_def set_ttl_def has_ttl_def clear_ttl_def

lemmas metric_defs =
  metric_def set_metric_def has_metric_def clear_metric_def clear_metrics_def
  set_metric_f_def clear_metric_f_def set_metric_d_def clear_metric_d_def
  set_metric_sint64_def clear_metric_sint64_def k_default_metric_def

lemmas event_defs = default_defs field_defs metric_defs empty_event_def

lemma get_set [simp]:
  "host (set_host h e) = h"
  "service (set_service s e) = s"
  "state (set_state s e) = s"
  "description (set_description s e) = s"
  "time (set_time t e) = t"
  "ttl (set_ttl x e) = x"
  "metric (set_metric m e) = m"
  by (simp_all add: event_defs)

lemma get_set_frame [simp]:
  "host (set_state s e) = host e" "service (set_state s e) = service e"
  "time (set_state s e) = time e" "metric (set_state s e) = metric e"
  "host (set_metric m e) = host e" "service (set_metric m e) = service e"
  "state (set_metric m e) = state e" "time (set_metric m e) = time e"
  "host (set_time t e) = host e" "service (set_time t e) = service e"
  "state (set_time t e) = state e" "metric (set_time t e) = metric e"
  "ttl (set_time t e) = ttl e" "ttl (set_state s e) = ttl e" "ttl (set_metric m e) = ttl e"
  "has_ttl (set_time t e) = has_ttl e" "has_ttl (set_state s e) = has_ttl e"
  "has_ttl (set_metric m e) = has_ttl e" "has_time (set_state s e) = has_time e"
  "has_time (set_metric m e) = has_time e" "has_time (set_time t e)"
  "has_metric (set_metric m e)" "has_metric (set_state s e) = has_metric e"
  "has_metric (set_time t e) = has_metric e" "has_state (set_state s e)"
  by (simp_all add: event_defs)

lemma metric_write [simp]:
  "metric (set_metric_d d (clear_metric_f (clear_metric_sint64 e))) = d"
  "metric (set_metric_sint64 i (clear_metric e)) = double_of_int i"
  "\<not> has_metric e \<Longrightarrow> metric (set_metric_d d e) = d"
  "\<not> has_metric e \<Longrightarrow> metric (set_metric_sint64 i e) = double_of_int i"
  "metric (set_ttl x e) = metric e"
  "time (set_ttl x e) = time e"
  "time (set_metric_sint64 i e) = time e"
  "time (clear_metric e) = time e"
  by (simp_all add: event_defs)

lemma has_tag_iff: "has_tag e t \<longleftrightarrow> t \<in> set (ev_tags e)"
proof -
  have "has_tag_from ts t \<longleftrightarrow> t \<in> set ts" for ts
    by (induction ts) auto
  then show ?thesis by (simp add: has_tag_def)
qed

lemma has_attr_from_iff: "has_attr_from as k \<longleftrightarrow> (\<exists>a\<in>set as. key_of a = k)"
  by (induction as) auto

lemma attr_from_append:
  "attr_from (as @ bs) k = (if has_attr_from as k then attr_from as k else attr_from bs k)"
  by (induction as) auto

lemma key_of_update [simp]: "key_of (a\<lparr>a_value := v\<rparr>) = key_of a"
  by (simp add: key_of_def)

lemma mk_attribute [simp]:
  "key_of \<lparr>a_key = Some k, a_value = v\<rparr> = k"
  "value_of \<lparr>a_key = k', a_value = Some w\<rparr> = w"
  by (simp_all add: key_of_def value_of_def str_default_def)

lemma attr_from_overwrite:
  "attr_from (map (\<lambda>a. if key_of a = k then a\<lparr>a_value := Some v\<rparr> else a) as) k' =
     (if k' = k \<and> has_attr_from as k then v else attr_from as k')"
  by (induction as) (auto simp: value_of_def str_default_def)

lemma has_attr_from_append [simp]:
  "has_attr_from (as @ bs) k \<longleftrightarrow> has_attr_from as k \<or> has_attr_from bs k"
  by (induction as) auto

lemma has_attr_from_overwrite:
  "has_attr_from (map (\<lambda>a. if key_of a = k then a\<lparr>a_value := Some v\<rparr> else a) as) k'
   = has_attr_from as k'"
  by (induction as) auto

lemma has_attr_set_attr: "has_attr (set_attr k v e) k' \<longleftrightarrow> k' = k \<or> has_attr e k'"
  by (auto simp: has_attr_def set_attr_def has_attr_from_overwrite)

lemma attr_from_missing: "\<not> has_attr_from as k \<Longrightarrow> attr_from as k = k_empty_value"
  by (induction as) auto

lemma attr_eq: "attr e k = attr_from (ev_attributes e) k"
  by (simp add: attr_def has_attr_def attr_from_missing)

lemma attr_set_attr: "attr (set_attr k v e) k' = (if k' = k then v else attr e k')"
proof (cases "has_attr e k")
  case True
  then show ?thesis
    by (simp add: attr_eq set_attr_def attr_from_overwrite has_attr_def)
next
  case False
  then show ?thesis
    by (auto simp: attr_eq set_attr_def attr_from_append has_attr_def attr_from_missing)
qed

text \<open>
  Attributes behave as a dictionary: after \<open>set_attr k v\<close> the attribute \<open>k\<close> reads
  \<open>v\<close> and is present, every other attribute reads as before, and no field outside the
  attribute list changes.
\<close>

theorem set_attr_lookup:
  "attr (set_attr k v e) k' = (if k' = k then v else attr e k')
   \<and> (has_attr (set_attr k v e) k' \<longleftrightarrow> k' = k \<or> has_attr e k')
   \<and> (set_attr k v e)\<lparr>ev_attributes := ev_attributes e\<rparr> = e"
proof (intro conjI)
  show "attr (set_attr k v e) k' = (if k' = k then v else attr e k')"
    by (rule attr_set_attr)
  show "has_attr (set_attr k v e) k' \<longleftrightarrow> k' = k \<or> has_attr e k'"
    by (rule has_attr_set_attr)
  show "(set_attr k v e)\<lparr>ev_attributes := ev_attributes e\<rparr> = e"
    by (simp add: set_attr_def)
qed

end
