(* ===== verification/Util.thy ===== *)
theory Util
  imports Event "HOL-Library.Word"
begin

text \<open>
  The helpers of src/util/util.cpp and include/util/util.h: matching, writing an event
  field by name, SHA-1 and Base64 for the WebSocket handshake, and the parser of the
  WebSocket request URI. \<open>copy_args\<close>, \<open>free_args\<close> and \<open>ld_environment\<close> only
  prepare the process for \<open>execv\<close> and are not modelled.
\<close>

unbundle bit_operations_syntax

section \<open>Matching\<close>

definition match_regex :: "runtime \<Rightarrow> string \<Rightarrow> string \<Rightarrow> exn + bool" where
  "match_regex rt v re = regex_fn rt v re"

text \<open>\<open>boost::replace_all(s, "%", ".*")\<close>\<close>

definition replace_percent :: "string \<Rightarrow> string" where
  "replace_percent s = concat (map (\<lambda>c. if c = CHR ''%'' then ''.*'' else [c]) s)"

definition match_like :: "runtime \<Rightarrow> string \<Rightarrow> string \<Rightarrow> exn + bool" where
  "match_like rt v re = match_regex rt v (replace_percent re)"

section \<open>Writing an event field by name\<close>

datatype change_value = CString string | CInt int | CDouble fp

definition set_event_value_string :: "event \<Rightarrow> string \<Rightarrow> string \<Rightarrow> bool \<Rightarrow> event" where
  "set_event_value_string e key v replace =
     (if key = ''host'' then (if replace \<or> \<not> has_host e then set_host v e else e)
      else if key = ''service'' then (if replace \<or> \<not> has_service e then set_service v e else e)
      else if key = ''description''
        then (if replace \<or> \<not> has_description e then set_description v e else e)
      else if key = ''state'' then (if replace \<or> \<not> has_state e then set_state v e else e)
      else set_attr key v e)"

definition set_event_value_int :: "event \<Rightarrow> string \<Rightarrow> int \<Rightarrow> bool \<Rightarrow> event" where
  "set_event_value_int e key v replace =
     (if key = ''metric'' then
        (if replace then set_metric_sint64 v (clear_metric e)
         else if \<not> has_metric e then set_metric_sint64 v e else e)
      else if key = ''ttl'' then (if replace \<or> \<not> has_ttl e then set_ttl (float_of_int v) e else e)
      else if key = ''time'' then (if replace \<or> \<not> has_time e then set_time v e else e)
      else e)"

definition set_event_value_double :: "event \<Rightarrow> string \<Rightarrow> fp \<Rightarrow> bool \<Rightarrow> event" where
  "set_event_value_double e key v replace =
     (if key = ''metric'' then
        (if replace then set_metric_d v (clear_metric_f (clear_metric_sint64 e))
         else if \<not> has_metric e then set_metric_d v e else e)
      else e)"

definition set_event_value :: "event \<Rightarrow> string \<Rightarrow> change_value \<Rightarrow> bool \<Rightarrow> event" where
  "set_event_value e key v replace =
     (case v of
        CString s \<Rightarrow> set_event_value_string e key s replace
      | CInt i \<Rightarrow> set_event_value_int e key i replace
      | CDouble d \<Rightarrow> set_event_value_double e key d replace)"

section \<open>SHA-1 and Base64\<close>

definition sha1 :: "runtime \<Rightarrow> string \<Rightarrow> string" where
  "sha1 rt s = sha1_fn rt s"

definition encodeLookup :: string where
  "encodeLookup = ''ABCDEFGHIJKLMNOPQRSTUVWXYZabcdefghijklmnopqrstuvwxyz0123456789+/''"

definition padCharacter :: char where
  "padCharacter = CHR ''=''"

definition lookup6 :: "int \<Rightarrow> char" where
  "lookup6 i = encodeLookup ! nat i"

definition b64_quad :: "int \<Rightarrow> string" where
  "b64_quad temp =
     [lookup6 (drop_bit 18 (temp AND 0x00FC0000)), lookup6 (drop_bit 12 (temp AND 0x0003F000)),
      lookup6 (drop_bit 6 (temp AND 0x00000FC0)), lookup6 (temp AND 0x0000003F)]"

fun base64Encode :: "8 word list \<Rightarrow> string" where
  "base64Encode (a # b # c # rest) =
     b64_quad (push_bit 16 (uint a) + push_bit 8 (uint b) + uint c) @ base64Encode rest"
| "base64Encode [a, b] =
     take 3 (b64_quad (push_bit 16 (uint a) + push_bit 8 (uint b))) @ [padCharacter]"
| "base64Encode [a] = take 2 (b64_quad (push_bit 16 (uint a))) @ [padCharacter, padCharacter]"
| "base64Encode [] = []"

section \<open>The request URI\<close>

definition uri_unescape :: "runtime \<Rightarrow> string \<Rightarrow> string" where
  "uri_unescape rt uri =
     (case unescape rt uri of None \<Rightarrow> uri | Some r \<Rightarrow> takeWhile (\<lambda>c. c \<noteq> CHR 0x00) r)"

text \<open>
  The loop over \<open>key=value\<close> pairs: the accumulated parameters and whether the whole
  text was read. \<open>std::map::insert\<close> keeps the first value of a key.
\<close>

definition map_insert :: "('k, 'v) um \<Rightarrow> 'k \<Rightarrow> 'v \<Rightarrow> ('k, 'v) um" where
  "map_insert m k v = (if map_of m k = None then m @ [(k, v)] else m)"

function parse_params :: "string \<Rightarrow> (string, string) um \<Rightarrow> bool \<times> (string, string) um" where
  "parse_params s params =
     (let key = takeWhile (\<lambda>c. c \<noteq> CHR ''='') s;
          s1 = dropWhile (\<lambda>c. c \<noteq> CHR ''='') s
      in if s1 = [] then (False, params)
         else let v = takeWhile (\<lambda>c. c \<noteq> CHR ''&'') (tl s1);
                  s2 = dropWhile (\<lambda>c. c \<noteq> CHR ''&'') (tl s1);
                  params' = map_insert params key v
              in if s2 = [] then (True, params') else parse_params (tl s2) params')"
  by pat_completeness auto
termination
proof (relation "measure (\<lambda>(s, _). length s)", goal_cases)
  case (2 s params key s1 v s2 params')
  have "length s2 \<le> length (tl s1)"
    unfolding \<open>s2 = _\<close> by (rule length_dropWhile_le)
  also have "\<dots> < length s1" using \<open>s1 \<noteq> []\<close> by simp
  also have "\<dots> \<le> length s"
    unfolding \<open>s1 = _\<close> by (rule length_dropWhile_le)
  finally show ?case by simp
qed simp

declare parse_params.simps [simp del]

definition parse_uri ::
  "runtime \<Rightarrow> string \<Rightarrow> string \<Rightarrow> (string, string) um \<Rightarrow> exn + (bool \<times> string \<times> (string, string) um)"
where
  "parse_uri rt escaped index params =
     (let uri = uri_unescape rt escaped
      in if uri = [] then Inl Undefined
         else if hd uri \<noteq> CHR ''/'' then Inr (False, index, params)
         else let index' = index @ takeWhile (\<lambda>c. c \<noteq> CHR ''?'') uri;
                  rest = dropWhile (\<lambda>c. c \<noteq> CHR ''?'') uri
              in if rest = [] then Inr (False, index', params)
                 else case parse_params (tl rest) params of
                        (ok, params') \<Rightarrow> Inr (ok, index', params'))"

section \<open>Base64 decodes to what was encoded\<close>

text \<open>
  A reference decoder (RFC 4648, section 4) on the texts the encoder produces: four characters
  carry 24 bits, and one or two padding characters stand for missing bytes.
\<close>

fun index_of :: "char \<Rightarrow> string \<Rightarrow> int" where
  "index_of c [] = 0"
| "index_of c (d # ds) = (if c = d then 0 else 1 + index_of c ds)"

definition sextet :: "char \<Rightarrow> int" where
  "sextet c = index_of c encodeLookup"

definition byte_at :: "nat \<Rightarrow> int \<Rightarrow> 8 word" where
  "byte_at k v = word_of_int (v div 2 ^ k)"

fun base64Decode :: "string \<Rightarrow> 8 word list" where
  "base64Decode (p # q # r # s # rest) =
     (let t = sextet p * 2 ^ 18 + sextet q * 2 ^ 12;
          u = t + sextet r * 2 ^ 6;
          v = u + sextet s
      in if r = padCharacter then [byte_at 16 t]
         else if s = padCharacter
           then [byte_at 16 u, byte_at 8 u]
         else [byte_at 16 v, byte_at 8 v, byte_at 0 v]
              @ base64Decode rest)"
| "base64Decode _ = []"

lemma masked_sextet:
  "drop_bit 18 (t AND 0x00FC0000) = (t :: int) div 2 ^ 18 mod 64"
  "drop_bit 12 (t AND 0x0003F000) = t div 2 ^ 12 mod 64"
  "drop_bit 6 (t AND 0x00000FC0) = t div 2 ^ 6 mod 64"
  "t AND 0x0000003F = t mod 64"
proof -
  have m: "(0x3F :: int) = mask 6" by (simp add: mask_eq_exp_minus_1)
  have e: "drop_bit k (t AND push_bit k (mask 6)) = t div 2 ^ k mod 64" for k
    by (simp add: drop_bit_and drop_bit_push_bit flip: take_bit_eq_mask drop_bit_eq_div)
       (simp add: take_bit_eq_mod drop_bit_eq_div)
  have p: "(0x00FC0000 :: int) = push_bit 18 (mask 6)" "(0x0003F000 :: int) = push_bit 12 (mask 6)"
    "(0x00000FC0 :: int) = push_bit 6 (mask 6)"
    by (simp_all add: mask_eq_exp_minus_1 push_bit_eq_mult)
  show "drop_bit 18 (t AND 0x00FC0000) = t div 2 ^ 18 mod 64"
    "drop_bit 12 (t AND 0x0003F000) = t div 2 ^ 12 mod 64"
    "drop_bit 6 (t AND 0x00000FC0) = t div 2 ^ 6 mod 64"
    unfolding p by (rule e)+
  show "t AND 0x0000003F = t mod 64"
    unfolding m by (simp add: take_bit_eq_mod flip: take_bit_eq_mask)
qed

lemma sextet_lookup6:
  assumes "0 \<le> i" "i < 64"
  shows "sextet (lookup6 i) = i" "lookup6 i \<noteq> padCharacter"
proof -
  have "\<forall>i\<in>set [0..63]. sextet (lookup6 i) = i \<and> lookup6 i \<noteq> padCharacter"
    by code_simp
  then show "sextet (lookup6 i) = i" "lookup6 i \<noteq> padCharacter"
    using assms by auto
qed

lemma base64_digits:
  fixes a b c d u v t :: int
  assumes "64 * u + d = t" "64 * v + c = u" "64 * a + b = v"
  shows "a * 2 ^ 18 + b * 2 ^ 12 + c * 2 ^ 6 + d = t"
  using assms by (simp add: algebra_simps)

lemma byte_div: "0 \<le> c \<Longrightarrow> c < 256 \<Longrightarrow> (x * 256 + c) div 256 = (x :: int)"
  by simp

lemma byte_low: "word_of_int (x * 256 + uint c) = (c :: 8 word)"
proof -
  have "(256 :: 8 word) = 0" by code_simp
  then have "word_of_int x * 256 = (0 :: 8 word)" by (simp only: mult_zero_right)
  then show ?thesis by simp
qed

lemma sextets_of: 
  assumes "0 \<le> t" "t < 2 ^ 24"
  shows "(t div 2 ^ 18 mod 64) * 2 ^ 18 + (t div 2 ^ 12 mod 64) * 2 ^ 12
         + (t div 2 ^ 6 mod 64) * 2 ^ 6 + t mod 64 = (t :: int)"
proof -
  define u where "u = t div 64"
  define v where "v = u div 64"
  have eqs: "t div 2 ^ 12 = v" "t div 2 ^ 18 = v div 64" "t div 2 ^ 6 = u"
    by (simp_all add: u_def v_def flip: zdiv_zmult2_eq)
  have top: "v div 64 mod 64 = v div 64"
    using assms by (simp add: u_def v_def flip: zdiv_zmult2_eq)
  show ?thesis unfolding eqs top
    by (rule base64_digits [where u = u and v = v]) (simp_all add: u_def v_def)
qed

lemma uint8_bounds: "0 \<le> uint (a :: 8 word)" "uint (a :: 8 word) < 256"
  using uint_bounded [of a] by simp_all

lemma word8_of_shifted:
  fixes a b c :: "8 word"
  defines "t \<equiv> push_bit 16 (uint a) + push_bit 8 (uint b) + uint c"
  shows "0 \<le> t" "t < 2 ^ 24"
    "byte_at 16 t = a" "byte_at 8 t = b" "byte_at 0 t = c"
proof -
  have t: "t = uint a * 65536 + uint b * 256 + uint c"
    by (simp add: t_def push_bit_eq_mult)
  have a: "0 \<le> uint a" "uint a < 256" "0 \<le> uint b" "uint b < 256" "0 \<le> uint c" "uint c < 256"
    using uint8_bounds by auto
  then show "0 \<le> t" "t < 2 ^ 24" unfolding t by simp_all
  have t8: "t = (uint a * 256 + uint b) * 256 + uint c" unfolding t by simp
  have "t div 256 = uint a * 256 + uint b"
    unfolding t8 using a(5,6) by (rule byte_div)
  then have q8: "t div 2 ^ 8 = uint a * 256 + uint b" by simp
  have "t div 2 ^ 16 = t div 2 ^ 8 div 256" by (simp flip: zdiv_zmult2_eq)
  then have "t div 2 ^ 16 = uint a" unfolding q8 using byte_div a(3,4) by simp
  then show "byte_at 16 t = a" by (simp add: byte_at_def)
  show "byte_at 8 t = b" unfolding byte_at_def q8 by (rule byte_low)
  show "byte_at 0 t = c" unfolding byte_at_def by (simp only: t8 power_0 div_by_1 byte_low)
qed

lemma sextet_b64_quad:
  assumes "b64_quad t = [p, q, r, s]"
  shows "sextet p = t div 2 ^ 18 mod 64" "sextet q = t div 2 ^ 12 mod 64"
    "sextet r = t div 2 ^ 6 mod 64" "sextet s = t mod 64"
    "r \<noteq> padCharacter" "s \<noteq> padCharacter"
  using assms unfolding b64_quad_def masked_sextet by (auto simp: sextet_lookup6)

lemma b64_quad_split: "\<exists>p q r s. b64_quad t = [p, q, r, s]"
  by (simp add: b64_quad_def)

text \<open>
  C29. \<open>base64Encode\<close> is a correct Base64 encoder: the reference decoder recovers every byte
  sequence, whatever its length modulo three.
\<close>

theorem base64_roundtrip: "base64Decode (base64Encode xs) = xs"
proof (induction xs rule: base64Encode.induct)
  case (1 a b c rest)
  let ?t = "push_bit 16 (uint a) + push_bit 8 (uint b) + uint c"
  obtain p q r s where quad: "b64_quad ?t = [p, q, r, s]" using b64_quad_split by blast
  have "sextet p * 2 ^ 18 + sextet q * 2 ^ 12 + sextet r * 2 ^ 6 + sextet s = ?t"
    unfolding sextet_b64_quad [OF quad] by (rule sextets_of) (rule word8_of_shifted)+
  with 1 show ?case
    using sextet_b64_quad(5,6) [OF quad] word8_of_shifted(3-5) [where a = a and b = b and c = c] quad
    by (simp add: Let_def del: push_bit_eq_mult)
next
  case (2 a b)
  let ?t = "push_bit 16 (uint a) + push_bit 8 (uint b) + uint (0 :: 8 word)"
  obtain p q r s where quad: "b64_quad ?t = [p, q, r, s]" using b64_quad_split by blast
  have "sextet p * 2 ^ 18 + sextet q * 2 ^ 12 + sextet r * 2 ^ 6 + sextet s = ?t"
    unfolding sextet_b64_quad [OF quad] by (rule sextets_of) (rule word8_of_shifted)+
  moreover have "sextet s = 0"
    unfolding sextet_b64_quad [OF quad] by (simp add: push_bit_eq_mult)
  ultimately show ?case
    using sextet_b64_quad(5) [OF quad] word8_of_shifted(3-5) [where a = a and b = b and c = 0] quad
    by (simp add: Let_def)
next
  case (3 a)
  let ?t = "push_bit 16 (uint a) + push_bit 8 (uint (0 :: 8 word)) + uint (0 :: 8 word)"
  obtain p q r s where quad: "b64_quad ?t = [p, q, r, s]" using b64_quad_split by blast
  have "sextet p * 2 ^ 18 + sextet q * 2 ^ 12 + sextet r * 2 ^ 6 + sextet s = ?t"
    unfolding sextet_b64_quad [OF quad] by (rule sextets_of) (rule word8_of_shifted)+
  moreover have "sextet s = 0" "sextet r = 0"
    unfolding sextet_b64_quad [OF quad] by (simp_all add: push_bit_eq_mult)
  ultimately show ?case
    using word8_of_shifted(3-5) [where a = a and b = 0 and c = 0] quad
    by (simp add: Let_def)
qed simp

section \<open>Parsing a rendered URI\<close>

fun render_params :: "(string \<times> string) list \<Rightarrow> string" where
  "render_params [] = []"
| "render_params [(k, v)] = k @ ''='' @ v"
| "render_params ((k, v) # kv # rest) = k @ ''='' @ v @ ''&'' @ render_params (kv # rest)"

definition render_uri :: "string \<Rightarrow> (string \<times> string) list \<Rightarrow> string" where
  "render_uri index params = index @ ''?'' @ render_params params"

lemma takeWhile_stop: "c \<notin> set xs \<Longrightarrow> takeWhile (\<lambda>d. d \<noteq> c) (xs @ c # ys) = xs"
  by (induction xs) auto

lemma dropWhile_stop: "c \<notin> set xs \<Longrightarrow> dropWhile (\<lambda>d. d \<noteq> c) (xs @ c # ys) = c # ys"
  by (induction xs) auto

lemma while_absent:
  "c \<notin> set xs \<Longrightarrow> takeWhile (\<lambda>d. d \<noteq> c) xs = xs"
  "c \<notin> set xs \<Longrightarrow> dropWhile (\<lambda>d. d \<noteq> c) xs = []"
  by (induction xs) auto

definition param_ok :: "string \<times> string \<Rightarrow> bool" where
  "param_ok kv \<longleftrightarrow> CHR ''='' \<notin> set (fst kv) \<and> CHR ''&'' \<notin> set (snd kv)"

lemma parse_render_params:
  assumes "ps \<noteq> []" "list_all param_ok ps" "distinct (map fst (qs @ ps))"
  shows "parse_params (render_params ps) qs = (True, qs @ ps)"
  using assms
proof (induction ps arbitrary: qs rule: render_params.induct)
  case (2 k v)
  then have "map_insert qs k v = qs @ [(k, v)]"
    by (auto simp: map_insert_def map_of_eq_None_iff)
  with 2 show ?case
    by (subst parse_params.simps)
       (simp add: param_ok_def takeWhile_stop dropWhile_stop while_absent)
next
  case (3 k v kv rest)
  then have "map_insert qs k v = qs @ [(k, v)]"
    by (auto simp: map_insert_def map_of_eq_None_iff)
  moreover have "parse_params (render_params (kv # rest)) (qs @ [(k, v)])
      = (True, (qs @ [(k, v)]) @ kv # rest)"
    using "3.prems" by (intro "3.IH") auto
  ultimately show ?case
    using "3.prems" by (subst parse_params.simps)
       (simp add: param_ok_def takeWhile_stop dropWhile_stop)
qed simp

text \<open>
  C30. \<open>parse_uri\<close> inverts rendering: when the percent-decoded request is
  \<open>/index?k1=v1&...&kn=vn\<close> with distinct keys, no \<open>=\<close> in a key, no \<open>&\<close> in a value and no
  NUL character, the parse succeeds and gives back the index name and exactly the parameters.
\<close>

theorem parse_uri_render:
  assumes "unescape rt escaped = Some (render_uri index ps)"
    and "CHR 0x00 \<notin> set (render_uri index ps)"
    and "index \<noteq> []" "hd index = CHR ''/''" "CHR ''?'' \<notin> set index"
    and "ps \<noteq> []" "list_all param_ok ps" "distinct (map fst ps)"
  shows "parse_uri rt escaped [] [] = Inr (True, index, ps)"
proof -
  have "uri_unescape rt escaped = render_uri index ps"
    using assms(1,2) by (simp add: uri_unescape_def while_absent)
  moreover have "parse_params (render_params ps) [] = (True, ps)"
    using parse_render_params [of ps "[]"] assms(6-8) by simp
  ultimately show ?thesis
    using assms(3-5)
    by (auto simp: parse_uri_def Let_def render_uri_def takeWhile_stop dropWhile_stop)
qed

theorem parse_uri_render_witness:
  "parse_uri (rt_at 0) ''/index?query=state = ok&subscribe=true'' [] [] =
     Inr (True, ''/index'', [(''query'', ''state = ok''), (''subscribe'', ''true'')])"
  by (rule parse_uri_render) (simp_all add: rt_at_def render_uri_def param_ok_def)

text \<open>The fields that a string value writes, and whether a write goes through.\<close>

definition string_field :: "string \<Rightarrow> bool" where
  "string_field k \<longleftrightarrow> k \<in> {''host'', ''service'', ''description'', ''state''}"

definition may_write :: "bool \<Rightarrow> bool \<Rightarrow> bool" where
  "may_write present replace \<longleftrightarrow> replace \<or> \<not> present"

definition writes :: "event \<Rightarrow> string \<Rightarrow> bool \<Rightarrow> bool" where
  "writes e key replace = may_write (string_field key \<and> has_field_set e key) replace"

lemma value_to_str_attr:
  "\<not> string_field k \<Longrightarrow> value_to_str e k = attr e k"
  by (simp add: value_to_str_def string_field_def attr_def)

lemma attr_set_field [simp]:
  "attr (set_host v e) k = attr e k" "has_attr (set_host v e) k = has_attr e k"
  "attr (set_service v e) k = attr e k" "has_attr (set_service v e) k = has_attr e k"
  "attr (set_description v e) k = attr e k" "has_attr (set_description v e) k = has_attr e k"
  "attr (set_state v e) k = attr e k" "has_attr (set_state v e) k = has_attr e k"
  by (simp_all add: attr_def has_attr_def field_defs)

lemma value_to_str_set:
  "value_to_str (set_host v e) k = (if k = ''host'' then v else value_to_str e k)"
  "value_to_str (set_service v e) k = (if k = ''service'' then v else value_to_str e k)"
  "value_to_str (set_description v e) k = (if k = ''description'' then v else value_to_str e k)"
  "value_to_str (set_state v e) k = (if k = ''state'' then v else value_to_str e k)"
  by (simp_all add: value_to_str_def) (simp_all add: field_defs str_default_def)

lemma string_field_set_attr:
  "string_field k' \<Longrightarrow> value_to_str (set_attr k v e) k' = value_to_str e k'"
  unfolding string_field_def
  by (elim insertE emptyE) (simp_all add: value_to_str_def set_attr_def field_defs)


end
