(* ===== verification/Predicates.thy ===== *)
theory Predicates
  imports Util
begin

text \<open>
  src/predicates/predicates.cpp. A \<open>predicate_t\<close> is a closure from an event to a boolean; it may
  read the clock and it may raise, when a regular expression is malformed. The functions that
  take the event are named as in the source; the ones that build a closure start with \<open>p_\<close>.
\<close>

type_synonym predicate_t = "runtime \<Rightarrow> event \<Rightarrow> exn + bool"

definition k_default_ttl :: int where
  "k_default_ttl = 60"

fun tagged_any :: "event \<Rightarrow> string list \<Rightarrow> bool" where
  "tagged_any e [] = False"
| "tagged_any e (tag # tags) = (if has_tag e tag then True else tagged_any e tags)"

fun tagged_all :: "event \<Rightarrow> string list \<Rightarrow> bool" where
  "tagged_all e [] = True"
| "tagged_all e (tag # tags) = (if \<not> has_tag e tag then False else tagged_all e tags)"

text \<open>The age is an \<open>int64_t\<close> and the ttl a \<open>float\<close>: the age is converted to compare.\<close>

definition expired :: "runtime \<Rightarrow> event \<Rightarrow> bool" where
  "expired rt e =
     (let t = (if has_ttl e then ttl e else float_of_int k_default_ttl)
      in if state e = ''expired'' then True
         else if unix_time rt < time e then False
         else fp_gt (float_of_int (unix_time rt - time e)) t)"

definition above_eq :: "event \<Rightarrow> fp \<Rightarrow> bool" where
  "above_eq e v = fp_ge (metric e) v"

definition above :: "event \<Rightarrow> fp \<Rightarrow> bool" where
  "above e v = fp_gt (metric e) v"

definition under_eq :: "event \<Rightarrow> fp \<Rightarrow> bool" where
  "under_eq e v = fp_le (metric e) v"

definition under :: "event \<Rightarrow> fp \<Rightarrow> bool" where
  "under e v = fp_lt (metric e) v"

definition match_value :: "event \<Rightarrow> string \<Rightarrow> string \<Rightarrow> bool" where
  "match_value e key v \<longleftrightarrow> value_to_str e key = v"

definition match_re :: "runtime \<Rightarrow> event \<Rightarrow> string \<Rightarrow> string \<Rightarrow> exn + bool" where
  "match_re rt e key v = match_regex rt (value_to_str e key) v"

definition match_like_value :: "runtime \<Rightarrow> event \<Rightarrow> string \<Rightarrow> string \<Rightarrow> exn + bool" where
  "match_like_value rt e key v = match_like rt (value_to_str e key) v"

section \<open>Closures\<close>

definition p_above_eq :: "fp \<Rightarrow> predicate_t" where
  "p_above_eq v = (\<lambda>rt e. Inr (above_eq e v))"

definition p_above :: "fp \<Rightarrow> predicate_t" where
  "p_above v = (\<lambda>rt e. Inr (above e v))"

definition p_under_eq :: "fp \<Rightarrow> predicate_t" where
  "p_under_eq v = (\<lambda>rt e. Inr (under_eq e v))"

definition p_under :: "fp \<Rightarrow> predicate_t" where
  "p_under v = (\<lambda>rt e. Inr (under e v))"

definition p_state :: "string \<Rightarrow> predicate_t" where
  "p_state s = (\<lambda>rt e. Inr (state e = s))"

definition p_service :: "string \<Rightarrow> predicate_t" where
  "p_service s = (\<lambda>rt e. Inr (service e = s))"

definition p_match :: "string \<Rightarrow> string \<Rightarrow> predicate_t" where
  "p_match key v = (\<lambda>rt e. Inr (match_value e key v))"

definition p_match_any :: "string \<Rightarrow> string list \<Rightarrow> predicate_t" where
  "p_match_any key vs = (\<lambda>rt e. Inr (value_to_str e key \<in> set vs))"

definition p_match_re :: "string \<Rightarrow> string \<Rightarrow> predicate_t" where
  "p_match_re key v = (\<lambda>rt e. match_re rt e key v)"

text \<open>The loop of the \<open>_any\<close> closures: the first match ends it, a raise ends it too.\<close>

fun any_match :: "(string \<Rightarrow> exn + bool) \<Rightarrow> string list \<Rightarrow> exn + bool" where
  "any_match f [] = Inr False"
| "any_match f (v # vs) = bind_exn (f v) (\<lambda>b. if b then Inr True else any_match f vs)"

definition p_match_re_any :: "string \<Rightarrow> string list \<Rightarrow> predicate_t" where
  "p_match_re_any key vs = (\<lambda>rt e. any_match (match_re rt e key) vs)"

definition p_match_like :: "string \<Rightarrow> string \<Rightarrow> predicate_t" where
  "p_match_like key v = (\<lambda>rt e. match_like_value rt e key v)"

definition p_match_like_any :: "string \<Rightarrow> string list \<Rightarrow> predicate_t" where
  "p_match_like_any key vs = (\<lambda>rt e. any_match (match_like_value rt e key) vs)"

definition default_true :: predicate_t where
  "default_true = (\<lambda>rt e. Inr True)"

section \<open>What the predicates decide\<close>

lemma tagged_any_iff: "tagged_any e tags \<longleftrightarrow> (\<exists>t\<in>set tags. has_tag e t)"
  by (induction tags) auto

lemma tagged_all_iff: "tagged_all e tags \<longleftrightarrow> (\<forall>t\<in>set tags. has_tag e t)"
  by (induction tags) auto

lemma any_match_total:
  "(\<And>v. v \<in> set vs \<Longrightarrow> f v = Inr (g v)) \<Longrightarrow> any_match f vs = Inr (\<exists>v\<in>set vs. g v)"
  by (induction vs) auto

lemma above_or_under:
  "metric e \<noteq> NaN \<Longrightarrow> v \<noteq> NaN \<Longrightarrow> above_eq e v \<longleftrightarrow> \<not> under e v"
  by (simp add: above_eq_def under_def fp_ge_def fp_le_iff_not_lt)

lemma float_of_int_small [simp]: "\<bar>i\<bar> < 2 ^ 24 \<Longrightarrow> float_of_int i = Fin (of_int i)"
  by (simp add: float_of_int_def)

definition ttl_seconds :: "event \<Rightarrow> int option" where
  "ttl_seconds e =
     (if has_ttl e
      then (case ttl e of Fin q \<Rightarrow> if q = of_int \<lfloor>q\<rfloor> then Some \<lfloor>q\<rfloor> else None | _ \<Rightarrow> None)
      else Some k_default_ttl)"

text \<open>
  An event whose ttl is a whole number of seconds (60 when it has none) is expired exactly when
  its state says so or when its age exceeds the ttl, for ages that a \<open>float\<close> holds exactly; an
  event from the future is not expired.
\<close>

theorem expired_iff:
  assumes "ttl_seconds e = Some k" "0 \<le> k" "\<bar>unix_time rt - time e\<bar> < 2 ^ 24"
  shows "expired rt e \<longleftrightarrow> state e = ''expired'' \<or> k < unix_time rt - time e"
proof -
  have "(if has_ttl e then ttl e else float_of_int k_default_ttl) = Fin (of_int k)"
    using assms(1) by (auto simp: ttl_seconds_def k_default_ttl_def split: if_splits fp.splits)
  then show ?thesis
    using assms(2,3) by (auto simp: expired_def Let_def fp_gt_def)
qed

theorem expired_iff_witness:
  "let e = set_time 100 empty_event
   in \<not> expired (rt_at 160) e \<and> expired (rt_at 161) e \<and> \<not> expired (rt_at 50) e"
proof -
  let ?e = "set_time 100 empty_event"
  have e: "ttl_seconds ?e = Some 60" "state empty_event = []"
    by (simp_all add: ttl_seconds_def k_default_ttl_def event_defs)
  show ?thesis
    using expired_iff [OF e(1), of "rt_at 160"] expired_iff [OF e(1), of "rt_at 161"]
      expired_iff [OF e(1), of "rt_at 50"] by (simp add: e(2))
qed

end
