(* ===== verification/Folds.thy ===== *)
theory Folds
  imports Util
begin

text \<open>
  src/folds/folds.cpp: the functions that reduce a non-empty list of events to one event. The
  result is a copy of the first event with a new metric and the largest time. \<open>max_time\<close> computes
  in doubles and the result is cast back to \<open>int64_t\<close>, which is undefined when the time rounds to
  \<open>2^63\<close>; hence the result type.
\<close>

type_synonym fold_fn_t = "event list \<Rightarrow> exn + event"

fun reduce_from :: "(fp \<Rightarrow> fp \<Rightarrow> fp) \<Rightarrow> fp \<Rightarrow> event list \<Rightarrow> fp" where
  "reduce_from f t [] = t"
| "reduce_from f t (e # es) = reduce_from f (f t (metric e)) es"

fun reduce :: "(fp \<Rightarrow> fp \<Rightarrow> fp) \<Rightarrow> event list \<Rightarrow> fp" where
  "reduce f (e # es) = reduce_from f (metric e) es"
| "reduce f [] = NaN"

definition sum_fn :: "fp \<Rightarrow> fp \<Rightarrow> fp" where "sum_fn x y = fp_add x y"

definition product_fn :: "fp \<Rightarrow> fp \<Rightarrow> fp" where "product_fn x y = fp_mul x y"

definition difference_fn :: "fp \<Rightarrow> fp \<Rightarrow> fp" where "difference_fn x y = fp_sub x y"

fun max_time_from :: "fp \<Rightarrow> event list \<Rightarrow> fp" where
  "max_time_from m [] = m"
| "max_time_from m (e # es) =
     max_time_from (if fp_gt (double_of_int (time e)) m then double_of_int (time e) else m) es"

definition max_time :: "event list \<Rightarrow> fp" where
  "max_time es = max_time_from (Fin 0) es"

definition set_time_fp :: "fp \<Rightarrow> event \<Rightarrow> exn + event" where
  "set_time_fp d e = bind_exn (int64_of_fp d) (\<lambda>t. Inr (set_time t e))"

definition fold_events :: "(fp \<Rightarrow> fp \<Rightarrow> fp) \<Rightarrow> fold_fn_t" where
  "fold_events f es =
     (if es = [] then Inr empty_event
      else set_time_fp (max_time es) (set_metric (reduce f es) (hd es)))"

definition sum_events :: fold_fn_t where "sum_events es = fold_events sum_fn es"

definition product_events :: fold_fn_t where "product_events es = fold_events product_fn es"

definition difference :: fold_fn_t where "difference es = fold_events difference_fn es"

definition mean :: fold_fn_t where
  "mean es =
     (if es = [] then Inr empty_event
      else set_time_fp (max_time es)
             (set_metric_d (fp_div (reduce sum_fn es) (double_of_int (int (length es)))) (hd es)))"

fun min_from :: "fp \<Rightarrow> event list \<Rightarrow> fp" where
  "min_from m [] = m"
| "min_from m (e # es) = min_from (if fp_lt (metric e) m then metric e else m) es"

definition minimum :: fold_fn_t where
  "minimum es =
     (if es = [] then Inr empty_event
      else set_time_fp (max_time es) (set_metric_d (min_from (metric (hd es)) es) (hd es)))"

fun max_from :: "fp \<Rightarrow> event list \<Rightarrow> fp" where
  "max_from m [] = m"
| "max_from m (e # es) = max_from (if fp_gt (metric e) m then metric e else m) es"

definition maximum :: fold_fn_t where
  "maximum es =
     (if es = [] then Inr empty_event
      else set_time_fp (max_time es) (set_metric_d (max_from (metric (hd es)) es) (hd es)))"

definition count_events :: fold_fn_t where
  "count_events es =
     (if es = [] then Inr empty_event
      else set_time_fp (max_time es)
             (set_metric (double_of_int (int (length es))) (hd es)))"

section \<open>The time of the result\<close>

definition time_small :: "event \<Rightarrow> bool" where
  "time_small e \<longleftrightarrow> \<bar>time e\<bar> < 2 ^ 53"

lemma double_of_int_small [simp]: "\<bar>i\<bar> < 2 ^ 53 \<Longrightarrow> double_of_int i = Fin (of_int i)"
  by (simp add: double_of_int_def)

lemma max_time_from_small:
  "list_all time_small es \<Longrightarrow>
     max_time_from (Fin (of_int t)) es = Fin (of_int (fold max (map time es) t))"
proof (induction es arbitrary: t)
  case (Cons e es)
  then have "(if fp_gt (double_of_int (time e)) (Fin (of_int t)) then double_of_int (time e)
      else Fin (of_int t)) = Fin (of_int (max (time e) t))"
    by (simp add: time_small_def fp_gt_def)
  with Cons show ?case by simp
qed simp

lemma fold_max_bounds:
  "list_all time_small es \<Longrightarrow> \<bar>t\<bar> < 2 ^ 53 \<Longrightarrow> \<bar>fold max (map time es) t\<bar> < 2 ^ 53"
  by (induction es arbitrary: t) (auto simp: time_small_def max_def)

lemma set_time_fp_small:
  assumes "list_all time_small es"
  shows "set_time_fp (max_time es) e = Inr (set_time (fold max (map time es) 0) e)"
proof -
  have "max_time es = Fin (of_int (fold max (map time es) 0))"
    using max_time_from_small [OF assms, of 0] by (simp add: max_time_def)
  moreover have "int64_range (fold max (map time es) 0)"
    using fold_max_bounds [OF assms, of 0] by (auto simp: int64_range_def)
  ultimately show ?thesis by (simp add: set_time_fp_def)
qed

section \<open>Minimum and maximum\<close>

definition numeric :: "event \<Rightarrow> bool" where
  "numeric e \<longleftrightarrow> metric e \<noteq> NaN"

lemma min_from_least:
  assumes "m \<noteq> NaN" "list_all numeric es"
  shows "min_from m es \<noteq> NaN \<and> fp_le (min_from m es) m
     \<and> (\<forall>e\<in>set es. fp_le (min_from m es) (metric e))
     \<and> min_from m es \<in> insert m (metric ` set es)"
  using assms
proof (induction es arbitrary: m)
  case (Cons e es)
  let ?n = "if fp_lt (metric e) m then metric e else m"
  have n: "?n \<noteq> NaN" "fp_le ?n m" "fp_le ?n (metric e)"
    using Cons.prems by (auto simp: numeric_def fp_le_iff_not_lt dest: fp_lt_antisym)
  from Cons.IH [OF n(1)] Cons.prems have
    "min_from ?n es \<noteq> NaN \<and> fp_le (min_from ?n es) ?n
     \<and> (\<forall>e\<in>set es. fp_le (min_from ?n es) (metric e))
     \<and> min_from ?n es \<in> insert ?n (metric ` set es)" by simp
  with n show ?case by (auto intro: fp_le_trans split: if_splits)
qed simp

lemma max_from_greatest:
  assumes "m \<noteq> NaN" "list_all numeric es"
  shows "max_from m es \<noteq> NaN \<and> fp_le m (max_from m es)
     \<and> (\<forall>e\<in>set es. fp_le (metric e) (max_from m es))
     \<and> max_from m es \<in> insert m (metric ` set es)"
  using assms
proof (induction es arbitrary: m)
  case (Cons e es)
  let ?n = "if fp_gt (metric e) m then metric e else m"
  have n: "?n \<noteq> NaN" "fp_le m ?n" "fp_le (metric e) ?n"
    using Cons.prems by (auto simp: numeric_def fp_le_iff_not_lt fp_gt_def dest: fp_lt_antisym)
  from Cons.IH [OF n(1)] Cons.prems have
    "max_from ?n es \<noteq> NaN \<and> fp_le ?n (max_from ?n es)
     \<and> (\<forall>e\<in>set es. fp_le (metric e) (max_from ?n es))
     \<and> max_from ?n es \<in> insert ?n (metric ` set es)" by simp
  with n show ?case by (auto intro: fp_le_trans split: if_splits)
qed simp

text \<open>The fold only touched the double field: no float or integer metric shadows it.\<close>

definition plain_metric :: "event \<Rightarrow> bool" where
  "plain_metric e \<longleftrightarrow> ev_metric_f e = None \<and> ev_metric_sint64 e = None"

lemma metric_set_metric_d: "plain_metric e \<Longrightarrow> metric (set_metric_d m e) = m"
  by (simp add: plain_metric_def event_defs)

lemma time_after_metric_d [simp]: "set_time t (set_metric_d m e) = set_metric_d m (set_time t e)"
  by (simp add: event_defs)

lemma plain_metric_set_metric [simp]: "plain_metric (set_metric m e)"
  by (simp add: plain_metric_def set_metric_def clear_metrics_def)

lemma plain_metric_set_time [simp]: "plain_metric (set_time t e) = plain_metric e"
  by (simp add: plain_metric_def set_time_def)

text \<open>
  \<open>minimum\<close> and \<open>maximum\<close> return an event whose metric is attained in the list and bounds every
  metric of it, and whose time is the latest one, when no metric is NaN and the first event holds
  its metric in the double field.
\<close>

theorem minimum_maximum_extremal:
  assumes "es \<noteq> []" "list_all numeric es" "list_all time_small es" "plain_metric (hd es)"
  shows "\<exists>lo hi. minimum es = Inr lo \<and> maximum es = Inr hi
     \<and> (\<forall>e\<in>set es. fp_le (metric lo) (metric e) \<and> fp_le (metric e) (metric hi))
     \<and> metric lo \<in> metric ` set es \<and> metric hi \<in> metric ` set es
     \<and> time lo = fold max (map time es) 0 \<and> time hi = fold max (map time es) 0"
proof -
  let ?t = "fold max (map time es) 0" and ?m = "metric (hd es)"
  let ?r = "\<lambda>m. set_metric_d m (set_time ?t (hd es))"
  have "?m \<noteq> NaN" using assms(1,2) by (cases es) (auto simp: numeric_def)
  note lo = min_from_least [OF this assms(2)] and hi = max_from_greatest [OF this assms(2)]
  have eq: "minimum es = Inr (?r (min_from ?m es))" "maximum es = Inr (?r (max_from ?m es))"
    using assms(1,3) by (simp_all add: minimum_def maximum_def set_time_fp_small)
  have in_es: "?m \<in> metric ` set es" using assms(1) by simp
  have r: "time (?r m) = ?t" "metric (?r m) = m" for m
    using assms(4) by (simp_all add: metric_set_metric_d) (simp add: event_defs)
  show ?thesis
    using lo hi in_es
    by (intro exI [of _ "?r (min_from ?m es)"] exI [of _ "?r (max_from ?m es)"])
       (simp only: eq r insert_absorb, blast)
qed

definition metrics_123 :: "event list" where
  "metrics_123 = map (\<lambda>i. set_time i (set_metric (Fin (of_int i)) empty_event)) [2, 1, 3]"

theorem minimum_maximum_extremal_witness:
  "\<exists>lo hi. minimum metrics_123 = Inr lo \<and> maximum metrics_123 = Inr hi
     \<and> (\<forall>e\<in>set metrics_123. fp_le (metric lo) (metric e) \<and> fp_le (metric e) (metric hi))
     \<and> metric lo \<in> metric ` set metrics_123 \<and> metric hi \<in> metric ` set metrics_123
     \<and> time lo = 3 \<and> time hi = 3"
  using minimum_maximum_extremal [of metrics_123]
  by (simp add: metrics_123_def numeric_def time_small_def)

section \<open>Exact sums\<close>

definition int_metric :: "event \<Rightarrow> int" where
  "int_metric e = (case metric e of Fin q \<Rightarrow> \<lfloor>q\<rfloor> | _ \<Rightarrow> 0)"

definition integral :: "event \<Rightarrow> bool" where
  "integral e \<longleftrightarrow> metric e = Fin (of_int (int_metric e))"

lemma fp_add_of_int:
  "\<bar>i + j\<bar> < 2 ^ 53 \<Longrightarrow> fp_add (Fin (of_int i)) (Fin (of_int j)) = Fin (of_int (i + j))"
  using round64_of_int [of "i + j"] by simp

lemma reduce_sum_exact:
  assumes "list_all integral es" "\<bar>i\<bar> + sum_list (map (\<lambda>e. \<bar>int_metric e\<bar>) es) < 2 ^ 53"
  shows "reduce_from sum_fn (Fin (of_int i)) es
     = Fin (of_int (i + sum_list (map int_metric es)))"
  using assms
proof (induction es arbitrary: i)
  case (Cons e es)
  have nonneg: "0 \<le> sum_list (map (\<lambda>e. \<bar>int_metric e\<bar>) es)"
    by (rule sum_list_nonneg) auto
  have b: "\<bar>i + int_metric e\<bar> + sum_list (map (\<lambda>e. \<bar>int_metric e\<bar>) es) < 2 ^ 53"
    using Cons.prems by simp
  have "fp_add (Fin (of_int i)) (metric e) = Fin (of_int (i + int_metric e))"
    using Cons.prems(1) fp_add_of_int [of i "int_metric e"] b nonneg by (simp add: integral_def)
  moreover have "reduce_from sum_fn (Fin (of_int (i + int_metric e))) es
      = Fin (of_int (i + int_metric e + sum_list (map int_metric es)))"
    using Cons.prems(1) b by (intro Cons.IH) simp_all
  ultimately show ?case by (simp add: sum_fn_def [of _ "metric e"] add.assoc)
qed simp

text \<open>
  \<open>sum\<close> of events with whole-number metrics is exact: below \<open>2^53\<close> no rounding happens, the
  metric of the result is the sum of the metrics, every other field but the time comes from the
  first event, and \<open>count\<close> gives the number of events.
\<close>

theorem sum_exact:
  assumes "es \<noteq> []" "list_all integral es" "list_all time_small es"
    and "sum_list (map (\<lambda>e. \<bar>int_metric e\<bar>) es) < 2 ^ 53" "int (length es) < 2 ^ 53"
  shows "sum_events es = Inr (set_time (fold max (map time es) 0)
           (set_metric (Fin (of_int (sum_list (map int_metric es)))) (hd es)))
     \<and> count_events es = Inr (set_time (fold max (map time es) 0)
           (set_metric (Fin (of_int (int (length es)))) (hd es)))"
proof -
  obtain e rest where es: "es = e # rest" using assms(1) by (cases es) auto
  have "reduce sum_fn es = Fin (of_int (sum_list (map int_metric es)))"
    using assms(2,4) reduce_sum_exact [of rest "int_metric e"]
    by (simp add: es integral_def)
  then show ?thesis
    using assms(1,3,5)
    by (simp add: sum_events_def count_events_def fold_events_def set_time_fp_small)
qed

theorem sum_exact_witness:
  "sum_events metrics_123 = Inr (set_time 3 (set_metric (Fin 6) (hd metrics_123)))
   \<and> count_events metrics_123 = Inr (set_time 3 (set_metric (Fin 3) (hd metrics_123)))"
  using sum_exact [of metrics_123]
  by (simp add: metrics_123_def integral_def int_metric_def time_small_def)

text \<open>
  \<open>mean\<close>, \<open>minimum\<close> and \<open>maximum\<close> leave the reported metric alone when the first event holds it
  in the float or integer field: they write the double field, which those two shadow.
\<close>

theorem shadowed_metric_unchanged:
  assumes "es \<noteq> []" "list_all time_small es" "\<not> plain_metric (hd es)"
    and "f \<in> {mean, minimum, maximum}"
  shows "\<exists>r. f es = Inr r \<and> metric r = metric (hd es)"
  using assms
  by (auto simp: mean_def minimum_def maximum_def set_time_fp_small plain_metric_def
      set_metric_d_def metric_def set_time_def)

theorem shadowed_metric_unchanged_witness:
  "\<exists>r. mean [set_metric_sint64 2 empty_event, set_metric_sint64 4 empty_event] = Inr r
     \<and> metric r = Fin 2"
  using shadowed_metric_unchanged
    [of "[set_metric_sint64 2 empty_event, set_metric_sint64 4 empty_event]" mean]
  by (simp add: time_small_def plain_metric_def event_defs)

end
