(* ===== verification/Stream_Infra.thy ===== *)
theory Stream_Infra
  imports Predicates Folds
begin

text \<open>
  src/streams/stream_infra.cpp: a stream is a list of nodes; \<open>push_event\<close> runs an event through
  them, \<open>init_streams\<close> gives every node its event handler, and \<open>>>\<close> appends.

  An \<open>on_event_fn_t\<close> is a closure over state it shares through a pointer. Here it is a coinductive
  object: calling it performs actions, returns the next events or raises, and gives the object
  with its new state. \<open>fwd\<close> is a \<open>forward_fn_t\<close> in the same way: the closure that pushes events
  into a fresh copy of the rest of the stream. One call is one atomic step, as the mutex of every
  closure makes it.

  The operations that leave the process, or write a log, are values of \<open>action\<close>.
\<close>

datatype action =
    Log string
  | IndexAdd event
  | Graphite string int event
  | Forward string int event
  | Email string string "string list" event
  | PagerDutyTrigger string event
  | PagerDutyResolve string event
  | PagerDutyAcknowledge string event

codatatype obj = Obj (call: "runtime \<Rightarrow> event \<Rightarrow> (action, event list) eff \<times> obj")

codatatype fwd = Fwd (fpush: "runtime \<Rightarrow> event list \<Rightarrow> (action, unit) eff \<times> fwd")

record stream_node_t =
  on_init :: "fwd \<Rightarrow> obj"
  on_event :: "obj option"

type_synonym streams_t = "stream_node_t list"

section \<open>Closures from step functions\<close>

text \<open>
  The body of a handler as a function of the state it captures. \<open>closure f s\<close> is the handler
  with captured state \<open>s\<close>; a handler that captures nothing mutable is \<open>pure_closure\<close>.
\<close>

type_synonym 's step = "'s \<Rightarrow> runtime \<Rightarrow> event \<Rightarrow> (action, event list) eff \<times> 's"

primcorec closure :: "'s step \<Rightarrow> 's \<Rightarrow> obj" where
  "call (closure f s) = (\<lambda>rt e. map_prod id (closure f) (f s rt e))"

definition pure_closure :: "(runtime \<Rightarrow> event \<Rightarrow> (action, event list) eff) \<Rightarrow> obj" where
  "pure_closure g = closure (\<lambda>_ rt e. (g rt e, ())) ()"

section \<open>Creating streams\<close>

text \<open>
  The three overloads: a stateless handler is its own initial and current handler; the other two
  leave \<open>on_event\<close> empty until \<open>init_streams\<close> runs.
\<close>

definition create_stream :: "obj \<Rightarrow> streams_t" where
  "create_stream fn = [\<lparr>on_init = (\<lambda>_. fn), on_event = Some fn\<rparr>]"

definition create_stream_simple :: "(unit \<Rightarrow> obj) \<Rightarrow> streams_t" where
  "create_stream_simple fn = [\<lparr>on_init = (\<lambda>_. fn ()), on_event = None\<rparr>]"

definition create_stream_init :: "(fwd \<Rightarrow> obj) \<Rightarrow> streams_t" where
  "create_stream_init fn = [\<lparr>on_init = fn, on_event = None\<rparr>]"

definition join :: "streams_t \<Rightarrow> streams_t \<Rightarrow> streams_t" where
  "join left right = left @ right"

section \<open>Pushing events\<close>

text \<open>The inner loop of \<open>push_event\<close>: one node on a list of events.\<close>

fun call_all :: "obj \<Rightarrow> runtime \<Rightarrow> event list \<Rightarrow> (action, event list) eff \<times> obj" where
  "call_all f rt [] = (ret [], f)"
| "call_all f rt (e # es) =
     (case call f rt e of
        ((w, Inl x), f1) \<Rightarrow> ((w, Inl x), f1)
      | ((w, Inr out), f1) \<Rightarrow>
          (case call_all f1 rt es of
             ((w2, Inl x), f2) \<Rightarrow> ((w @ w2, Inl x), f2)
           | ((w2, Inr rest), f2) \<Rightarrow> ((w @ w2, Inr (out @ rest)), f2)))"

text \<open>The outer loop; it stops at the first node that yields nothing.\<close>

fun push_nodes :: "streams_t \<Rightarrow> runtime \<Rightarrow> event list \<Rightarrow> (action, event list) eff \<times> streams_t"
where
  "push_nodes [] rt es = (ret es, [])"
| "push_nodes (n # ns) rt es =
     (case on_event n of
        None \<Rightarrow> (throw Bad_function_call, n # ns)
      | Some f \<Rightarrow>
          (case call_all f rt es of
             ((w, Inl x), f1) \<Rightarrow> ((w, Inl x), n\<lparr>on_event := Some f1\<rparr> # ns)
           | ((w, Inr out), f1) \<Rightarrow>
               if out = [] then ((w, Inr []), n\<lparr>on_event := Some f1\<rparr> # ns)
               else (case push_nodes ns rt out of
                       ((w2, r), ns1) \<Rightarrow> ((w @ w2, r), n\<lparr>on_event := Some f1\<rparr> # ns1))))"

definition push_event :: "streams_t \<Rightarrow> runtime \<Rightarrow> event \<Rightarrow> (action, event list) eff \<times> streams_t"
where
  "push_event s rt e = (if s = [] then (ret [], []) else push_nodes s rt [e])"

text \<open>The loop of the closure that \<open>forward\<close> returns.\<close>

fun push_list :: "streams_t \<Rightarrow> runtime \<Rightarrow> event list \<Rightarrow> (action, unit) eff \<times> streams_t" where
  "push_list s rt [] = (ret (), s)"
| "push_list s rt (e # es) =
     (case push_event s rt e of
        ((w, Inl x), s1) \<Rightarrow> ((w, Inl x), s1)
      | ((w, Inr _), s1) \<Rightarrow>
          (case push_list s1 rt es of ((w2, r), s2) \<Rightarrow> ((w @ w2, r), s2)))"

primcorec fwd_of :: "streams_t \<Rightarrow> fwd" where
  "fpush (fwd_of s) = (\<lambda>rt es. map_prod id fwd_of (push_list s rt es))"

section \<open>Initialising streams\<close>

text \<open>
  From the last node to the first, \<open>on_event\<close> becomes what \<open>on_init\<close> returns for the nodes behind
  it. \<open>forward\<close> initialises its own copy of those nodes once more before it uses them; by
  \<open>init_streams_idem\<close> below that copy is the initialised rest.
\<close>

fun init_streams :: "streams_t \<Rightarrow> streams_t" where
  "init_streams [] = []"
| "init_streams (n # ns) =
     (let rest = init_streams ns
      in n\<lparr>on_event := Some (on_init n (fwd_of rest))\<rparr> # rest)"

definition forward :: "streams_t \<Rightarrow> fwd" where
  "forward s = fwd_of (init_streams s)"

section \<open>Histories\<close>

text \<open>
  A history is a list of events with the runtime in force when each arrives. \<open>feed\<close> pushes them in
  turn and collects the results; \<open>run\<close> does the same for one step function.
\<close>

type_synonym history = "(runtime \<times> event) list"

fun feed :: "streams_t \<Rightarrow> history \<Rightarrow> (action, event list) eff list" where
  "feed s [] = []"
| "feed s ((rt, e) # h) = (case push_event s rt e of (m, s1) \<Rightarrow> m # feed s1 h)"

fun feed_state :: "streams_t \<Rightarrow> history \<Rightarrow> streams_t" where
  "feed_state s [] = s"
| "feed_state s ((rt, e) # h) = feed_state (snd (push_event s rt e)) h"

fun run :: "'s step \<Rightarrow> 's \<Rightarrow> history \<Rightarrow> (action, event list) eff list" where
  "run f s [] = []"
| "run f s ((rt, e) # h) = (case f s rt e of (m, s1) \<Rightarrow> m # run f s1 h)"

fun run_state :: "'s step \<Rightarrow> 's \<Rightarrow> history \<Rightarrow> 's" where
  "run_state f s [] = s"
| "run_state f s ((rt, e) # h) = run_state f (snd (f s rt e)) h"

section \<open>Initialisation\<close>

lemma on_init_init_streams [simp]: "map on_init (init_streams s) = map on_init s"
  by (induction s) (simp_all add: Let_def)

lemma init_streams_cong: "map on_init s = map on_init t \<Longrightarrow> init_streams s = init_streams t"
proof (induction s arbitrary: t)
  case (Cons n ns)
  then obtain m ms where t: "t = m # ms" "on_init n = on_init m" "map on_init ns = map on_init ms"
    by auto
  have "n\<lparr>on_event := v\<rparr> = m\<lparr>on_event := v\<rparr>" for v
    using t(2) by (cases n; cases m) simp
  then show ?case using Cons.IH [OF t(3)] t by (simp add: Let_def)
qed simp

lemma init_streams_idem: "init_streams (init_streams s) = init_streams s"
  by (rule init_streams_cong) simp

lemma forward_init: "forward (init_streams s) = fwd_of (init_streams s)"
  by (simp add: forward_def init_streams_idem)

lemma init_streams_eq_Nil [simp]: "init_streams s = [] \<longleftrightarrow> s = []"
  by (cases s) (simp_all add: Let_def)

definition ready :: "streams_t \<Rightarrow> bool" where
  "ready s = list_all (\<lambda>n. on_event n \<noteq> None) s"

lemma ready_simps [simp]:
  "ready []"
  "ready (n # ns) \<longleftrightarrow> on_event n \<noteq> None \<and> ready ns"
  "ready (s @ t) \<longleftrightarrow> ready s \<and> ready t"
  by (simp_all add: ready_def)

lemma ready_init_streams [simp]: "ready (init_streams s)"
  by (induction s) (simp_all add: Let_def)

lemma ready_push_nodes: "ready s \<Longrightarrow> ready (snd (push_nodes s rt es))"
proof (induction s arbitrary: es)
  case (Cons n ns)
  show ?case
  proof (cases "on_event n")
    case None
    with Cons.prems show ?thesis by simp
  next
    case (Some f)
    obtain w r f1 where "call_all f rt es = ((w, r), f1)" by (metis prod.exhaust)
    with Some Cons show ?thesis
      by (cases r) (auto split: prod.split, metis snd_conv)
  qed
qed simp

lemma ready_push_event [intro]: "ready s \<Longrightarrow> ready (snd (push_event s rt e))"
  by (simp add: push_event_def ready_push_nodes)

section \<open>Composition\<close>

lemma push_nodes_append:
  "push_nodes (s @ t) rt es =
     (case push_nodes s rt es of
        ((w, Inl x), s1) \<Rightarrow> ((w, Inl x), s1 @ t)
      | ((w, Inr out), s1) \<Rightarrow>
          if out = [] \<and> s \<noteq> [] then ((w, Inr []), s1 @ t)
          else (case push_nodes t rt out of ((w2, r), t1) \<Rightarrow> ((w @ w2, r), s1 @ t1)))"
proof (induction s arbitrary: es)
  case Nil
  show ?case by (auto simp: ret_def split: prod.split)
next
  case (Cons n ns)
  show ?case
  proof (cases "on_event n")
    case None
    then show ?thesis by (simp add: throw_def)
  next
    case (Some f)
    obtain w r f1 where c: "call_all f rt es = ((w, r), f1)" by (metis prod.exhaust)
    show ?thesis
    proof (cases r)
      case (Inr out)
      with Some c Cons.IH [of out] show ?thesis
        by (cases "ns = []") (auto simp: ret_def split: prod.split sum.split)
    qed (use Some c in simp)
  qed
qed

text \<open>
  C2. \<open>>>\<close> composes: an event pushed into \<open>left >> right\<close> goes through \<open>left\<close>, and what comes out
  goes through \<open>right\<close>; an exception in \<open>left\<close> or an empty result leaves \<open>right\<close> untouched, and the
  actions happen in that order.
\<close>

theorem push_event_join:
  "push_event (join left right) rt e =
     (if left = [] then push_event right rt e
      else case push_event left rt e of
        ((w, Inl x), l1) \<Rightarrow> ((w, Inl x), join l1 right)
      | ((w, Inr out), l1) \<Rightarrow>
          if out = [] then ((w, Inr []), join l1 right)
          else (case push_nodes right rt out of ((w2, r), r1) \<Rightarrow> ((w @ w2, r), join l1 r1)))"
  by (auto simp: push_event_def join_def push_nodes_append split: prod.split sum.split)

lemma call_all_append:
  "call_all f rt (es1 @ es2) = ((w, Inr out), f2) \<longleftrightarrow>
     (\<exists>w1 out1 f1 w2 out2. call_all f rt es1 = ((w1, Inr out1), f1)
        \<and> call_all f1 rt es2 = ((w2, Inr out2), f2) \<and> w = w1 @ w2 \<and> out = out1 @ out2)"
proof (induction es1 arbitrary: f w out)
  case (Cons e es)
  obtain w0 r f0 where c: "call f rt e = ((w0, r), f0)" by (metis prod.exhaust)
  show ?case
    using Cons.IH [of f0] c
    by (cases r) (auto split: prod.splits sum.splits, blast+)
qed (simp add: ret_def)

lemma push_nodes_Cons_Inr:
  "push_nodes (n # ns) rt es = ((w, Inr out), s1) \<longleftrightarrow>
     (\<exists>f w1 mid f1. on_event n = Some f \<and> call_all f rt es = ((w1, Inr mid), f1)
        \<and> (if mid = [] then w = w1 \<and> out = [] \<and> s1 = n\<lparr>on_event := Some f1\<rparr> # ns
           else (\<exists>w2 ns1. push_nodes ns rt mid = ((w2, Inr out), ns1) \<and> w = w1 @ w2
                   \<and> s1 = n\<lparr>on_event := Some f1\<rparr> # ns1)))"
  by (cases "on_event n") (auto simp: throw_def split: prod.splits sum.splits if_splits)

lemma push_nodes_split:
  assumes "ready s" "push_nodes s rt (es1 @ es2) = ((w, Inr out), s2)"
  shows "\<exists>w1 out1 s1 w2 out2. push_nodes s rt es1 = ((w1, Inr out1), s1)
      \<and> push_nodes s1 rt es2 = ((w2, Inr out2), s2) \<and> out = out1 @ out2
      \<and> mset w = mset w1 + mset w2"
  using assms
proof (induction s arbitrary: es1 es2 w out s2)
  case (Cons n ns)
  from Cons.prems(2) obtain f wa mid f2 where
    f: "on_event n = Some f" "call_all f rt (es1 @ es2) = ((wa, Inr mid), f2)"
    and rest: "if mid = [] then w = wa \<and> out = [] \<and> s2 = n\<lparr>on_event := Some f2\<rparr> # ns
           else (\<exists>w2 ns1. push_nodes ns rt mid = ((w2, Inr out), ns1) \<and> w = wa @ w2
                   \<and> s2 = n\<lparr>on_event := Some f2\<rparr> # ns1)"
    unfolding push_nodes_Cons_Inr by blast
  from f(2) obtain w1 m1 f1 w2 m2 where
    c: "call_all f rt es1 = ((w1, Inr m1), f1)" "call_all f1 rt es2 = ((w2, Inr m2), f2)"
       "wa = w1 @ w2" "mid = m1 @ m2"
    unfolding call_all_append by blast
  let ?n1 = "n\<lparr>on_event := Some f1\<rparr>" and ?n2 = "n\<lparr>on_event := Some f2\<rparr>"
  consider "m1 = []" | "m1 \<noteq> []" "m2 = []" | "m1 \<noteq> []" "m2 \<noteq> []" by blast
  then show ?case
  proof cases
    case 1
    then have "push_nodes (n # ns) rt es1 = ((w1, Inr []), ?n1 # ns)"
      using f(1) c(1) by simp
    moreover obtain w3 where "push_nodes (?n1 # ns) rt es2 = ((w3, Inr out), s2)" "w = w1 @ w3"
      using 1 rest c(2-4) by (auto split: if_splits)
    ultimately show ?thesis by (intro exI conjI) auto
  next
    case 2
    then obtain w3 ns1 where r: "push_nodes ns rt m1 = ((w3, Inr out), ns1)" "w = wa @ w3"
        "s2 = ?n2 # ns1"
      using rest c(4) by auto
    then have "push_nodes (n # ns) rt es1 = ((w1 @ w3, Inr out), ?n1 # ns1)"
      using 2 f(1) c(1) by simp
    moreover have "push_nodes (?n1 # ns1) rt es2 = ((w2, Inr []), s2)"
      using 2 c(2) r(3) by simp
    ultimately show ?thesis using r(2) c(3) by (intro exI conjI) auto
  next
    case 3
    then obtain w3 ns2 where r: "push_nodes ns rt (m1 @ m2) = ((w3, Inr out), ns2)"
        "w = wa @ w3" "s2 = ?n2 # ns2"
      using rest c(4) by auto
    from Cons.IH [OF _ r(1)] Cons.prems(1) obtain w4 out1 ns1 w5 out2 where
      i: "push_nodes ns rt m1 = ((w4, Inr out1), ns1)"
         "push_nodes ns1 rt m2 = ((w5, Inr out2), ns2)"
         "out = out1 @ out2" "mset w3 = mset w4 + mset w5"
      by auto
    have "push_nodes (n # ns) rt es1 = ((w1 @ w4, Inr out1), ?n1 # ns1)"
      using 3 f(1) c(1) i(1) by simp
    moreover have "push_nodes (?n1 # ns1) rt es2 = ((w2 @ w5, Inr out2), s2)"
      using 3 c(2) i(2) r(3) by simp
    ultimately show ?thesis using i(3,4) r(2) c(3) by (intro exI conjI) auto
  qed
qed (simp add: ret_def)

text \<open>Pushing the events of a list one after the other, collecting what comes out.\<close>

fun push_each :: "streams_t \<Rightarrow> runtime \<Rightarrow> event list \<Rightarrow> (action, event list) eff \<times> streams_t" where
  "push_each s rt [] = (ret [], s)"
| "push_each s rt (e # es) =
     (case push_event s rt e of
        ((w, Inl x), s1) \<Rightarrow> ((w, Inl x), s1)
      | ((w, Inr out), s1) \<Rightarrow>
          (case push_each s1 rt es of
             ((w2, r), s2) \<Rightarrow> ((w @ w2, map_sum id (append out) r), s2)))"

lemma push_nodes_length: "length (snd (push_nodes s rt es)) = length s"
proof (induction s arbitrary: es)
  case (Cons n ns)
  then show ?case
    by (auto split: option.split prod.split sum.split) (metis snd_conv)+
qed simp

text \<open>
  C3. A stream may be run stage by stage or event by event: when no handler raises, sending a whole
  list of events through the first node, then what comes out through the second, and so on, leaves
  every node in the same state and yields the same events in the same order as pushing the events
  one at a time, and it performs the same actions up to their order.
\<close>

theorem stagewise_eq_eventwise:
  assumes "ready s" "s \<noteq> []" "push_nodes s rt es = ((w, Inr out), s2)"
  shows "\<exists>w2. push_each s rt es = ((w2, Inr out), s2) \<and> mset w2 = mset w"
  using assms
proof (induction es arbitrary: s w out)
  case Nil
  then show ?case
    by (cases s) (auto simp: ret_def throw_def split: option.splits)
next
  case (Cons e es)
  from push_nodes_split [of s rt "[e]" es w out s2] Cons.prems
  obtain w1 out1 s1 w2 out2 where
    h: "push_nodes s rt [e] = ((w1, Inr out1), s1)" "push_nodes s1 rt es = ((w2, Inr out2), s2)"
       "out = out1 @ out2" "mset w = mset w1 + mset w2"
    by auto
  have "ready s1" "s1 \<noteq> []"
    using ready_push_nodes [OF Cons.prems(1), of rt "[e]"] push_nodes_length [of s rt "[e]"]
      Cons.prems(2) h(1) by auto
  from Cons.IH [OF this h(2)] obtain w3
    where "push_each s1 rt es = ((w3, Inr out2), s2)" "mset w3 = mset w2" by blast
  with h Cons.prems(2) show ?case by (simp add: push_event_def)
qed

lemma call_closure [simp]: "call (closure f s) rt e = map_prod id (closure f) (f s rt e)"
  by simp

lemma call_pure_closure [simp]: "call (pure_closure g) rt e = (g rt e, pure_closure g)"
  by (simp add: pure_closure_def)

definition twice_then_log :: streams_t where
  "twice_then_log = join (create_stream (pure_closure (\<lambda>rt e. ret [e, e])))
                         (create_stream (pure_closure (\<lambda>rt e. emit [Log (host e)] [e])))"

theorem stagewise_eq_eventwise_witness:
  "\<exists>w2. push_each twice_then_log (rt_at 0) [set_host ''a'' empty_event, set_host ''b'' empty_event]
     = ((w2, Inr [set_host ''a'' empty_event, set_host ''a'' empty_event,
                  set_host ''b'' empty_event, set_host ''b'' empty_event]), twice_then_log)
   \<and> mset w2 = mset [Log ''a'', Log ''a'', Log ''b'', Log ''b'']"
  by (rule stagewise_eq_eventwise)
     (simp_all add: twice_then_log_def join_def create_stream_def ret_def emit_def)

section \<open>Streams of one closure\<close>

lemma run_append: "run f s (g @ h) = run f s g @ run f (run_state f s g) h"
  by (induction f s g rule: run.induct) (auto split: prod.split)

lemma run_state_append: "run_state f s (g @ h) = run_state f (run_state f s g) h"
  by (induction f s g rule: run_state.induct) auto

lemma length_run [simp]: "length (run f s h) = length h"
  by (induction f s h rule: run.induct) (auto split: prod.split)

lemma length_feed [simp]: "length (feed s h) = length h"
  by (induction s h rule: feed.induct) (auto split: prod.split)

lemma push_event_single:
  "push_event [\<lparr>on_init = g, on_event = Some f\<rparr>] rt e =
     (case call f rt e of (m, f1) \<Rightarrow> (m, [\<lparr>on_init = g, on_event = Some f1\<rparr>]))"
  by (auto simp: push_event_def ret_def split: prod.split sum.split)

lemma feed_closure: "feed [\<lparr>on_init = g, on_event = Some (closure f s)\<rparr>] h = run f s h"
  by (induction f s h rule: run.induct) (auto simp: push_event_single split: prod.split)

lemma feed_create_stream_simple:
  "feed (init_streams (create_stream_simple (\<lambda>_. closure f s))) h = run f s h"
  by (simp add: create_stream_simple_def feed_closure)

lemma feed_create_stream:
  "feed (init_streams (create_stream (pure_closure g))) h = map (\<lambda>(rt, e). g rt e) h"
proof -
  have "run (\<lambda>_ rt e. (g rt e, ())) () h = map (\<lambda>(rt, e). g rt e) h"
    by (induction h) auto
  then show ?thesis
    by (simp add: create_stream_def pure_closure_def feed_closure)
qed

section \<open>Streams that never raise\<close>

coinductive total_obj :: "obj \<Rightarrow> bool" where
  "(\<And>rt e. \<exists>w out f1. call f rt e = ((w, Inr out), f1) \<and> total_obj f1) \<Longrightarrow> total_obj f"

inductive_cases total_objE: "total_obj f"

lemma total_obj_call:
  "total_obj f \<Longrightarrow> \<exists>w out f1. call f rt e = ((w, Inr out), f1) \<and> total_obj f1"
  by (erule total_objE) blast

lemma total_closure:
  assumes "\<And>s rt e. I s \<Longrightarrow> \<exists>w out s1. f s rt e = ((w, Inr out), s1) \<and> I s1" "I s"
  shows "total_obj (closure f s)"
  using assms(2)
proof (coinduction arbitrary: s)
  case total_obj
  show ?case
  proof (rule exI, rule conjI [OF refl], intro allI)
    fix rt e
    from assms(1) [OF total_obj, of rt e]
    show "\<exists>w out f1. call (closure f s) rt e = ((w, Inr out), f1)
        \<and> ((\<exists>s. f1 = closure f s \<and> I s) \<or> total_obj f1)"
      by auto
  qed
qed

lemma total_call_all:
  "total_obj f \<Longrightarrow> \<exists>w out f1. call_all f rt es = ((w, Inr out), f1) \<and> total_obj f1"
proof (induction es arbitrary: f)
  case (Cons e es)
  from total_obj_call [OF Cons.prems] obtain w out f1
    where c: "call f rt e = ((w, Inr out), f1)" "total_obj f1" by blast
  from Cons.IH [OF c(2)] c show ?case by auto
qed (simp add: ret_def)

definition total_streams :: "streams_t \<Rightarrow> bool" where
  "total_streams s = list_all (\<lambda>n. case on_event n of None \<Rightarrow> False | Some f \<Rightarrow> total_obj f) s"

lemma total_push_nodes:
  "total_streams s \<Longrightarrow>
     \<exists>w out s1. push_nodes s rt es = ((w, Inr out), s1) \<and> total_streams s1"
proof (induction s arbitrary: es)
  case (Cons n ns)
  then obtain f where f: "on_event n = Some f" "total_obj f" "total_streams ns"
    by (auto simp: total_streams_def split: option.splits)
  from total_call_all [OF f(2), of rt es] obtain w out f1
    where c: "call_all f rt es = ((w, Inr out), f1)" "total_obj f1" by blast
  from Cons.IH [OF f(3), of out] obtain w2 out2 s2
    where "push_nodes ns rt out = ((w2, Inr out2), s2)" "total_streams s2" by blast
  with f c show ?case by (auto simp: total_streams_def)
qed (simp add: ret_def total_streams_def)

lemma total_push_event:
  "total_streams s \<Longrightarrow> \<exists>w out s1. push_event s rt e = ((w, Inr out), s1) \<and> total_streams s1"
  using total_push_nodes by (simp add: push_event_def ret_def total_streams_def)

lemma total_feed:
  assumes "total_streams s"
  shows "list_all (\<lambda>m. \<exists>out. returns m out) (feed s h)"
  using assms
proof (induction h arbitrary: s)
  case (Cons x h)
  obtain rt e where x: "x = (rt, e)" by force
  from total_push_event [OF Cons.prems, of rt e] obtain w out s1
    where "push_event s rt e = ((w, Inr out), s1)" "total_streams s1" by blast
  with Cons.IH show ?case by (auto simp: x returns_def)
qed simp

text \<open>The handlers a stream installs never raise, whatever they forward to.\<close>

definition total_nodes :: "streams_t \<Rightarrow> bool" where
  "total_nodes s = list_all (\<lambda>n. \<forall>f. total_obj (on_init n f)) s"

lemma total_init_streams: "total_nodes s \<Longrightarrow> total_streams (init_streams s)"
  by (induction s) (auto simp: total_nodes_def total_streams_def Let_def)

lemma total_nodes_join [simp]: "total_nodes (join s t) \<longleftrightarrow> total_nodes s \<and> total_nodes t"
  by (simp add: total_nodes_def join_def)

text \<open>
  C18. An initialised stream whose handlers never raise processes every history to the end: no call
  reaches an empty handler, whatever the length of the history and the number of nodes.
\<close>

theorem initialised_stream_total:
  assumes "total_nodes s"
  shows "list_all (\<lambda>m. \<exists>out. returns m out) (feed (init_streams s) h)"
  using assms by (intro total_feed total_init_streams)

lemma total_pure_closure: "(\<And>rt e. \<exists>w out. g rt e = (w, Inr out)) \<Longrightarrow> total_obj (pure_closure g)"
  unfolding pure_closure_def by (rule total_closure [where I = "\<lambda>_. True"]) auto

theorem initialised_stream_total_witness:
  "list_all (\<lambda>m. \<exists>out. returns m out)
     (feed (init_streams twice_then_log) [(rt_at 0, empty_event), (rt_at 1, empty_event)])"
  by (rule initialised_stream_total)
     (auto simp: total_nodes_def twice_then_log_def join_def create_stream_def ret_def emit_def
       intro!: total_pure_closure)

text \<open>
  A stream that was never initialised and whose first node keeps state raises
  \<open>std::bad_function_call\<close> on the first event and stays as it was.
\<close>

theorem uninitialised_stream_raises:
  "push_event (join (create_stream_simple fn) s) rt e =
     (throw Bad_function_call, join (create_stream_simple fn) s)
   \<and> push_event (join (create_stream_init fi) s) rt e =
     (throw Bad_function_call, join (create_stream_init fi) s)"
  by (simp add: push_event_def join_def create_stream_simple_def create_stream_init_def)

end
