(* ===== verification/Streams.thy ===== *)
theory Streams
  imports Stream_Infra
begin

text \<open>
  The stream constructors of src/streams/stream_functions.cpp that keep no window: filters, field
  writers, \<open>with\<close>, \<open>split\<close>, \<open>where\<close>, \<open>svec\<close>, \<open>counter\<close>, and the sinks that hand an event to the
  index or to an external service. A constructor whose name is an Isabelle keyword or the name of
  an event accessor carries the suffix \<open>_stream\<close>.
\<close>

section \<open>Filters\<close>

definition filter_stream :: "(runtime \<Rightarrow> event \<Rightarrow> bool) \<Rightarrow> streams_t" where
  "filter_stream p = create_stream (pure_closure (\<lambda>rt e. if p rt e then ret [e] else ret []))"

definition where_stream :: "predicate_t \<Rightarrow> streams_t" where
  "where_stream p =
     create_stream (pure_closure (\<lambda>rt e.
       bind_eff (lift_exn (p rt e)) (\<lambda>b. if b then ret [e] else ret [])))"

definition prn :: streams_t where
  "prn = create_stream (pure_closure (\<lambda>rt e. emit [Log (''prn() '' @ json_str rt e)] [e]))"

definition prn_prefix :: "string \<Rightarrow> streams_t" where
  "prn_prefix prefix =
     create_stream (pure_closure (\<lambda>rt e. emit [Log (''prn() '' @ prefix @ json_str rt e)] [e]))"

definition null_stream :: streams_t where
  "null_stream = create_stream (pure_closure (\<lambda>rt e. ret []))"

definition service_stream :: "string \<Rightarrow> streams_t" where
  "service_stream s = where_stream (p_match ''service'' s)"

definition service_any :: "string list \<Rightarrow> streams_t" where
  "service_any ss = where_stream (p_match_any ''service'' ss)"

definition service_like :: "string \<Rightarrow> streams_t" where
  "service_like pattern = where_stream (p_match_like ''service'' pattern)"

definition service_like_any :: "string list \<Rightarrow> streams_t" where
  "service_like_any patterns = where_stream (p_match_like_any ''service'' patterns)"

definition has_attribute :: "string \<Rightarrow> streams_t" where
  "has_attribute a = where_stream (\<lambda>rt e. Inr (has_attr e a))"

definition state_stream :: "string \<Rightarrow> streams_t" where
  "state_stream s = where_stream (p_match ''state'' s)"

definition state_any :: "string list \<Rightarrow> streams_t" where
  "state_any states = filter_stream (\<lambda>rt e. state e \<in> set states)"

definition tagged_any_stream :: "string list \<Rightarrow> streams_t" where
  "tagged_any_stream tags = filter_stream (\<lambda>rt e. tagged_any e tags)"

definition tagged_all_stream :: "string list \<Rightarrow> streams_t" where
  "tagged_all_stream tags = filter_stream (\<lambda>rt e. tagged_all e tags)"

definition tagged :: "string \<Rightarrow> streams_t" where
  "tagged tag = tagged_all_stream [tag]"

definition above_stream :: "fp \<Rightarrow> streams_t" where
  "above_stream m = filter_stream (\<lambda>rt e. above e m)"

definition under_stream :: "fp \<Rightarrow> streams_t" where
  "under_stream m = filter_stream (\<lambda>rt e. under e m)"

definition within_stream :: "fp \<Rightarrow> fp \<Rightarrow> streams_t" where
  "within_stream a b = filter_stream (\<lambda>rt e. above_eq e a \<and> under_eq e b)"

definition without_stream :: "fp \<Rightarrow> fp \<Rightarrow> streams_t" where
  "without_stream a b = filter_stream (\<lambda>rt e. under e a \<or> above e b)"

definition expired_stream :: streams_t where
  "expired_stream = filter_stream (\<lambda>rt e. expired rt e)"

text \<open>The body of \<open>not_expired\<close> is the body of \<open>expired\<close>.\<close>

definition not_expired :: streams_t where
  "not_expired = filter_stream (\<lambda>rt e. expired rt e)"

section \<open>Changing the event\<close>

text \<open>\<open>smap\<close> and the macro \<open>WITH\<close>: a copy of the event, changed, is forwarded.\<close>

definition smap :: "(event \<Rightarrow> event) \<Rightarrow> streams_t" where
  "smap f = create_stream (pure_closure (\<lambda>rt e. ret [f e]))"

definition set_service_stream :: "string \<Rightarrow> streams_t" where
  "set_service_stream s = smap (set_service s)"

definition set_state_stream :: "string \<Rightarrow> streams_t" where
  "set_state_stream s = smap (set_state s)"

definition set_host_stream :: "string \<Rightarrow> streams_t" where
  "set_host_stream h = smap (set_host h)"

definition set_metric_stream :: "fp \<Rightarrow> streams_t" where
  "set_metric_stream m = smap (set_metric m)"

definition set_description_stream :: "string \<Rightarrow> streams_t" where
  "set_description_stream d = smap (set_description d)"

definition set_ttl_stream :: "fp \<Rightarrow> streams_t" where
  "set_ttl_stream t = smap (set_ttl t)"

definition default_service :: "string \<Rightarrow> streams_t" where
  "default_service s = smap (\<lambda>e. if has_service e then e else set_service s e)"

definition default_state :: "string \<Rightarrow> streams_t" where
  "default_state s = smap (\<lambda>e. if has_state e then e else set_state s e)"

definition default_host :: "string \<Rightarrow> streams_t" where
  "default_host h = smap (\<lambda>e. if has_host e then e else set_host h e)"

definition default_metric :: "fp \<Rightarrow> streams_t" where
  "default_metric m = smap (\<lambda>e. if has_metric e then e else set_metric m e)"

definition default_description :: "string \<Rightarrow> streams_t" where
  "default_description d = smap (\<lambda>e. if has_description e then e else set_description d e)"

definition default_ttl :: "fp \<Rightarrow> streams_t" where
  "default_ttl t = smap (\<lambda>e. if has_ttl e then e else set_ttl t e)"

text \<open>\<open>with_changes_t\<close> is a \<open>std::map\<close>: the list holds its entries in key order.\<close>

type_synonym with_changes_t = "(string \<times> change_value) list"

definition with_replace :: "with_changes_t \<Rightarrow> bool \<Rightarrow> streams_t" where
  "with_replace changes replace =
     smap (\<lambda>e. foldl (\<lambda>ne (k, v). set_event_value ne k v replace) e changes)"

definition with_stream :: "with_changes_t \<Rightarrow> streams_t" where
  "with_stream changes = with_replace changes True"

definition default_to :: "with_changes_t \<Rightarrow> streams_t" where
  "default_to changes = with_replace changes False"

definition scale :: "fp \<Rightarrow> streams_t" where
  "scale s = smap (\<lambda>e. set_metric (fp_mul s (metric e)) e)"

definition tag_stream :: "string list \<Rightarrow> streams_t" where
  "tag_stream tags = smap (\<lambda>e. foldl (\<lambda>ne t. add_tag t ne) e tags)"

section \<open>Branching\<close>

text \<open>
  \<open>split\<close> and \<open>where\<close> with an else branch push into the streams they captured. Those are never
  initialised, so a nested node works only if it has a handler from its construction.
\<close>

type_synonym split_clauses_t = "(predicate_t \<times> streams_t) list"

fun split_push :: "split_clauses_t \<Rightarrow> streams_t \<Rightarrow> runtime \<Rightarrow> event
    \<Rightarrow> (action, event list) eff \<times> split_clauses_t \<times> streams_t" where
  "split_push [] d rt e =
     (if d \<noteq> [] then (case push_event d rt e of (m, d1) \<Rightarrow> (m, [], d1))
      else (ret [e], [], d))"
| "split_push ((p, s) # cs) d rt e =
     (case p rt e of
        Inl x \<Rightarrow> (throw x, (p, s) # cs, d)
      | Inr True \<Rightarrow> (case push_event s rt e of (m, s1) \<Rightarrow> (m, (p, s1) # cs, d))
      | Inr False \<Rightarrow> (case split_push cs d rt e of (m, cs1, d1) \<Rightarrow> (m, (p, s) # cs1, d1)))"

definition split_step :: "(split_clauses_t \<times> streams_t) step" where
  "split_step st rt e = split_push (fst st) (snd st) rt e"

definition split_default :: "split_clauses_t \<Rightarrow> streams_t \<Rightarrow> streams_t" where
  "split_default clauses d = create_stream (closure split_step (clauses, d))"

definition split_stream :: "split_clauses_t \<Rightarrow> streams_t" where
  "split_stream clauses = split_default clauses []"

definition where_else_step :: "predicate_t \<Rightarrow> streams_t step" where
  "where_else_step p els rt e =
     (case p rt e of
        Inl x \<Rightarrow> (throw x, els)
      | Inr True \<Rightarrow> (ret [e], els)
      | Inr False \<Rightarrow> push_event els rt e)"

definition where_else :: "predicate_t \<Rightarrow> streams_t \<Rightarrow> streams_t" where
  "where_else p els = create_stream (closure (where_else_step p) els)"

text \<open>\<open>svec\<close> initialises the streams it holds and pushes every event into each of them.\<close>

fun svec_push :: "streams_t list \<Rightarrow> runtime \<Rightarrow> event
    \<Rightarrow> (action, event list) eff \<times> streams_t list" where
  "svec_push [] rt e = (ret [], [])"
| "svec_push (s # ss) rt e =
     (case push_event s rt e of
        ((w, Inl x), s1) \<Rightarrow> ((w, Inl x), s1 # ss)
      | ((w, Inr out), s1) \<Rightarrow>
          (case svec_push ss rt e of
             ((w2, Inl x), ss1) \<Rightarrow> ((w @ w2, Inl x), s1 # ss1)
           | ((w2, Inr rest), ss1) \<Rightarrow> ((w @ w2, Inr (out @ rest)), s1 # ss1)))"

definition svec_step :: "streams_t list step" where
  "svec_step ss rt e = (if ss \<noteq> [] then svec_push ss rt e else (ret [e], []))"

definition svec :: "streams_t list \<Rightarrow> streams_t" where
  "svec ss = create_stream_simple (\<lambda>_. closure svec_step (map init_streams ss))"

definition sdo :: "streams_t list \<Rightarrow> streams_t" where
  "sdo ss = svec ss"

section \<open>Counting\<close>

text \<open>\<open>std::atomic<unsigned int>\<close>: the count wraps.\<close>

definition counter_step :: "32 word step" where
  "counter_step c rt e =
     (if has_metric e then (ret [set_metric_sint64 (uint (c + 1)) (clear_metric e)], c + 1)
      else (ret [e], c))"

definition counter :: streams_t where
  "counter = create_stream_simple (\<lambda>_. closure counter_step 0)"

section \<open>Sinks\<close>

definition sink :: "(event \<Rightarrow> action) \<Rightarrow> streams_t" where
  "sink a = create_stream (pure_closure (\<lambda>rt e. emit [a e] []))"

definition send_index :: streams_t where
  "send_index = create_stream (pure_closure (\<lambda>rt e.
     if \<not> expired rt e then emit [IndexAdd e] [] else ret []))"

definition send_graphite :: "string \<Rightarrow> int \<Rightarrow> streams_t" where
  "send_graphite h port = sink (Graphite h port)"

definition forward_stream :: "string \<Rightarrow> int \<Rightarrow> streams_t" where
  "forward_stream h port = sink (Forward h port)"

definition email_many :: "string \<Rightarrow> string \<Rightarrow> string list \<Rightarrow> streams_t" where
  "email_many server from_addr to_addrs = sink (Email server from_addr to_addrs)"

definition email_one :: "string \<Rightarrow> string \<Rightarrow> string \<Rightarrow> streams_t" where
  "email_one server from_addr to_addr = email_many server from_addr [to_addr]"

definition pagerduty_resolve :: "string \<Rightarrow> streams_t" where
  "pagerduty_resolve key = sink (PagerDutyResolve key)"

definition pagerduty_acknowledge :: "string \<Rightarrow> streams_t" where
  "pagerduty_acknowledge key = sink (PagerDutyAcknowledge key)"

definition pagerduty_trigger :: "string \<Rightarrow> streams_t" where
  "pagerduty_trigger key = sink (PagerDutyTrigger key)"

lemma fst_push_closure:
  "fst (push_event [\<lparr>on_init = g, on_event = Some (closure f s)\<rparr>] rt e) = fst (f s rt e)"
  by (simp add: push_event_single split: prod.split) (metis fst_conv fst_map_prod id_apply)

lemma fst_push_pure:
  "fst (push_event [\<lparr>on_init = g, on_event = Some (pure_closure k)\<rparr>] rt e) = k rt e"
  by (simp add: push_event_single)

section \<open>Branches are independent\<close>

definition outputs :: "('x, 'a list) eff \<Rightarrow> 'a list" where
  "outputs m = (case snd m of Inl _ \<Rightarrow> [] | Inr out \<Rightarrow> out)"

lemma outputs_simps [simp]:
  "outputs (w, Inr out) = out" "outputs (w, Inl x) = []" "outputs (ret es) = es"
  "outputs (emit w es) = es"
  by (simp_all add: outputs_def ret_def emit_def)

lemma svec_push_total:
  "list_all total_streams ss \<Longrightarrow>
     svec_push ss rt e =
       ((concat (map (\<lambda>s. actions (fst (push_event s rt e))) ss),
         Inr (concat (map (\<lambda>s. outputs (fst (push_event s rt e))) ss))),
        map (\<lambda>s. snd (push_event s rt e)) ss)"
proof (induction ss)
  case (Cons s ss)
  then obtain w out s1 where "push_event s rt e = ((w, Inr out), s1)"
    using total_push_event [of s rt e] by auto
  with Cons show ?case by (simp add: actions_def)
qed (simp add: ret_def)

lemma total_snd_push_event: "total_streams s \<Longrightarrow> total_streams (snd (push_event s rt e))"
  using total_push_event [of s rt e] by auto

lemma run_svec_total:
  assumes "list_all total_streams ss" "ss \<noteq> []" "i < length h"
  shows "run svec_step ss h ! i =
     (concat (map (\<lambda>s. actions (feed s h ! i)) ss), Inr (concat (map (\<lambda>s. outputs (feed s h ! i)) ss)))"
  using assms
proof (induction h arbitrary: ss i)
  case (Cons x h)
  obtain rt e where x: "x = (rt, e)" by force
  let ?ss = "map (\<lambda>s. snd (push_event s rt e)) ss"
  have step: "svec_step ss rt e =
       ((concat (map (\<lambda>s. actions (fst (push_event s rt e))) ss),
         Inr (concat (map (\<lambda>s. outputs (fst (push_event s rt e))) ss))), ?ss)"
    using Cons.prems by (simp add: svec_step_def svec_push_total)
  have f: "feed s (x # h) = fst (push_event s rt e) # feed (snd (push_event s rt e)) h" for s
    by (simp add: x split: prod.split)
  have "list_all total_streams ?ss"
    using Cons.prems(1) by (auto simp: list_all_iff total_snd_push_event)
  from Cons.IH [OF this] Cons.prems(2,3) show ?case
    by (cases i) (simp_all add: f, simp_all add: x step comp_def)
qed simp


section \<open>Which constructors never raise\<close>

lemma total_filter_stream [simp]: "total_nodes (filter_stream p)"
  by (auto simp: total_nodes_def filter_stream_def create_stream_def ret_def
      intro!: total_pure_closure)

lemma total_smap [simp]: "total_nodes (smap f)"
  by (auto simp: total_nodes_def smap_def create_stream_def ret_def intro!: total_pure_closure)

lemma total_sink [simp]: "total_nodes (sink a)"
  by (auto simp: total_nodes_def sink_def create_stream_def emit_def intro!: total_pure_closure)

lemma total_where_stream:
  "(\<And>rt e. \<exists>b. p rt e = Inr b) \<Longrightarrow> total_nodes (where_stream p)"
  by (auto simp: total_nodes_def where_stream_def create_stream_def ret_def bind_eff_def
      lift_exn_def intro!: total_pure_closure split: sum.split) (metis sum.distinct(1))

lemma total_counter [simp]: "total_nodes counter"
  by (auto simp: total_nodes_def counter_def create_stream_simple_def counter_step_def ret_def
      intro!: total_closure [where I = "\<lambda>_. True"])

lemma total_svec:
  assumes "list_all total_nodes ss"
  shows "total_nodes (svec ss)"
proof -
  have "total_obj (closure svec_step (map init_streams ss))"
  proof (rule total_closure [where I = "list_all total_streams"])
    fix ss rt e assume "list_all total_streams ss"
    then show "\<exists>w out s1. svec_step ss rt e = ((w, Inr out), s1) \<and> list_all total_streams s1"
      by (auto simp: svec_step_def svec_push_total ret_def list_all_iff total_snd_push_event)
  qed (use assms in \<open>auto simp: list_all_iff total_init_streams\<close>)
  then show ?thesis by (simp add: total_nodes_def svec_def create_stream_simple_def)
qed

definition ev_m :: "int \<Rightarrow> event" where
  "ev_m i = set_metric (Fin (of_int i)) empty_event"


section \<open>Counter\<close>

definition metric_count :: "history \<Rightarrow> nat" where
  "metric_count h = length (filter (\<lambda>(rt, e). has_metric e) h)"

lemma run_counter_state: "run_state counter_step c h = c + of_nat (metric_count h)"
  by (induction counter_step c h rule: run_state.induct)
     (auto simp: counter_step_def metric_count_def)

text \<open>
  \<open>counter\<close> numbers the events that carry a metric: the \<open>i\<close>-th event of a history, if it has a
  metric, is forwarded with the number of metric-carrying events up to and including it, modulo
  \<open>2^32\<close>, as its integer metric; an event without a metric passes unchanged.
\<close>

theorem counter_numbers:
  assumes "i < length h" "h ! i = (rt, e)"
  shows "feed (init_streams counter) h ! i =
     ret [if has_metric e
          then set_metric_sint64 (int (metric_count (take (Suc i) h) mod 2 ^ 32)) (clear_metric e)
          else e]"
proof -
  have split: "h = take i h @ (rt, e) # drop (Suc i) h"
    using assms by (metis id_take_nth_drop)
  have "run counter_step 0 h ! i = fst (counter_step (of_nat (metric_count (take i h))) rt e)"
    by (subst split) (simp add: run_append nth_append run_counter_state assms(1)
        min_absorb2 less_imp_le split: prod.split)
  moreover have "has_metric e \<Longrightarrow> metric_count (take (Suc i) h) = Suc (metric_count (take i h))"
    using assms by (simp add: metric_count_def take_Suc_conv_app_nth)
  moreover have "uint (of_nat n + 1 :: 32 word) = int (Suc n mod 2 ^ 32)" for n
  proof -
    have "(of_nat n + 1 :: 32 word) = of_nat (Suc n)" by simp
    also have "uint \<dots> = int (Suc n mod 2 ^ 32)"
      by (simp only: unsigned_of_nat take_bit_eq_mod) simp
    finally show ?thesis .
  qed
  ultimately show ?thesis
    by (simp add: counter_def feed_create_stream_simple counter_step_def)
qed

theorem counter_numbers_witness:
  "feed (init_streams counter) [(rt_at 0, ev_m 7), (rt_at 0, empty_event), (rt_at 0, ev_m 9)] ! 2 =
     ret [set_metric_sint64 2 (clear_metric (ev_m 9))]"
proof -
  have "\<not> has_metric empty_event" "has_metric (ev_m i)" for i
    by (simp_all add: event_defs ev_m_def)
  then show ?thesis
    using counter_numbers
      [of 2 "[(rt_at 0, ev_m 7), (rt_at 0, empty_event), (rt_at 0, ev_m 9)]" "rt_at 0" "ev_m 9"]
    by (simp add: metric_count_def del: feed.simps)
qed

section \<open>Split\<close>

definition first_clause :: "split_clauses_t \<Rightarrow> runtime \<Rightarrow> event \<Rightarrow> streams_t option" where
  "first_clause cs rt e = map_option snd (find (\<lambda>(p, s). p rt e = Inr True) cs)"

lemma split_push_first:
  assumes "list_all (\<lambda>(p, s). \<not> isl (p rt e)) cs"
  shows "fst (split_push cs d rt e) =
     (case first_clause cs rt e of
        Some s \<Rightarrow> fst (push_event s rt e)
      | None \<Rightarrow> if d = [] then ret [e] else fst (push_event d rt e))"
  using assms
proof (induction cs)
  case (Cons c cs)
  obtain p s where c: "c = (p, s)" by force
  from Cons.prems obtain b where "p rt e = Inr b" by (cases "p rt e") (auto simp: c)
  with Cons show ?case
    by (cases b) (auto simp: c first_clause_def split: prod.split)
qed (simp add: first_clause_def split: prod.split)

text \<open>
  \<open>split\<close> sends an event to the stream of the first clause whose predicate holds, and only
  there; when no predicate holds it goes to the default stream, or passes unchanged if there is
  none.
\<close>

theorem split_first_match:
  assumes "list_all (\<lambda>(p, s). \<not> isl (p rt e)) cs"
  shows "fst (push_event (init_streams (split_default cs d)) rt e) =
     (case first_clause cs rt e of
        Some s \<Rightarrow> fst (push_event s rt e)
      | None \<Rightarrow> if d = [] then ret [e] else fst (push_event d rt e))"
  using split_push_first [OF assms]
  by (simp add: split_default_def create_stream_def fst_push_closure split_step_def)

theorem split_first_match_witness:
  "fst (push_event (init_streams (split_default
       [(p_state ''ok'', null_stream), (p_above (Fin 1), set_state_stream ''critical'')] []))
     (rt_at 0) (ev_m 3)) = ret [set_state ''critical'' (ev_m 3)]"
proof -
  have "fst (push_event (set_state_stream ''critical'') (rt_at 0) (ev_m 3))
      = ret [set_state ''critical'' (ev_m 3)]"
    by (simp add: set_state_stream_def smap_def create_stream_def fst_push_pure)
  moreover have "state (ev_m 3) \<noteq> ''ok''" "above (ev_m 3) (Fin 1)"
    by (simp_all add: ev_m_def above_def fp_gt_def) (simp add: event_defs)
  ultimately show ?thesis
    by (subst split_first_match)
       (simp_all add: p_state_def p_above_def first_clause_def)
qed

text \<open>
  \<open>within\<close> and \<open>without\<close> with the same bounds partition the events: of an event whose metric and
  both bounds are numbers, exactly one of the two streams forwards it.
\<close>

theorem within_without_partition:
  assumes "metric e \<noteq> NaN" "a \<noteq> NaN" "b \<noteq> NaN"
  shows "\<exists>keep. fst (push_event (init_streams (within_stream a b)) rt e) = ret (if keep then [e] else [])
     \<and> fst (push_event (init_streams (without_stream a b)) rt e) = ret (if keep then [] else [e])"
  using assms
  by (intro exI [of _ "above_eq e a \<and> under_eq e b"])
     (simp add: within_stream_def without_stream_def filter_stream_def create_stream_def
      fst_push_pure above_eq_def under_eq_def above_def under_def fp_ge_def fp_gt_def
      fp_le_iff_not_lt)

theorem within_without_partition_witness:
  "\<exists>keep. fst (push_event (init_streams (within_stream (Fin 1) (Fin 5))) (rt_at 0) (ev_m 3))
        = ret (if keep then [ev_m 3] else [])
     \<and> fst (push_event (init_streams (without_stream (Fin 1) (Fin 5))) (rt_at 0) (ev_m 3))
        = ret (if keep then [] else [ev_m 3])"
  by (rule within_without_partition) (simp_all add: ev_m_def)

end
