(* ===== verification/Priority_Queue.thy ===== *)
theory Priority_Queue
  imports Prelude
begin

text \<open>
  \<open>std::priority_queue\<close> ordered by an integer key, the smallest key on top. The time windows, the
  mock scheduler and the timers of the event loop all use it in one way: push, and pop from the
  top while a condition on the top holds. The locale states what a client may rely on; the standard
  does not say which of several elements with the same key comes first, and no law does either.
\<close>

locale priority_queue =
  fixes key :: "'a \<Rightarrow> int"
    and empty :: 'q
    and is_empty :: "'q \<Rightarrow> bool"
    and push :: "'a \<Rightarrow> 'q \<Rightarrow> 'q"
    and top_of :: "'q \<Rightarrow> 'a"
    and pop :: "'q \<Rightarrow> 'q"
    and elems :: "'q \<Rightarrow> 'a multiset"
    and inv :: "'q \<Rightarrow> bool"
  assumes inv_empty: "inv empty" "elems empty = {#}"
    and is_empty_iff: "inv q \<Longrightarrow> is_empty q \<longleftrightarrow> elems q = {#}"
    and push: "inv q \<Longrightarrow> inv (push x q)" "inv q \<Longrightarrow> elems (push x q) = add_mset x (elems q)"
    and top_in: "inv q \<Longrightarrow> elems q \<noteq> {#} \<Longrightarrow> top_of q \<in># elems q"
    and top_least: "inv q \<Longrightarrow> x \<in># elems q \<Longrightarrow> key (top_of q) \<le> key x"
    and pop: "inv q \<Longrightarrow> elems q \<noteq> {#} \<Longrightarrow> inv (pop q)"
      "inv q \<Longrightarrow> elems q \<noteq> {#} \<Longrightarrow> elems (pop q) = elems q - {#top_of q#}"

text \<open>
  A loop \<open>while (!q.empty() && c(q.top())) { out.push_back(q.top()); q.pop(); }\<close>, for a condition
  that holds of every element below one it holds of.
\<close>

locale pq_loop = priority_queue +
  fixes loop :: "('a \<Rightarrow> bool) \<Rightarrow> 'q \<Rightarrow> 'a list \<times> 'q"
  assumes loop_eq: "inv q \<Longrightarrow>
    loop c q = (if is_empty q \<or> \<not> c (top_of q) then ([], q)
                else (case loop c (pop q) of (xs, r) \<Rightarrow> (top_of q # xs, r)))"
begin

lemma loop_correct:
  assumes "inv q" "\<And>x y. c x \<Longrightarrow> key y \<le> key x \<Longrightarrow> c y" "loop c q = (xs, r)"
  shows "inv r \<and> mset xs = filter_mset c (elems q) \<and> elems r = filter_mset (\<lambda>x. \<not> c x) (elems q)
    \<and> sorted (map key xs)"
  using assms(1,3)
proof (induction "size (elems q)" arbitrary: q xs)
  case 0
  then show ?case using loop_eq [of q c] is_empty_iff [of q] by simp
next
  case (Suc n)
  then have ne: "elems q \<noteq> {#}" by auto
  let ?t = "top_of q"
  show ?case
  proof (cases "c ?t")
    case False
    have "\<not> c x" if "x \<in># elems q" for x
      using False assms(2) top_least [OF Suc.prems(1) that] by blast
    then have "filter_mset c (elems q) = {#}" "filter_mset (\<lambda>x. \<not> c x) (elems q) = elems q"
      by (auto simp: multiset_eq_iff count_eq_zero_iff)
    with False Suc.prems loop_eq [of q c] show ?thesis by auto
  next
    case True
    obtain ys s where p: "loop c (pop q) = (ys, s)" by fastforce
    with True Suc.prems loop_eq [of q c] is_empty_iff [of q] ne
    have eq: "xs = ?t # ys" "r = s" by auto
    have e: "elems q = add_mset ?t (elems (pop q))"
      using Suc.prems(1) ne by (simp add: pop(2) top_in)
    with Suc.hyps(2) have "n = size (elems (pop q))" by simp
    from Suc.hyps(1) [OF this pop(1) [OF Suc.prems(1) ne], of ys] p eq
    have IH: "inv r" "mset ys = filter_mset c (elems (pop q))"
      "elems r = filter_mset (\<lambda>x. \<not> c x) (elems (pop q))" "sorted (map key ys)" by auto
    have "key ?t \<le> key y" if "y \<in> set ys" for y
    proof -
      from that have "y \<in># mset ys" by simp
      then have "y \<in># elems (pop q)" unfolding IH(2) by simp
      then show ?thesis using top_least [OF Suc.prems(1)] e by simp
    qed
    with IH True e eq show ?thesis by simp
  qed
qed

lemma drain_all:
  assumes "inv q" "loop (\<lambda>_. True) q = (xs, r)"
  shows "mset xs = elems q" "sorted (map key xs)"
  using loop_correct [OF assms(1) _ assms(2)] by auto

end

section \<open>The queue of the model\<close>

text \<open>A list sorted by key; elements with the same key stay in the order they were pushed.\<close>

type_synonym 'a pq = "'a list"

definition pq_push :: "('a \<Rightarrow> int) \<Rightarrow> 'a \<Rightarrow> 'a pq \<Rightarrow> 'a pq" where
  "pq_push key x q = filter (\<lambda>y. key y \<le> key x) q @ [x] @ filter (\<lambda>y. \<not> key y \<le> key x) q"

definition pq_empty :: "'a pq \<Rightarrow> bool" where
  "pq_empty q \<longleftrightarrow> q = []"

definition pq_top :: "'a pq \<Rightarrow> 'a" where
  "pq_top q = hd q"

definition pq_pop :: "'a pq \<Rightarrow> 'a pq" where
  "pq_pop q = tl q"

function pop_while :: "('a \<Rightarrow> bool) \<Rightarrow> 'a pq \<Rightarrow> 'a list \<times> 'a pq" where
  "pop_while c q =
     (if pq_empty q \<or> \<not> c (pq_top q) then ([], q)
      else (case pop_while c (pq_pop q) of (xs, r) \<Rightarrow> (pq_top q # xs, r)))"
  by pat_completeness auto
termination
  by (relation "measure (\<lambda>(c, q). length q)") (auto simp: pq_empty_def pq_pop_def)

declare pop_while.simps [simp del]

definition pq_inv :: "('a \<Rightarrow> int) \<Rightarrow> 'a pq \<Rightarrow> bool" where
  "pq_inv key q = sorted (map key q)"

lemma pq_inv_push: "pq_inv key q \<Longrightarrow> pq_inv key (pq_push key x q)"
  by (auto simp: pq_inv_def pq_push_def sorted_append sorted_filter)

lemma mset_pq_push: "mset (pq_push key x q) = add_mset x (mset q)"
  by (simp add: pq_push_def)

lemma set_pq_push: "set (pq_push key x q) = insert x (set q)"
  by (auto simp: pq_push_def)

interpretation pq: pq_loop key "[]" pq_empty "pq_push key" pq_top pq_pop mset "pq_inv key"
  pop_while for key :: "'a \<Rightarrow> int"
proof unfold_locales
  fix q and x y :: 'a and c
  show "pq_inv key []" "mset ([] :: 'a pq) = {#}" by (simp_all add: pq_inv_def)
  show "pq_empty q \<longleftrightarrow> mset q = {#}" for q :: "'a pq" by (simp add: pq_empty_def)
  assume inv: "pq_inv key q"
  show "pq_inv key (pq_push key x q)" using inv by (rule pq_inv_push)
  show "mset (pq_push key x q) = add_mset x (mset q)" by (rule mset_pq_push)
  show "key (pq_top q) \<le> key x" if "x \<in># mset q"
    using that inv by (cases q) (auto simp: pq_inv_def pq_top_def)
  show "pop_while c q = (if pq_empty q \<or> \<not> c (pq_top q) then ([], q)
      else (case pop_while c (pq_pop q) of (xs, r) \<Rightarrow> (pq_top q # xs, r)))"
    by (rule pop_while.simps)
  assume "mset q \<noteq> {#}"
  then show "pq_top q \<in># mset q" "pq_inv key (pq_pop q)" "mset (pq_pop q) = mset q - {#pq_top q#}"
    using inv by (cases q; auto simp: pq_inv_def pq_top_def pq_pop_def)+
qed

lemma pop_while_eq: "pop_while c q = (takeWhile c q, dropWhile c q)"
proof (induction q)
  case (Cons x q)
  then show ?case
    by (subst pop_while.simps) (simp add: pq_empty_def pq_top_def pq_pop_def)
qed (simp add: pop_while.simps pq_empty_def)

end
