(* ===== verification/Streams_Lock.thy ===== *)
theory Streams_Lock
  imports Streams Priority_Queue
begin

text \<open>
  src/streams/stream_functions_lock.cpp, the streams that keep state: \<open>by\<close>, \<open>coalesce\<close>, \<open>project\<close>,
  \<open>changed_state\<close>, the four windows, \<open>stable\<close>, \<open>throttle\<close> and \<open>ddt\<close>. The state a closure shares
  through a pointer is the record of the same name; the body of the closure is the step function.
  The fold of a window runs after the state is updated, so an exception it raises leaves the new
  state in place.

  \<open>time_t\<close> and \<open>int64_t\<close> are unbounded integers here: a sum that leaves 64 bits is undefined in
  C++ and no theorem relies on one.
\<close>

definition fold_one :: "fold_fn_t \<Rightarrow> event list \<Rightarrow> (action, event list) eff" where
  "fold_one f es = bind_eff (lift_exn (f es)) (\<lambda>r. ret [r])"

section \<open>by\<close>

type_synonym by_t = "(string, streams_t) um"

definition by_key :: "string list \<Rightarrow> event \<Rightarrow> string" where
  "by_key keys e = concat (map (\<lambda>k. value_to_str e k @ '' '') keys)"

definition by_step :: "string list \<Rightarrow> streams_t \<Rightarrow> by_t step" where
  "by_step keys stream m rt e =
     (if keys = [] then (ret [], m)
      else let key = by_key keys e;
               s0 = (case map_of m key of None \<Rightarrow> [] | Some s \<Rightarrow> s);
               s = (if s0 = [] then init_streams stream else s0)
           in case push_event s rt e of (r, s1) \<Rightarrow> (r, um_set m key s1))"

definition by_lock :: "string list \<Rightarrow> streams_t \<Rightarrow> streams_t" where
  "by_lock keys stream = create_stream_simple (\<lambda>_. closure (by_step keys stream) [])"

type_synonym by_fwd_t = "(string, fwd) um"

definition by_fwd_step :: "string list \<Rightarrow> fwd \<Rightarrow> by_fwd_t step" where
  "by_fwd_step keys fwd_stream m rt e =
     (if keys = [] then (ret [], m)
      else let key = by_key keys e;
               f = (case map_of m key of None \<Rightarrow> fwd_stream | Some f \<Rightarrow> f)
           in case fpush f rt [e] of
                (r, f1) \<Rightarrow> (bind_eff r (\<lambda>_. ret []), um_set m key f1))"

definition by_fwd_lock :: "string list \<Rightarrow> streams_t" where
  "by_fwd_lock keys = create_stream_init (\<lambda>fwd_stream. closure (by_fwd_step keys fwd_stream) [])"

section \<open>coalesce\<close>

type_synonym coalesce_events_t = "(string, event) um"

definition coalesce_key :: "event \<Rightarrow> string" where
  "coalesce_key e = host e @ '' '' @ service e"

definition fold_groups :: "fold_fn_t \<Rightarrow> event list \<Rightarrow> event list \<Rightarrow> (action, event list) eff" where
  "fold_groups f expired_events events =
     bind_eff (if expired_events \<noteq> [] then fold_one f expired_events else ret []) (\<lambda>a.
     bind_eff (if events \<noteq> [] then fold_one f events else ret []) (\<lambda>b.
     ret (a @ b)))"

definition coalesce_step :: "fold_fn_t \<Rightarrow> coalesce_events_t step" where
  "coalesce_step f m rt e =
     (let m1 = um_set m (coalesce_key e) e;
          visited = um_iter (um_order rt) m1;
          expired_events = map snd (filter (\<lambda>(k, v). expired rt v) visited);
          events = map snd (filter (\<lambda>(k, v). \<not> expired rt v) visited)
      in (fold_groups f expired_events events, filter (\<lambda>(k, v). \<not> expired rt v) m1))"

definition coalesce_lock :: "fold_fn_t \<Rightarrow> streams_t" where
  "coalesce_lock f = create_stream_simple (\<lambda>_. closure (coalesce_step f) [])"

section \<open>project\<close>

type_synonym project_t = "event option list"

fun match_index :: "predicate_t list \<Rightarrow> runtime \<Rightarrow> event \<Rightarrow> exn + nat option" where
  "match_index [] rt e = Inr None"
| "match_index (p # ps) rt e =
     bind_exn (p rt e) (\<lambda>b. if b then Inr (Some 0)
                            else bind_exn (match_index ps rt e) (\<lambda>i. Inr (map_option Suc i)))"

text \<open>One pass over the slots: the new slots, the events to fold, the expired ones.\<close>

fun project_scan :: "runtime \<Rightarrow> event \<Rightarrow> nat option \<Rightarrow> project_t
    \<Rightarrow> project_t \<times> event list \<times> event list" where
  "project_scan rt e i [] = ([], [], [])"
| "project_scan rt e i (x # xs) =
     (let j = (case i of Some (Suc k) \<Rightarrow> Some k | _ \<Rightarrow> None)
      in case project_scan rt e j xs of
           (ys, events, old) \<Rightarrow>
             if i = Some 0 then (Some e # ys, e # events, old)
             else (case x of
                     None \<Rightarrow> (None # ys, events, old)
                   | Some v \<Rightarrow> if expired rt v then (None # ys, events, v # old)
                               else (Some v # ys, v # events, old)))"

definition project_step :: "predicate_t list \<Rightarrow> fold_fn_t \<Rightarrow> project_t step" where
  "project_step ps f slots rt e =
     (case match_index ps rt e of
        Inl x \<Rightarrow> (throw x, slots)
      | Inr None \<Rightarrow> (ret [], slots)
      | Inr (Some i) \<Rightarrow>
          (case project_scan rt e (Some i) slots of
             (slots1, events, expired_events) \<Rightarrow>
               (fold_groups f expired_events events, slots1)))"

definition project_lock :: "predicate_t list \<Rightarrow> fold_fn_t \<Rightarrow> streams_t" where
  "project_lock ps f =
     create_stream_simple (\<lambda>_. closure (project_step ps f) (replicate (length ps) None))"

section \<open>changed_state\<close>

type_synonym state_t = string

definition changed_state_step :: "state_t step" where
  "changed_state_step prev rt e =
     (if prev = state e then (ret [], prev) else (ret [e], state e))"

definition changed_state_lock :: "string \<Rightarrow> streams_t" where
  "changed_state_lock initial = create_stream_simple (\<lambda>_. closure changed_state_step initial)"

section \<open>Windows over a number of events\<close>

definition moving_event_window_step :: "nat \<Rightarrow> fold_fn_t \<Rightarrow> event list step" where
  "moving_event_window_step n f events rt e =
     (let es = events @ [e];
          es1 = (if length es = n + 1 then tl es else es)
      in (fold_one f es1, es1))"

definition moving_event_window_lock :: "nat \<Rightarrow> fold_fn_t \<Rightarrow> streams_t" where
  "moving_event_window_lock n f =
     create_stream_simple (\<lambda>_. closure (moving_event_window_step n f) [])"

definition fixed_event_window_step :: "nat \<Rightarrow> fold_fn_t \<Rightarrow> event list step" where
  "fixed_event_window_step n f events rt e =
     (let es = events @ [e]
      in if length es = n then (if es \<noteq> [] then fold_one f es else ret [], [])
         else (ret [], es))"

definition fixed_event_window_lock :: "nat \<Rightarrow> fold_fn_t \<Rightarrow> streams_t" where
  "fixed_event_window_lock n f =
     create_stream_simple (\<lambda>_. closure (fixed_event_window_step n f) [])"

section \<open>Windows over time\<close>

record moving_time_window_t =
  mtw_pq :: "event pq"
  mtw_max :: int

definition moving_time_window_step :: "int \<Rightarrow> fold_fn_t \<Rightarrow> moving_time_window_t step" where
  "moving_time_window_step dt f w rt e =
     (if \<not> has_time e then (ret [], w)
      else let mx = (if time e > mtw_max w then time e else mtw_max w);
               q = pq_push time e (mtw_pq w);
               q1 = (if mx < dt then q else snd (pop_while (\<lambda>x. time x \<le> mx - dt) q));
               events = fst (pop_while (\<lambda>_. True) q1)
           in (fold_one f events, \<lparr>mtw_pq = q1, mtw_max = mx\<rparr>))"

definition moving_time_window_lock :: "int \<Rightarrow> fold_fn_t \<Rightarrow> streams_t" where
  "moving_time_window_lock dt f =
     create_stream_simple (\<lambda>_. closure (moving_time_window_step dt f) \<lparr>mtw_pq = [], mtw_max = 0\<rparr>)"

record fixed_time_window_t =
  ftw_pq :: "event pq"
  ftw_start :: int
  ftw_max :: int
  ftw_started :: bool

text \<open>The remainder of C++: its sign is the sign of the dividend.\<close>

definition c_rem :: "int \<Rightarrow> int \<Rightarrow> int" where
  "c_rem a b = sgn a * (\<bar>a\<bar> mod \<bar>b\<bar>)"

definition next_interval :: "int \<Rightarrow> int \<Rightarrow> int" where
  "next_interval dt start = start - c_rem start dt + dt"

definition fixed_time_window_step :: "int \<Rightarrow> fold_fn_t \<Rightarrow> fixed_time_window_t step" where
  "fixed_time_window_step dt f w rt e =
     (if \<not> has_time e then (ret [], w)
      else if \<not> ftw_started w then
        (ret [], w\<lparr>ftw_started := True, ftw_start := time e,
                   ftw_pq := pq_push time e (ftw_pq w), ftw_max := time e\<rparr>)
      else if time e < ftw_start w then (ret [], w)
      else let w1 = (if time e > ftw_max w then w\<lparr>ftw_max := time e\<rparr> else w)
           in if dt = 0 then (throw Undefined, w1)
              else let ni = next_interval dt (ftw_start w1);
                       w2 = w1\<lparr>ftw_pq := pq_push time e (ftw_pq w1)\<rparr>
                   in if ftw_max w2 < ni then (ret [], w2)
                      else case pop_while (\<lambda>x. time x < ni) (ftw_pq w2) of
                             (flush, q) \<Rightarrow>
                               (if flush \<noteq> [] then fold_one f flush else ret [],
                                w2\<lparr>ftw_pq := q, ftw_start := ni\<rparr>))"

definition fixed_time_window_lock :: "int \<Rightarrow> fold_fn_t \<Rightarrow> streams_t" where
  "fixed_time_window_lock dt f =
     create_stream_simple (\<lambda>_. closure (fixed_time_window_step dt f)
       \<lparr>ftw_pq = [], ftw_start = 0, ftw_max = 0, ftw_started = False\<rparr>)"

section \<open>stable\<close>

record stable_t =
  st_state :: string
  st_buffer :: "event list"
  st_start :: int

definition stable_init :: stable_t where
  "stable_init = \<lparr>st_state = [], st_buffer = [], st_start = 0\<rparr>"

definition stable_step :: "int \<Rightarrow> stable_t step" where
  "stable_step dt st rt e =
     (if st_state st \<noteq> state e then
        (ret [], \<lparr>st_state = state e, st_buffer = [e], st_start = time e\<rparr>)
      else if time e < st_start st then (ret [], st)
      else if st_start st + dt > time e then (ret [], st\<lparr>st_buffer := st_buffer st @ [e]\<rparr>)
      else (ret (st_buffer st @ [e]), st\<lparr>st_buffer := []\<rparr>))"

definition stable_lock :: "int \<Rightarrow> streams_t" where
  "stable_lock dt = create_stream_simple (\<lambda>_. closure (stable_step dt) stable_init)"

section \<open>throttle\<close>

record throttle_t =
  th_forwarded :: nat
  th_new_interval :: int

definition throttle_step :: "nat \<Rightarrow> int \<Rightarrow> throttle_t step" where
  "throttle_step n dt th rt e =
     (let th1 = (if th_new_interval th < time e
                 then \<lparr>th_forwarded = 0, th_new_interval = th_new_interval th + (time e + dt)\<rparr>
                 else th)
      in if th_forwarded th1 < n
         then (ret [e], th1\<lparr>th_forwarded := th_forwarded th1 + 1\<rparr>)
         else (ret [], th1))"

definition throttle_lock :: "nat \<Rightarrow> int \<Rightarrow> streams_t" where
  "throttle_lock n dt =
     create_stream_simple (\<lambda>_. closure (throttle_step n dt)
       \<lparr>th_forwarded = 0, th_new_interval = 0\<rparr>)"

section \<open>ddt\<close>

record ddt_prev_t =
  ddt_metric :: fp
  ddt_time :: int
  ddt_initialized :: bool

definition ddt_step :: "ddt_prev_t step" where
  "ddt_step p rt e =
     (let p1 = p\<lparr>ddt_metric := metric e, ddt_time := time e\<rparr>;
          dt = time e - ddt_time p
      in if \<not> ddt_initialized p then (ret [], p1\<lparr>ddt_initialized := True\<rparr>)
         else if dt = 0 then (ret [], p1)
         else (ret [set_metric (fp_div (fp_sub (metric e) (ddt_metric p)) (double_of_int dt)) e], p1))"

definition ddt_lock :: streams_t where
  "ddt_lock = create_stream_simple (\<lambda>_. closure ddt_step
     \<lparr>ddt_metric = Fin 0, ddt_time = 0, ddt_initialized = False\<rparr>)"

section \<open>The names the rules use\<close>

text \<open>stream_functions.cpp selects the locking variants: no lock-free macro is defined.\<close>

definition by_stream :: "string list \<Rightarrow> streams_t \<Rightarrow> streams_t" where
  "by_stream keys stream = by_lock keys stream"

definition by_fwd_stream :: "string list \<Rightarrow> streams_t" where
  "by_fwd_stream keys = by_fwd_lock keys"

definition coalesce :: "fold_fn_t \<Rightarrow> streams_t" where "coalesce f = coalesce_lock f"

definition project :: "predicate_t list \<Rightarrow> fold_fn_t \<Rightarrow> streams_t" where
  "project ps f = project_lock ps f"

definition changed_state_one :: "string \<Rightarrow> streams_t" where
  "changed_state_one initial = changed_state_lock initial"

definition changed_state :: "string \<Rightarrow> streams_t" where
  "changed_state initial = by_stream [''host'', ''service''] (changed_state_one initial)"

definition changed_state_ok :: streams_t where
  "changed_state_ok = changed_state ''ok''"

definition moving_event_window :: "nat \<Rightarrow> fold_fn_t \<Rightarrow> streams_t" where
  "moving_event_window n f = moving_event_window_lock n f"

definition fixed_event_window :: "nat \<Rightarrow> fold_fn_t \<Rightarrow> streams_t" where
  "fixed_event_window n f = fixed_event_window_lock n f"

definition moving_time_window :: "int \<Rightarrow> fold_fn_t \<Rightarrow> streams_t" where
  "moving_time_window dt f = moving_time_window_lock dt f"

definition fixed_time_window :: "int \<Rightarrow> fold_fn_t \<Rightarrow> streams_t" where
  "fixed_time_window dt f = fixed_time_window_lock dt f"

definition stable :: "int \<Rightarrow> streams_t" where "stable dt = stable_lock dt"

definition throttle :: "nat \<Rightarrow> int \<Rightarrow> streams_t" where "throttle n dt = throttle_lock n dt"

definition ddt :: streams_t where "ddt = ddt_lock"

section \<open>Reading a history\<close>

lemma feed_append: "feed s (g @ h) = feed s g @ feed (feed_state s g) h"
  by (induction s g rule: feed.induct) (auto split: prod.split)

lemma feed_state_append: "feed_state s (g @ h) = feed_state (feed_state s g) h"
  by (induction s g rule: feed_state.induct) auto

lemma run_nth:
  assumes "i < length h" "h ! i = (rt, e)"
  shows "run f s h ! i = fst (f (run_state f s (take i h)) rt e)"
proof -
  have "h = take i h @ (rt, e) # drop (Suc i) h" using assms by (metis id_take_nth_drop)
  then have "run f s h = run f s (take i h) @ run f (run_state f s (take i h)) ((rt, e) # drop (Suc i) h)"
    by (metis run_append)
  then show ?thesis using assms(1) by (simp add: nth_append split: prod.split)
qed

lemma take_Suc_snoc: "i < length h \<Longrightarrow> h ! i = (rt, e) \<Longrightarrow> take (Suc i) h = take i h @ [(rt, e)]"
  by (simp add: take_Suc_conv_app_nth)

lemma run_state_snoc: "run_state f s (g @ [(rt, e)]) = snd (f (run_state f s g) rt e)"
  by (simp add: run_state_append)

lemma feed_state_Nil [simp]: "feed_state [] g = []"
  by (induction g) (auto simp: push_event_def)

section \<open>by keeps its branches apart\<close>

definition same_key :: "string list \<Rightarrow> string \<Rightarrow> runtime \<times> event \<Rightarrow> bool" where
  "same_key keys k x \<longleftrightarrow> by_key keys (snd x) = k"

lemma same_key_pair [simp]: "same_key keys k (rt, e) \<longleftrightarrow> by_key keys e = k"
  by (simp add: same_key_def)

lemma length_push_event: "length (snd (push_event s rt e)) = length s"
  by (simp add: push_event_def push_nodes_length)

lemma feed_state_eq_Nil: "feed_state s g = [] \<longleftrightarrow> s = []"
proof (induction g arbitrary: s)
  case (Cons x g)
  obtain rt e where "x = (rt, e)" by force
  then show ?case using Cons length_push_event [of s rt e] by (auto simp: length_0_conv [symmetric] simp del: length_0_conv)
qed simp

lemma by_state:
  assumes "keys \<noteq> []"
  shows "map_of (run_state (by_step keys stream) [] g) k =
     (let sub = filter (same_key keys k) g
      in if sub = [] then None else Some (feed_state (init_streams stream) sub))"
proof (induction g arbitrary: k rule: rev_induct)
  case (snoc x g)
  obtain rt e where x: "x = (rt, e)" by force
  let ?m = "run_state (by_step keys stream) [] g" and ?key = "by_key keys e"
  let ?s = "feed_state (init_streams stream) (filter (same_key keys ?key) g)"
  have "(let s0 = (case map_of ?m ?key of None \<Rightarrow> [] | Some s \<Rightarrow> s)
         in if s0 = [] then init_streams stream else s0) = ?s"
    by (auto simp: snoc Let_def feed_state_eq_Nil split: if_splits)
  then have "snd (by_step keys stream ?m rt e) = um_set ?m ?key (snd (push_event ?s rt e))"
    using assms by (simp add: by_step_def Let_def split: prod.split)
  then show ?case
    using snoc [of k] by (auto simp: run_state_snoc x feed_state_append)
qed simp

lemma by_step_result:
  assumes "keys \<noteq> []" "i < length h" "h ! i = (rt, e)"
  shows "run (by_step keys stream) [] h ! i =
     fst (push_event (feed_state (init_streams stream)
           (filter (same_key keys (by_key keys e)) (take i h))) rt e)"
proof -
  let ?m = "run_state (by_step keys stream) [] (take i h)" and ?key = "by_key keys e"
  have "(let s0 = (case map_of ?m ?key of None \<Rightarrow> [] | Some s \<Rightarrow> s)
         in if s0 = [] then init_streams stream else s0)
      = feed_state (init_streams stream) (filter (same_key keys ?key) (take i h))"
    by (auto simp: by_state [OF assms(1)] Let_def feed_state_eq_Nil split: if_splits)
  then show ?thesis
    using assms by (simp add: run_nth by_step_def Let_def split: prod.split)
qed

lemma by_isolation_lemma:
  assumes "keys \<noteq> []" "i < length h" "h ! i = (rt, e)"
  shows "feed (init_streams (by_stream keys stream)) h ! i =
     last (feed (init_streams stream) (filter (same_key keys (by_key keys e)) (take (Suc i) h)))"
proof -
  have "filter (same_key keys (by_key keys e)) (take (Suc i) h)
      = filter (same_key keys (by_key keys e)) (take i h) @ [(rt, e)]"
    by (simp add: take_Suc_snoc [OF assms(2,3)])
  then show ?thesis
    using by_step_result [OF assms]
    by (simp add: by_stream_def by_lock_def feed_create_stream_simple feed_append split: prod.split)
qed

text \<open>
  C6. \<open>by\<close> keeps one copy of its stream per key and keeps the copies apart: what it returns for an
  event is what a freshly initialised copy of the stream returns for it after seeing exactly the
  earlier events with the same key.
\<close>

theorem by_isolation:
  assumes "keys \<noteq> []" "i < length h" "h ! i = (rt, e)"
  shows "feed (init_streams (by_stream keys stream)) h ! i =
     last (feed (init_streams stream) (filter (same_key keys (by_key keys e)) (take (Suc i) h)))"
  using assms by (rule by_isolation_lemma)

definition ev_hs :: "string \<Rightarrow> string \<Rightarrow> event" where
  "ev_hs h s = set_host h (set_state s empty_event)"

definition two_hosts :: history where
  "two_hosts = [(rt_at 0, ev_hs ''a'' ''ok''), (rt_at 0, ev_hs ''b'' ''critical''),
                (rt_at 0, ev_hs ''a'' ''critical'')]"

lemma value_to_str_host [simp]: "value_to_str e ''host'' = host e"
  by (simp add: value_to_str_def)

lemma value_to_str_service [simp]: "value_to_str e ''service'' = service e"
  by (simp add: value_to_str_def)

lemma ev_hs_simps [simp]: "host (ev_hs h s) = h" "state (ev_hs h s) = s" "service (ev_hs h s) = []"
  by (simp_all add: ev_hs_def) (simp_all add: event_defs)

theorem by_isolation_witness:
  "feed (init_streams (by_stream [''host''] (changed_state_one ''ok''))) two_hosts ! 2 =
     last (feed (init_streams (changed_state_one ''ok''))
       [(rt_at 0, ev_hs ''a'' ''ok''), (rt_at 0, ev_hs ''a'' ''critical'')])"
  using by_isolation [of "[''host'']" 2 two_hosts "rt_at 0" "ev_hs ''a'' ''critical''"
      "changed_state_one ''ok''"]
  by (simp add: two_hosts_def by_key_def numeral_2_eq_2 del: feed.simps)

section \<open>changed_state\<close>

definition last_state :: "string \<Rightarrow> history \<Rightarrow> string" where
  "last_state initial g = (if g = [] then initial else state (snd (last g)))"

lemma changed_state_run: "run_state changed_state_step initial g = last_state initial g"
  by (induction g rule: rev_induct)
     (auto simp: run_state_append last_state_def changed_state_step_def)

lemma changed_state_one_last:
  "last (feed (init_streams (changed_state_one initial)) (g @ [(rt, e)])) =
     ret (if state e = last_state initial g then [] else [e])"
  by (simp add: changed_state_one_def changed_state_lock_def feed_create_stream_simple run_append
      changed_state_run) (simp add: changed_state_step_def)

lemma changed_state_result:
  assumes "i < length h" "h ! i = (rt, e)"
  shows "feed (init_streams (changed_state initial)) h ! i =
     ret (if state e = last_state initial
               (filter (same_key [''host'', ''service''] (by_key [''host'', ''service''] e)) (take i h))
          then [] else [e])"
  using by_isolation_lemma [of "[''host'', ''service'']" i h rt e "changed_state_one initial"] assms
  by (simp add: changed_state_def take_Suc_snoc [OF assms] changed_state_one_last)



section \<open>Event windows\<close>

lemma moving_event_window_state:
  "run_state (moving_event_window_step n f) [] g = last_n n (map snd g)"
proof (induction g rule: rev_induct)
  case (snoc x g)
  obtain rt e where x: "x = (rt, e)" by force
  show ?case
    by (simp add: run_state_snoc snoc x)
       (simp add: moving_event_window_step_def Let_def last_n_snoc)
qed simp

text \<open>
  \<open>moving_event_window\<close> folds, at every event, exactly the last \<open>n\<close> events in their order of
  arrival, or all of them while fewer than \<open>n\<close> have arrived.
\<close>

theorem moving_event_window_last_n:
  assumes "i < length h"
  shows "feed (init_streams (moving_event_window n f)) h ! i =
     fold_one f (last_n n (map snd (take (Suc i) h)))"
proof -
  obtain rt e where x: "h ! i = (rt, e)" by force
  show ?thesis
    using assms x
    by (simp add: moving_event_window_def moving_event_window_lock_def feed_create_stream_simple
        run_nth moving_event_window_state)
       (simp add: moving_event_window_step_def Let_def take_Suc_snoc last_n_snoc)
qed

theorem moving_event_window_last_n_witness:
  "feed (init_streams (moving_event_window 2 count_events))
     [(rt_at 0, ev_m 1), (rt_at 0, ev_m 2), (rt_at 0, ev_m 3)] ! 2
   = fold_one count_events [ev_m 2, ev_m 3]"
  by (subst moving_event_window_last_n) (simp_all add: last_n_def)

lemma fixed_event_window_state:
  "run_state (fixed_event_window_step n f) [] g
     = map snd (drop (length g - length g mod n) g)"
proof (induction g rule: rev_induct)
  case (snoc x g)
  obtain rt e where x: "x = (rt, e)" by force
  have len: "length (drop (length g - length g mod n) g) = length g mod n"
    using mod_less_eq_dividend by simp
  show ?case
  proof (cases "Suc (length g mod n) = n")
    case True
    then have "Suc (length g) mod n = 0" by (simp add: mod_Suc)
    with True len show ?thesis
      by (simp add: run_state_snoc snoc x) (simp add: fixed_event_window_step_def Let_def)
  next
    case False
    then have "Suc (length g) mod n = Suc (length g mod n)" by (simp add: mod_Suc)
    moreover have "Suc (length g) - Suc (length g mod n) = length g - length g mod n" by simp
    ultimately show ?thesis using False len
      by (simp add: run_state_snoc snoc x) (simp add: fixed_event_window_step_def Let_def)
  qed
qed simp

text \<open>
  \<open>fixed_event_window\<close> cuts the history into consecutive blocks of \<open>n\<close> events: the fold runs at
  every \<open>n\<close>-th event, on exactly the block that ends there, and nothing is forwarded in between.
\<close>

theorem fixed_event_window_blocks:
  assumes "i < length h"
  shows "feed (init_streams (fixed_event_window n f)) h ! i =
     (if Suc i mod n = 0 then fold_one f (map snd (take n (drop (Suc i - n) h))) else ret [])"
proof -
  obtain rt e where x: "h ! i = (rt, e)" by force
  let ?b = "drop (i - i mod n) (take i h)"
  have b: "run_state (fixed_event_window_step n f) [] (take i h) = map snd ?b"
    using assms by (simp add: fixed_event_window_state min_def)
  have len: "length ?b = i mod n" using assms by simp
  show ?thesis
  proof (cases "Suc i mod n = 0")
    case True
    then have n: "Suc (i mod n) = n" by (simp add: mod_Suc split: if_splits)
    then have s: "i - i mod n = Suc i - n" by simp
    have "n \<le> Suc i" using n mod_less_eq_dividend [of i n] by linarith
    then have "take n (drop (Suc i - n) h) = drop (Suc i - n) (take (Suc i) h)"
      by (simp add: drop_take)
    also have "\<dots> = ?b @ [(rt, e)]"
      using assms x n s by (simp add: take_Suc_snoc)
    finally have "take n (drop (Suc i - n) h) = ?b @ [(rt, e)]" .
    with n len b x assms True show ?thesis
      by (simp add: fixed_event_window_def fixed_event_window_lock_def feed_create_stream_simple
          run_nth) (simp add: fixed_event_window_step_def Let_def)
  next
    case False
    then have "Suc (i mod n) \<noteq> n" by (auto simp: mod_Suc)
    with len b x assms False show ?thesis
      by (simp add: fixed_event_window_def fixed_event_window_lock_def feed_create_stream_simple
          run_nth) (simp add: fixed_event_window_step_def Let_def)
  qed
qed

theorem fixed_event_window_blocks_witness:
  "feed (init_streams (fixed_event_window 2 count_events))
     [(rt_at 0, ev_m 1), (rt_at 0, ev_m 2), (rt_at 0, ev_m 3)] ! 1
   = fold_one count_events [ev_m 1, ev_m 2]"
  by (subst fixed_event_window_blocks) (simp_all add: numeral_2_eq_2)

end
