(* ===== verification/Time_Windows.thy ===== *)
theory Time_Windows
  imports Streams_Lock
begin

text \<open>
What the two time windows of stream_functions_lock.cpp hand to their fold: the moving window,
  the events of the last \<open>dt\<close> seconds; the fixed window, the events of one interval of length
  \<open>dt\<close>. Both rest on the loop lemma of the priority queue.
\<close>

section \<open>moving_time_window\<close>

text \<open>The events of a history that carry a time, and the latest time, at least zero.\<close>

definition timed :: "history \<Rightarrow> event list" where
  "timed g = filter has_time (map snd g)"

definition latest :: "history \<Rightarrow> int" where
  "latest g = fold max (map time (timed g)) 0"

lemma timed_snoc: "timed (g @ [(rt, e)]) = timed g @ (if has_time e then [e] else [])"
  by (simp add: timed_def)

lemma latest_snoc: "latest (g @ [(rt, e)]) = (if has_time e then max (time e) (latest g) else latest g)"
  by (simp add: latest_def timed_snoc)

lemma timed_append: "timed (g @ h) = timed g @ timed h"
  by (simp add: timed_def)

definition nonneg_times :: "history \<Rightarrow> bool" where
  "nonneg_times g = list_all (\<lambda>(rt, e). 0 \<le> time e) g"

definition in_window :: "int \<Rightarrow> history \<Rightarrow> event \<Rightarrow> bool" where
  "in_window dt g e \<longleftrightarrow> latest g - dt < time e"

lemma moving_time_window_state:
  assumes "nonneg_times g"
  shows "let w = run_state (moving_time_window_step dt f) \<lparr>mtw_pq = [], mtw_max = 0\<rparr> g
    in pq_inv time (mtw_pq w) \<and> mset (mtw_pq w) = mset (filter (in_window dt g) (timed g))
       \<and> mtw_max w = latest g"
  using assms
proof (induction g rule: rev_induct)
  case Nil
  show ?case by (simp add: pq_inv_def timed_def latest_def)
next
  case (snoc x g)
  obtain rt e where x: "x = (rt, e)" by force
  let ?w = "run_state (moving_time_window_step dt f) \<lparr>mtw_pq = [], mtw_max = 0\<rparr> g"
  have IH: "pq_inv time (mtw_pq ?w)" "mset (mtw_pq ?w) = mset (filter (in_window dt g) (timed g))"
    "mtw_max ?w = latest g"
    using snoc by (simp_all add: nonneg_times_def Let_def)
  show ?case
  proof (cases "has_time e")
    case False
    then have "in_window dt (g @ [x]) = in_window dt g"
      by (simp add: fun_eq_iff in_window_def x latest_snoc)
    then show ?thesis
      using False IH by (simp add: x run_state_snoc timed_snoc latest_snoc Let_def)
        (simp add: moving_time_window_step_def)
  next
    case True
    let ?mx = "max (time e) (latest g)" and ?q = "pq_push time e (mtw_pq ?w)"
    have mx: "(if time e > mtw_max ?w then time e else mtw_max ?w) = ?mx"
      by (simp add: IH(3) max_def)
    have q: "pq_inv time ?q" "mset ?q = add_mset e (mset (mtw_pq ?w))"
      using IH(1) by (simp_all add: pq_inv_push mset_pq_push)
    obtain xs r where p: "pop_while (\<lambda>x. time x \<le> ?mx - dt) ?q = (xs, r)" by fastforce
    have r: "pq_inv time r" "mset r = filter_mset (\<lambda>x. \<not> time x \<le> ?mx - dt) (mset ?q)"
      using pq.loop_correct [OF q(1) _ p] by auto
    have w: "in_window dt (g @ [x]) y \<longleftrightarrow> \<not> time y \<le> ?mx - dt" for y
      using True by (auto simp: x in_window_def latest_snoc)
    have narrower: "filter (in_window dt (g @ [x])) (filter (in_window dt g) es)
        = filter (in_window dt (g @ [x])) es" for es
      using True by (auto simp: x in_window_def latest_snoc intro!: filter_cong)
    have keep: "filter_mset (\<lambda>x. \<not> time x \<le> ?mx - dt) (mset ?q)
        = mset (filter (in_window dt (g @ [x])) (timed (g @ [x])))"
      unfolding q(2) IH(2) mset_filter [symmetric] w [symmetric] using True narrower
      by (simp add: x timed_snoc flip: mset_filter)
    let ?q1 = "if ?mx < dt then ?q else r"
    have "pq_inv time ?q1" using q r by simp
    moreover have "mset ?q1 = mset (filter (in_window dt (g @ [x])) (timed (g @ [x])))"
    proof (cases "?mx < dt")
      case True
      have "0 \<le> time y" if "y \<in># mset ?q" for y
        using that snoc.prems unfolding q(2) IH(2)
        by (auto simp: x nonneg_times_def timed_def list_all_iff)
      then have "filter_mset (\<lambda>x. \<not> time x \<le> ?mx - dt) (mset ?q)
          = filter_mset (\<lambda>_. True) (mset ?q)"
        using True by (intro filter_mset_cong refl) force
      with True keep show ?thesis by simp
    qed (use r keep in auto)
    moreover have "snd (moving_time_window_step dt f ?w rt e) = \<lparr>mtw_pq = ?q1, mtw_max = ?mx\<rparr>"
      using True by (simp add: moving_time_window_step_def Let_def mx p)
    ultimately show ?thesis
      using True by (simp only: x run_state_snoc latest_snoc Let_def moving_time_window_t.simps if_True simp_thms)
  qed
qed

lemma moving_time_window_result:
  "has_time e \<Longrightarrow> fst (moving_time_window_step dt f w rt e) =
     fold_one f (fst (pop_while (\<lambda>_. True) (mtw_pq (snd (moving_time_window_step dt f w rt e)))))"
  by (simp add: moving_time_window_step_def Let_def)

text \<open>
  C23. \<open>moving_time_window\<close> folds, at every event that carries a time, exactly the events whose time
  lies within the last \<open>dt\<close> seconds before the latest time seen, in order of time, whatever the
  order in which they arrived.
\<close>

theorem moving_time_window_contents:
  assumes "i < length h" "h ! i = (rt, e)" "has_time e" "nonneg_times (take (Suc i) h)"
  shows "\<exists>es. feed (init_streams (moving_time_window dt f)) h ! i = fold_one f es
     \<and> sorted (map time es)
     \<and> mset es = mset (filter (in_window dt (take (Suc i) h)) (timed (take (Suc i) h)))"
proof -
  let ?s = "moving_time_window_step dt f" and ?init = "\<lparr>mtw_pq = [], mtw_max = 0\<rparr>"
  let ?w = "run_state ?s ?init (take (Suc i) h)"
  obtain es r where d: "pop_while (\<lambda>_. True) (mtw_pq ?w) = (es, r)" by fastforce
  have "?w = snd (?s (run_state ?s ?init (take i h)) rt e)"
    by (simp add: take_Suc_snoc [OF assms(1,2)] run_state_snoc)
  then have "feed (init_streams (moving_time_window dt f)) h ! i = fold_one f es"
    using moving_time_window_result [OF assms(3)] d assms(1,2)
    by (simp add: moving_time_window_def moving_time_window_lock_def feed_create_stream_simple
        run_nth)
  moreover have "pq_inv time (mtw_pq ?w)"
    "mset (mtw_pq ?w) = mset (filter (in_window dt (take (Suc i) h)) (timed (take (Suc i) h)))"
    using moving_time_window_state [OF assms(4), of dt f] by (simp_all add: Let_def)
  ultimately show ?thesis using pq.drain_all [OF _ d] by metis
qed

definition ev_t :: "int \<Rightarrow> event" where
  "ev_t t = set_time t empty_event"

lemma ev_t_simps [simp]: "time (ev_t t) = t" "has_time (ev_t t)"
  by (simp_all add: ev_t_def)

theorem moving_time_window_contents_witness:
  "\<exists>es. feed (init_streams (moving_time_window 10 count_events))
       [(rt_at 0, ev_t 9), (rt_at 0, ev_t 5), (rt_at 0, ev_t 16)] ! 2 = fold_one count_events es
     \<and> sorted (map time es) \<and> mset es = {#ev_t 9, ev_t 16#}"
  using moving_time_window_contents
    [of 2 "[(rt_at 0, ev_t 9), (rt_at 0, ev_t 5), (rt_at 0, ev_t 16)]" "rt_at 0" "ev_t 16" 10
      count_events]
  by (simp add: numeral_2_eq_2 timed_def in_window_def latest_def nonneg_times_def del: feed.simps)

section \<open>fixed_time_window\<close>

text \<open>The events one step flushes.\<close>

definition ftw_flush :: "int \<Rightarrow> fixed_time_window_t \<Rightarrow> event \<Rightarrow> event list" where
  "ftw_flush dt w e =
     (if \<not> has_time e \<or> \<not> ftw_started w \<or> time e < ftw_start w then []
      else let ni = next_interval dt (ftw_start w)
           in if max (time e) (ftw_max w) < ni then []
              else fst (pop_while (\<lambda>x. time x < ni) (pq_push time e (ftw_pq w))))"

definition ftw_accepts :: "fixed_time_window_t \<Rightarrow> event \<Rightarrow> bool" where
  "ftw_accepts w e = (has_time e \<and> (ftw_started w \<longrightarrow> ftw_start w \<le> time e))"

definition ftw_inv :: "fixed_time_window_t \<Rightarrow> bool" where
  "ftw_inv w \<longleftrightarrow> pq_inv time (ftw_pq w) \<and> (\<forall>x\<in>set (ftw_pq w). ftw_start w \<le> time x)
     \<and> 0 \<le> ftw_start w \<and> (\<not> ftw_started w \<longrightarrow> ftw_pq w = [])"

lemma next_interval_bounds:
  assumes "0 < dt" "0 \<le> start"
  shows "next_interval dt start = (start div dt + 1) * dt" "start < next_interval dt start"
proof -
  show eq: "next_interval dt start = (start div dt + 1) * dt"
    using assms by (cases "start = 0")
      (auto simp: next_interval_def c_rem_def minus_mod_eq_div_mult algebra_simps)
  show "start < next_interval dt start"
    unfolding eq using pos_mod_bound [OF assms(1), of start] mult_div_mod_eq [of dt start]
    by (simp only: distrib_right mult_1 mult.commute [of dt])
qed

lemma same_interval:
  assumes "0 < dt" "s \<le> t" "t < (s div dt + 1) * dt"
  shows "t div dt = (s :: int) div dt"
proof (rule antisym)
  show "s div dt \<le> t div dt" using assms by (simp add: zdiv_mono1)
  have "dt * (t div dt) \<le> t"
    using pos_mod_sign [OF assms(1), of t] mult_div_mod_eq [of dt t] by linarith
  with assms(3) have "(t div dt) * dt < (s div dt + 1) * dt" by (simp add: mult.commute)
  then have "t div dt < s div dt + 1" using assms(1) by simp
  then show "t div dt \<le> s div dt" by simp
qed

lemma fixed_time_window_one:
  assumes "0 < dt" "ftw_inv w" "0 \<le> time e"
    and "fixed_time_window_step dt f w rt e = (m, w1)"
  shows "m = (if ftw_flush dt w e = [] then ret [] else fold_one f (ftw_flush dt w e))"
    and "ftw_inv w1" "ftw_started w \<longrightarrow> ftw_started w1 \<and> ftw_start w \<le> ftw_start w1"
    and "mset (ftw_flush dt w e) + mset (ftw_pq w1)
       = mset (ftw_pq w) + (if ftw_accepts w e then {#e#} else {#})"
    and "sorted (map time (ftw_flush dt w e))"
    and "\<forall>x\<in>set (ftw_flush dt w e). time x div dt = ftw_start w div dt
          \<and> ftw_start w \<le> time x \<and> ftw_start w1 = (time x div dt + 1) * dt"
proof -
  let ?ni = "next_interval dt (ftw_start w)" and ?q = "pq_push time e (ftw_pq w)"
  have inv: "pq_inv time (ftw_pq w)" "\<And>x. x \<in> set (ftw_pq w) \<Longrightarrow> ftw_start w \<le> time x"
    "0 \<le> ftw_start w" using assms(2) by (auto simp: ftw_inv_def)
  have q: "pq_inv time ?q" "mset ?q = add_mset e (mset (ftw_pq w))"
    using inv(1) by (simp_all add: pq_inv_push mset_pq_push)
  consider (skip) "\<not> has_time e" | (first) "has_time e" "\<not> ftw_started w"
    | (old) "has_time e" "ftw_started w" "time e < ftw_start w"
    | (keep) "has_time e" "ftw_started w" "\<not> time e < ftw_start w" "max (time e) (ftw_max w) < ?ni"
    | (flush) "has_time e" "ftw_started w" "\<not> time e < ftw_start w" "\<not> max (time e) (ftw_max w) < ?ni"
    by blast
  then have "m = (if ftw_flush dt w e = [] then ret [] else fold_one f (ftw_flush dt w e))
    \<and> ftw_inv w1 \<and> (ftw_started w \<longrightarrow> ftw_started w1 \<and> ftw_start w \<le> ftw_start w1)
    \<and> mset (ftw_flush dt w e) + mset (ftw_pq w1)
       = mset (ftw_pq w) + (if ftw_accepts w e then {#e#} else {#})
    \<and> sorted (map time (ftw_flush dt w e))
    \<and> (\<forall>x\<in>set (ftw_flush dt w e). time x div dt = ftw_start w div dt
          \<and> ftw_start w \<le> time x \<and> ftw_start w1 = (time x div dt + 1) * dt)"
  proof cases
    case skip
    then show ?thesis using assms by (auto simp: fixed_time_window_step_def ftw_flush_def ftw_accepts_def)
  next
    case first
    then show ?thesis
      using assms q by (auto simp: fixed_time_window_step_def ftw_flush_def ftw_accepts_def ftw_inv_def pq_push_def)
  next
    case old
    then show ?thesis using assms by (auto simp: fixed_time_window_step_def ftw_flush_def ftw_accepts_def)
  next
    case keep
    then have "m = ret []" "w1 = w\<lparr>ftw_max := max (time e) (ftw_max w), ftw_pq := ?q\<rparr>"
      using assms by (auto simp: fixed_time_window_step_def Let_def split: if_splits)
    with keep q inv assms(2) show ?thesis
      by (auto simp: ftw_flush_def ftw_accepts_def ftw_inv_def set_pq_push)
  next
    case flush
    obtain xs r where p: "pop_while (\<lambda>x. time x < ?ni) ?q = (xs, r)" by fastforce
    have xr: "pq_inv time r" "mset xs = filter_mset (\<lambda>x. time x < ?ni) (mset ?q)"
      "mset r = filter_mset (\<lambda>x. \<not> time x < ?ni) (mset ?q)" "sorted (map time xs)"
      using pq.loop_correct [OF q(1) _ p] by auto
    have st: "m = (if xs = [] then ret [] else fold_one f xs)"
      "w1 = w\<lparr>ftw_max := max (time e) (ftw_max w), ftw_pq := r, ftw_start := ?ni\<rparr>"
      "ftw_flush dt w e = xs"
      using flush assms p
      by (auto simp: fixed_time_window_step_def ftw_flush_def Let_def max_def split: if_splits)
    have set_q: "ftw_start w \<le> time y" if "y \<in># mset ?q" for y
      using that flush(3) inv(2) unfolding q(2) by auto
    have xs: "ftw_start w \<le> time y \<and> time y < ?ni" if "y \<in> set xs" for y
    proof -
      have "y \<in># mset xs" using that by simp
      then show ?thesis unfolding xr(2) using set_q by simp
    qed
    have rs: "?ni \<le> time y" if "y \<in> set r" for y
    proof -
      have "y \<in># mset r" using that by simp
      then show ?thesis unfolding xr(3) by simp
    qed
    have "mset xs + mset r = mset ?q"
      unfolding xr(2,3) by (rule multiset_partition [symmetric])
    moreover have "time y div dt = ftw_start w div dt" if "y \<in> set xs" for y
      using xs [OF that] next_interval_bounds(1) [OF assms(1) inv(3)]
      by (intro same_interval [OF assms(1)]) auto
    moreover have "ftw_start w < ?ni" "?ni = (ftw_start w div dt + 1) * dt"
      using next_interval_bounds [OF assms(1) inv(3)] by auto
    ultimately show ?thesis
      unfolding st(2,3) using st(1) xr(1,4) rs xs flush inv q(2)
      by (simp add: ftw_inv_def ftw_accepts_def)
  qed
  then show "m = (if ftw_flush dt w e = [] then ret [] else fold_one f (ftw_flush dt w e))"
    "ftw_inv w1" "ftw_started w \<longrightarrow> ftw_started w1 \<and> ftw_start w \<le> ftw_start w1"
    "mset (ftw_flush dt w e) + mset (ftw_pq w1)
       = mset (ftw_pq w) + (if ftw_accepts w e then {#e#} else {#})"
    "sorted (map time (ftw_flush dt w e))"
    "\<forall>x\<in>set (ftw_flush dt w e). time x div dt = ftw_start w div dt
          \<and> ftw_start w \<le> time x \<and> ftw_start w1 = (time x div dt + 1) * dt"
    by blast+
qed

text \<open>An event closes the open interval when it, or one before it, lies beyond its end.\<close>

definition ftw_closes :: "int \<Rightarrow> fixed_time_window_t \<Rightarrow> event \<Rightarrow> bool" where
  "ftw_closes dt w e \<longleftrightarrow> has_time e \<and> ftw_started w \<and> ftw_start w \<le> time e
     \<and> next_interval dt (ftw_start w) \<le> max (time e) (ftw_max w)"

definition ftw_open :: "int \<Rightarrow> fixed_time_window_t \<Rightarrow> event \<Rightarrow> event multiset" where
  "ftw_open dt w e =
     filter_mset (\<lambda>x. time x < next_interval dt (ftw_start w)) (add_mset e (mset (ftw_pq w)))"

lemma ftw_flush_closes:
  assumes "ftw_inv w" "ftw_closes dt w e"
  shows "mset (ftw_flush dt w e) = ftw_open dt w e"
proof -
  let ?c = "\<lambda>x. time x < next_interval dt (ftw_start w)" and ?q = "pq_push time e (ftw_pq w)"
  obtain xs r where p: "pop_while ?c ?q = (xs, r)" by fastforce
  have "pq_inv time ?q" using assms(1) by (simp add: ftw_inv_def pq_inv_push)
  then have "mset xs = filter_mset ?c (mset ?q)" using pq.loop_correct [OF _ _ p] by auto
  with p assms(2) show ?thesis
    by (auto simp: ftw_flush_def ftw_closes_def ftw_open_def mset_pq_push Let_def)
qed

definition before :: "int \<Rightarrow> event list \<Rightarrow> event list \<Rightarrow> bool" where
  "before dt a b \<longleftrightarrow> (\<forall>x\<in>set a. \<forall>y\<in>set b. time x div dt < time y div dt)"

definition one_interval :: "int \<Rightarrow> event list \<Rightarrow> bool" where
  "one_interval dt b \<longleftrightarrow> sorted (map time b) \<and> (\<forall>x\<in>set b. \<forall>y\<in>set b. time x div dt = time y div dt)"

lemma fixed_time_window_run:
  assumes "0 < dt" "ftw_inv w" "nonneg_times h"
  shows "\<exists>bs. run (fixed_time_window_step dt f) w h
      = map (\<lambda>b. if b = [] then ret [] else fold_one f b) bs
    \<and> list_all (one_interval dt) bs \<and> sorted_wrt (before dt) bs
    \<and> mset (concat bs) \<subseteq># mset (ftw_pq w) + mset (timed h)
    \<and> (\<forall>i < length h. ftw_closes dt (run_state (fixed_time_window_step dt f) w (take i h)) (snd (h ! i))
         \<longrightarrow> mset (bs ! i)
           = ftw_open dt (run_state (fixed_time_window_step dt f) w (take i h)) (snd (h ! i)))
    \<and> (ftw_started w \<longrightarrow> (\<forall>x\<in>set (concat bs). ftw_start w \<le> time x))"
  using assms(2,3)
proof (induction h arbitrary: w)
  case Nil
  show ?case by (intro exI [of _ "[]"]) simp
next
  case (Cons x h)
  obtain rt e where x: "x = (rt, e)" by force
  obtain m w1 where st: "fixed_time_window_step dt f w rt e = (m, w1)" by fastforce
  let ?b = "ftw_flush dt w e"
  have e: "0 \<le> time e" "nonneg_times h" using Cons.prems(2) by (auto simp: x nonneg_times_def)
  note one = fixed_time_window_one [OF assms(1) Cons.prems(1) e(1) st]
  from Cons.IH [OF one(2) e(2)] obtain bs where
    bs: "run (fixed_time_window_step dt f) w1 h = map (\<lambda>b. if b = [] then ret [] else fold_one f b) bs"
      "list_all (one_interval dt) bs" "sorted_wrt (before dt) bs"
      "mset (concat bs) \<subseteq># mset (ftw_pq w1) + mset (timed h)"
      "ftw_started w1 \<longrightarrow> (\<forall>x\<in>set (concat bs). ftw_start w1 \<le> time x)"
      "\<forall>i < length h. ftw_closes dt (run_state (fixed_time_window_step dt f) w1 (take i h)) (snd (h ! i))
         \<longrightarrow> mset (bs ! i)
           = ftw_open dt (run_state (fixed_time_window_step dt f) w1 (take i h)) (snd (h ! i))"
    by blast
  have "before dt ?b c" if "c \<in> set bs" for c
    unfolding before_def
  proof (intro ballI)
    fix a y assume a: "a \<in> set ?b" and y: "y \<in> set c"
    then have "ftw_started w" by (auto simp: ftw_flush_def split: if_splits)
    then have "(time a div dt + 1) * dt \<le> time y"
      using one(3,6) bs(5) a y that by auto
    then have "(time a div dt + 1) * dt div dt \<le> time y div dt"
      using assms(1) by (intro zdiv_mono1)
    then show "time a div dt < time y div dt" using assms(1) by simp
  qed
  moreover have "mset (concat (?b # bs)) \<subseteq># mset (ftw_pq w) + mset (timed (x # h))"
  proof -
    have "mset (concat (?b # bs)) \<subseteq># (mset ?b + mset (ftw_pq w1)) + mset (timed h)"
      using bs(4) by (simp add: add.assoc)
    also have "\<dots> \<subseteq># mset (ftw_pq w) + mset (timed (x # h))"
      unfolding one(4) by (simp add: x timed_def ftw_accepts_def)
    finally show ?thesis .
  qed
  moreover have "one_interval dt ?b" using one(5,6) by (auto simp: one_interval_def)
  moreover have "ftw_started w \<longrightarrow> (\<forall>y\<in>set (concat (?b # bs)). ftw_start w \<le> time y)"
    using one(3,6) bs(5) by force
  moreover have "\<forall>i < length (x # h).
      ftw_closes dt (run_state (fixed_time_window_step dt f) w (take i (x # h))) (snd ((x # h) ! i))
      \<longrightarrow> mset ((?b # bs) ! i)
        = ftw_open dt (run_state (fixed_time_window_step dt f) w (take i (x # h))) (snd ((x # h) ! i))"
    using bs(6) ftw_flush_closes [OF Cons.prems(1)] st
    by (auto simp: x nth_Cons split: nat.split)
  ultimately show ?case
    using bs(1-3) one(1) st by (intro exI [of _ "?b # bs"]) (simp add: x)
qed

definition ftw_after :: "int \<Rightarrow> fold_fn_t \<Rightarrow> history \<Rightarrow> fixed_time_window_t" where
  "ftw_after dt f g = run_state (fixed_time_window_step dt f)
     \<lparr>ftw_pq = [], ftw_start = 0, ftw_max = 0, ftw_started = False\<rparr> g"

text \<open>
  C24. \<open>fixed_time_window\<close> with \<open>dt > 0\<close> partitions time into the intervals \<open>[k dt, (k+1) dt)\<close>: every
  batch it folds holds events of one interval, in order of time; a later batch belongs to a later
  interval; no event is folded twice or made up; and when an event closes the open interval, the
  batch is everything the window holds for that interval.
\<close>

theorem fixed_time_window_batches:
  assumes "0 < dt" "nonneg_times h"
  shows "\<exists>bs. feed (init_streams (fixed_time_window dt f)) h
      = map (\<lambda>b. if b = [] then ret [] else fold_one f b) bs
    \<and> list_all (one_interval dt) bs \<and> sorted_wrt (before dt) bs
    \<and> mset (concat bs) \<subseteq># mset (timed h)
    \<and> (\<forall>i < length h. ftw_closes dt (ftw_after dt f (take i h)) (snd (h ! i))
         \<longrightarrow> mset (bs ! i) = ftw_open dt (ftw_after dt f (take i h)) (snd (h ! i)))"
proof -
  let ?w = "\<lparr>ftw_pq = [], ftw_start = 0, ftw_max = 0, ftw_started = False\<rparr>"
  have "ftw_inv ?w" by (simp add: ftw_inv_def pq_inv_def)
  from fixed_time_window_run [OF assms(1) this assms(2), of f] show ?thesis
    by (auto simp: fixed_time_window_def fixed_time_window_lock_def feed_create_stream_simple
        ftw_after_def)
qed

definition crossing :: history where
  "crossing = [(rt_at 0, ev_t 7), (rt_at 0, ev_t 3), (rt_at 0, ev_t 8), (rt_at 0, ev_t 12)]"

theorem fixed_time_window_batches_witness:
  "\<exists>bs. feed (init_streams (fixed_time_window 10 count_events)) crossing
      = map (\<lambda>b. if b = [] then ret [] else fold_one count_events b) bs
    \<and> list_all (one_interval 10) bs \<and> sorted_wrt (before 10) bs
    \<and> mset (bs ! 3) = {#ev_t 7, ev_t 8#}"
proof -
  have "ftw_after 10 count_events (take 3 crossing)
      = \<lparr>ftw_pq = [ev_t 7, ev_t 8], ftw_start = 7, ftw_max = 8, ftw_started = True\<rparr>"
    by (simp add: crossing_def ftw_after_def numeral_3_eq_3)
       (simp add: fixed_time_window_step_def pq_push_def next_interval_def c_rem_def)
  moreover have "snd (crossing ! 3) = ev_t 12" "length crossing = 4" "nonneg_times crossing"
    by (simp_all add: crossing_def numeral_3_eq_3 nonneg_times_def)
  ultimately show ?thesis
    using fixed_time_window_batches [of 10 crossing count_events]
    by (fastforce simp: ftw_closes_def ftw_open_def next_interval_def c_rem_def)
qed

end
