(* ===== verification/Stream_State.thy ===== *)
theory Stream_State
  imports Time_Windows
begin

text \<open>
What \<open>stable\<close>, \<open>throttle\<close>, \<open>ddt\<close> and \<open>coalesce\<close> forward, as functions of the history of events.
\<close>

section \<open>stable\<close>

text \<open>The events since the last change of state, oldest first.\<close>

definition current_run :: "history \<Rightarrow> event list" where
  "current_run g =
     (if g = [] then []
      else rev (takeWhile (\<lambda>e. state e = state (snd (last g))) (rev (map snd g))))"

lemma current_run_snoc:
  "current_run (g @ [(rt, e)]) =
     (if g \<noteq> [] \<and> state (snd (last g)) = state e then current_run g @ [e] else [e])"
proof (cases g rule: rev_cases)
  case (snoc g' x)
  then show ?thesis by (cases x) (auto simp: current_run_def)
qed (simp add: current_run_def)

lemma current_run_ne: "g \<noteq> [] \<Longrightarrow> current_run g \<noteq> []"
  by (cases g rule: rev_cases) (auto simp: current_run_def)

lemma current_run_state: "x \<in> set (current_run g) \<Longrightarrow> state x = state (snd (last g))"
  by (auto simp: current_run_def dest: set_takeWhileD split: if_splits)

text \<open>The initial state is the empty string, so the claims are about states that are not empty.\<close>

lemma stable_prev:
  "st_state (run_state (stable_step dt) stable_init g) = (if g = [] then [] else state (snd (last g)))"
proof (induction g rule: rev_induct)
  case (snoc y g)
  then show ?case by (cases y) (auto simp: run_state_snoc stable_step_def)
qed (simp add: stable_init_def)

lemma stable_state:
  assumes "g \<noteq> []" "state (snd (last g)) \<noteq> []"
  shows "let st = run_state (stable_step dt) stable_init g
    in st_state st = state (snd (last g)) \<and> st_start st = time (hd (current_run g))
       \<and> set (st_buffer st) \<subseteq> set (current_run g)"
  using assms
proof (induction g rule: rev_induct)
  case (snoc x g)
  obtain rt e where x: "x = (rt, e)" by force
  let ?st = "run_state (stable_step dt) stable_init g"
  note prev = stable_prev [of dt g]
  show ?case
  proof (cases "st_state ?st = state e")
    case False
    moreover have "current_run (g @ [(rt, e)]) = [e]"
      using False prev by (auto simp: current_run_snoc)
    ultimately show ?thesis
      by (simp add: x run_state_snoc) (simp add: stable_step_def)
  next
    case True
    with snoc.prems prev have g: "g \<noteq> []" "state (snd (last g)) = state e" by (auto simp: x split: if_splits)
    with snoc have IH: "st_start ?st = time (hd (current_run g))"
        "set (st_buffer ?st) \<subseteq> set (current_run g)"
      by (simp_all add: x Let_def)
    have "current_run (g @ [(rt, e)]) = current_run g @ [e]" using g by (simp add: current_run_snoc)
    with True g IH current_run_ne [OF g(1)] show ?thesis
      by (simp add: x run_state_snoc Let_def) (auto simp: stable_step_def)
  qed
qed simp


definition ev_st :: "string \<Rightarrow> int \<Rightarrow> event" where
  "ev_st s t = set_state s (set_time t empty_event)"

lemma ev_st_simps [simp]: "state (ev_st s t) = s" "time (ev_st s t) = t"
  by (simp_all add: ev_st_def)


section \<open>throttle\<close>

definition forwarded :: "(action, event list) eff list \<Rightarrow> nat" where
  "forwarded ms = length (concat (map outputs ms))"

lemma forwarded_simps [simp]:
  "forwarded [] = 0" "forwarded (m # ms) = length (outputs m) + forwarded ms"
  "forwarded (ms @ ns) = forwarded ms + forwarded ns"
  by (simp_all add: forwarded_def)

lemma throttle_quiet:
  assumes "list_all (\<lambda>(rt, e). time e \<le> th_new_interval th) h"
  shows "forwarded (run (throttle_step n dt) th h) \<le> n - th_forwarded th"
  using assms
proof (induction h arbitrary: th)
  case (Cons x h)
  obtain rt e where x: "x = (rt, e)" by force
  from Cons.prems have q: "time e \<le> th_new_interval th"
      "list_all (\<lambda>(rt, e). time e \<le> th_new_interval th) h" by (simp_all add: x)
  show ?case
  proof (cases "th_forwarded th < n")
    case True
    have "forwarded (run (throttle_step n dt) (th\<lparr>th_forwarded := th_forwarded th + 1\<rparr>) h)
        \<le> n - (th_forwarded th + 1)"
      using Cons.IH [of "th\<lparr>th_forwarded := th_forwarded th + 1\<rparr>"] q(2) by simp
    then show ?thesis using True q(1) by (simp add: x throttle_step_def [of n dt th rt e])
  next
    case False
    then show ?thesis using q Cons.IH [of th] by (simp add: x throttle_step_def [of n dt th rt e])
  qed
qed simp

text \<open>
  Between a first and a last event at most \<open>dt\<close> seconds apart, in order of time, the interval is
  restarted at most once, so at most \<open>n\<close> events pass before the restart and \<open>n\<close> from it on.
\<close>

lemma throttle_burst:
  assumes "0 \<le> dt" "0 \<le> th_new_interval th" "th_forwarded th \<le> n"
    and "list_all (\<lambda>(rt, e). 0 \<le> time e) h" "sorted (map (time \<circ> snd) h)"
    and "list_all (\<lambda>(rt, e). time e \<le> t + dt) h" "list_all (\<lambda>(rt, e). t \<le> time e) h"
  shows "forwarded (run (throttle_step n dt) th h) \<le> (n - th_forwarded th) + n"
  using assms(2-)
proof (induction h arbitrary: th)
  case (Cons x h)
  obtain rt e where x: "x = (rt, e)" by force
  show ?case
  proof (cases "th_new_interval th < time e")
    case True
    let ?th = "\<lparr>th_forwarded = 0, th_new_interval = th_new_interval th + (time e + dt)\<rparr>"
    have "list_all (\<lambda>(rt, e). time e \<le> th_new_interval ?th) (x # h)"
      using Cons.prems(1,5,6) by (auto simp: list_all_iff x)
    from throttle_quiet [OF this, of n dt] have "forwarded (run (throttle_step n dt) ?th (x # h)) \<le> n"
      by simp
    moreover have "throttle_step n dt th rt e = throttle_step n dt ?th rt e"
      using True Cons.prems(1) assms(1) by (simp add: throttle_step_def)
    ultimately show ?thesis by (simp add: x)
  next
    case False
    have h: "list_all (\<lambda>(rt, e). 0 \<le> time e) h" "sorted (map (time \<circ> snd) h)"
      "list_all (\<lambda>(rt, e). time e \<le> t + dt) h" "list_all (\<lambda>(rt, e). t \<le> time e) h"
      using Cons.prems by (simp_all add: x comp_def)
    show ?thesis
    proof (cases "th_forwarded th < n")
      case True
      let ?th = "th\<lparr>th_forwarded := th_forwarded th + 1\<rparr>"
      have "forwarded (run (throttle_step n dt) ?th h) \<le> (n - (th_forwarded th + 1)) + n"
        using Cons.IH [of ?th] h Cons.prems(1) True by (simp add: comp_def)
      then show ?thesis
        using False True by (simp add: x throttle_step_def [of n dt th rt e])
    next
      case full: False
      then show ?thesis
        using False Cons.IH [of th] h Cons.prems(1,2)
        by (simp add: x comp_def throttle_step_def [of n dt th rt e])
    qed
  qed
qed simp

lemma throttle_state:
  "0 \<le> dt \<Longrightarrow> list_all (\<lambda>(rt, e). 0 \<le> time e) g \<Longrightarrow>
     0 \<le> th_new_interval (run_state (throttle_step n dt) \<lparr>th_forwarded = 0, th_new_interval = 0\<rparr> g)
     \<and> th_forwarded (run_state (throttle_step n dt) \<lparr>th_forwarded = 0, th_new_interval = 0\<rparr> g) \<le> n"
proof (induction g rule: rev_induct)
  case (snoc x g)
  then show ?case
    by (cases x) (simp add: run_state_snoc, auto simp: throttle_step_def Let_def)
qed simp

text \<open>
  C26. \<open>throttle\<close> bounds bursts: in a history in order of time, at most \<open>2n\<close> events pass among any
  stretch of consecutive events whose first and last are at most \<open>dt\<close> seconds apart.
\<close>

theorem throttle_bounds_bursts:
  assumes "0 \<le> dt" "nonneg_times (g @ b)" "sorted (map (time \<circ> snd) b)"
    and "b \<noteq> []" "time (snd (last b)) \<le> time (snd (hd b)) + dt"
  shows "forwarded (drop (length g) (feed (init_streams (throttle n dt)) (g @ b))) \<le> 2 * n"
proof -
  let ?s = "throttle_step n dt" and ?init = "\<lparr>th_forwarded = 0, th_new_interval = 0\<rparr>"
  have nn: "list_all (\<lambda>(rt, e). 0 \<le> time e) g" "list_all (\<lambda>(rt, e). 0 \<le> time e) b"
    using assms(2) by (simp_all add: nonneg_times_def)
  have first: "time (snd (hd b)) \<le> time e" and final: "time e \<le> time (snd (last b))"
    if "(rt, e) \<in> set b" for rt e
  proof -
    from that obtain i where i: "i < length b" "b ! i = (rt, e)" by (auto simp: in_set_conv_nth)
    have "map (time \<circ> snd) b ! 0 \<le> map (time \<circ> snd) b ! i"
      using assms(3) i(1) by (intro sorted_nth_mono) auto
    then show "time (snd (hd b)) \<le> time e" using i assms(4) by (simp add: hd_conv_nth)
    have "map (time \<circ> snd) b ! i \<le> map (time \<circ> snd) b ! (length b - 1)"
      using assms(3) i(1) by (intro sorted_nth_mono) auto
    then show "time e \<le> time (snd (last b))" using i assms(4) by (simp add: last_conv_nth)
  qed
  have "forwarded (run ?s (run_state ?s ?init g) b) \<le> (n - th_forwarded (run_state ?s ?init g)) + n"
    using throttle_state [OF assms(1) nn(1), of n] nn(2) assms(1,3,5) first final
    by (intro throttle_burst [where t = "time (snd (hd b))"])
       (fastforce simp: list_all_iff)+
  moreover have "drop (length g) (feed (init_streams (throttle n dt)) (g @ b))
      = run ?s (run_state ?s ?init g) b"
    by (simp add: throttle_def throttle_lock_def feed_create_stream_simple run_append)
  ultimately show ?thesis by simp
qed

theorem throttle_bounds_bursts_witness:
  "forwarded (drop (length [(rt_at 0, ev_t 1)]) (feed (init_streams (throttle 1 5))
      ([(rt_at 0, ev_t 1)] @ [(rt_at 0, ev_t 6), (rt_at 0, ev_t 7), (rt_at 0, ev_t 8)]))) \<le> 2 * 1"
  by (rule throttle_bounds_bursts) (simp_all add: nonneg_times_def)

text \<open>
  The start of the next interval of \<open>throttle\<close> is added to the previous one instead of replacing
  it: after two intervals it lies at the sum of their times, so an event long after the last one
  that passed is still dropped.
\<close>

theorem throttle_interval_accumulates:
  assumes "0 < t" "t + dt < u" "0 \<le> dt" "u < v" "v \<le> t + u + 2 * dt"
  shows "map outputs (feed (init_streams (throttle 1 dt)) [(rt, ev_t t), (rt, ev_t u), (rt, ev_t v)])
     = [[ev_t t], [ev_t u], []]"
  using assms
  by (simp add: throttle_def throttle_lock_def feed_create_stream_simple del: feed.simps)
     (simp add: throttle_step_def)

theorem throttle_interval_accumulates_witness:
  "map outputs (feed (init_streams (throttle 1 10))
      [(rt_at 0, ev_t 100), (rt_at 0, ev_t 200), (rt_at 0, ev_t 300)])
     = [[ev_t 100], [ev_t 200], []]"
  by (rule throttle_interval_accumulates) simp_all

section \<open>ddt\<close>

lemma ddt_state:
  "g \<noteq> [] \<Longrightarrow> run_state ddt_step \<lparr>ddt_metric = Fin 0, ddt_time = 0, ddt_initialized = False\<rparr> g =
     \<lparr>ddt_metric = metric (snd (last g)), ddt_time = time (snd (last g)), ddt_initialized = True\<rparr>"
proof (induction g rule: rev_induct)
  case (snoc x g)
  then show ?case
    by (cases "g = []"; cases x) (simp_all add: run_state_snoc, simp_all add: ddt_step_def Let_def)
qed simp

text \<open>
  \<open>ddt\<close> differentiates: from the second event on, an event is forwarded with the difference of
  its metric and the previous one divided by the difference of their times, and dropped when the
  two times are equal.
\<close>

theorem ddt_difference_quotient:
  assumes "Suc i < length h" "h ! i = (rt, e)" "h ! Suc i = (rt2, e2)"
  shows "feed (init_streams ddt) h ! Suc i =
     (if time e2 = time e then ret []
      else ret [set_metric (fp_div (fp_sub (metric e2) (metric e)) (double_of_int (time e2 - time e))) e2])"
proof -
  have "take (Suc i) h = take i h @ [(rt, e)]" using assms(1,2) by (simp add: take_Suc_snoc)
  with assms show ?thesis
    by (simp add: ddt_def ddt_lock_def feed_create_stream_simple run_nth ddt_state)
       (simp add: ddt_step_def)
qed

theorem ddt_difference_quotient_witness:
  "feed (init_streams ddt) [(rt_at 0, set_time 1 (ev_m 2)), (rt_at 0, set_time 3 (ev_m 10))] ! Suc 0 =
     ret [set_metric (Fin 4) (set_time 3 (ev_m 10))]"
  using ddt_difference_quotient [of 0 "[(rt_at 0, set_time 1 (ev_m 2)), (rt_at 0, set_time 3 (ev_m 10))]"
      "rt_at 0" "set_time 1 (ev_m 2)" "rt_at 0" "set_time 3 (ev_m 10)"]
  by (simp add: ev_m_def fp_sub_def double_of_int_def del: feed.simps)

section \<open>coalesce\<close>

text \<open>
  An event is current in a history when no later event has its host and service and it was not
  expired at its own arrival or at the arrival of any later event.
\<close>

definition current :: "history \<Rightarrow> event \<Rightarrow> bool" where
  "current g x \<longleftrightarrow> (\<exists>g1 rt g2. g = g1 @ (rt, x) # g2 \<and> \<not> expired rt x
     \<and> (\<forall>(rt', y)\<in>set g2. coalesce_key y \<noteq> coalesce_key x \<and> \<not> expired rt' x))"

lemma current_Nil [simp]: "\<not> current [] x"
  by (simp add: current_def)

lemma current_snoc:
  "current (g @ [(rt, e)]) x \<longleftrightarrow>
     \<not> expired rt x \<and> (x = e \<or> (current g x \<and> coalesce_key e \<noteq> coalesce_key x))"
proof
  assume "current (g @ [(rt, e)]) x"
  then obtain g1 rt1 g2 where h: "g @ [(rt, e)] = g1 @ (rt1, x) # g2" "\<not> expired rt1 x"
    "\<forall>(rt', y)\<in>set g2. coalesce_key y \<noteq> coalesce_key x \<and> \<not> expired rt' x"
    by (auto simp: current_def)
  show "\<not> expired rt x \<and> (x = e \<or> (current g x \<and> coalesce_key e \<noteq> coalesce_key x))"
  proof (cases g2 rule: rev_cases)
    case Nil
    with h show ?thesis by simp
  next
    case (snoc g3 y)
    with h(1) have "g = g1 @ (rt1, x) # g3" "y = (rt, e)" by (auto simp: append_eq_append_conv2 Cons_eq_append_conv)
    with h(2,3) snoc show ?thesis by (auto simp: current_def)
  qed
next
  assume a: "\<not> expired rt x \<and> (x = e \<or> (current g x \<and> coalesce_key e \<noteq> coalesce_key x))"
  then show "current (g @ [(rt, e)]) x"
  proof (cases "x = e")
    case True
    then show ?thesis using a unfolding current_def
      by (intro exI [of _ g] exI [of _ rt] exI [of _ "[]"]) simp
  next
    case False
    with a obtain g1 rt1 g2 where h: "g = g1 @ (rt1, x) # g2" "\<not> expired rt1 x"
      "\<forall>(rt', y)\<in>set g2. coalesce_key y \<noteq> coalesce_key x \<and> \<not> expired rt' x"
      by (auto simp: current_def)
    then show ?thesis using a False unfolding current_def
      by (intro exI [of _ g1] exI [of _ rt1] exI [of _ "g2 @ [(rt, e)]"]) auto
  qed
qed

definition coalesce_map :: "fold_fn_t \<Rightarrow> history \<Rightarrow> coalesce_events_t" where
  "coalesce_map f g = run_state (coalesce_step f) [] g"

lemma coalesce_map_snoc:
  "coalesce_map f (g @ [(rt, e)]) =
     filter (\<lambda>(k, v). \<not> expired rt v) (um_set (coalesce_map f g) (coalesce_key e) e)"
  by (simp add: coalesce_map_def run_state_snoc) (simp add: coalesce_step_def Let_def)

lemma coalesce_state:
  "um_wf (coalesce_map f g) \<and>
   (map_of (coalesce_map f g) k = Some x \<longleftrightarrow> coalesce_key x = k \<and> current g x)"
proof (induction g arbitrary: k x rule: rev_induct)
  case Nil
  show ?case by (simp add: coalesce_map_def)
next
  case (snoc y g)
  obtain rt e where y: "y = (rt, e)" by force
  have "um_wf (um_set (coalesce_map f g) (coalesce_key e) e)" using snoc by simp
  then show ?case
    using snoc by (simp add: y coalesce_map_snoc map_of_filter_Some current_snoc) metis
qed

lemma coalesce_entries:
  assumes "m1 = um_set (coalesce_map f g) (coalesce_key e) e"
  shows "um_wf m1"
    and "(k, v) \<in> set m1 \<longleftrightarrow>
      k = coalesce_key v \<and> (v = e \<or> (current g v \<and> coalesce_key e \<noteq> coalesce_key v))"
proof -
  show wf: "um_wf m1" using coalesce_state by (auto simp: assms)
  then have "(k, v) \<in> set m1 \<longleftrightarrow> map_of m1 k = Some v" by (simp add: um_wf_def)
  then show "(k, v) \<in> set m1 \<longleftrightarrow>
      k = coalesce_key v \<and> (v = e \<or> (current g v \<and> coalesce_key e \<noteq> coalesce_key v))"
    using coalesce_state [of f g] by (simp add: assms) metis
qed

lemma set_map_snd_filter: "set (map snd (filter (\<lambda>(k, v). P v) xs)) = {v. \<exists>k. (k, v) \<in> set xs \<and> P v}"
  by force

lemma distinct_filter_split:
  "distinct (map f xs) \<Longrightarrow> distinct (map f (filter P xs @ filter (\<lambda>x. \<not> P x) xs))"
  by (auto simp: distinct_map inj_on_def)

lemma coalesce_live_dead:
  assumes "iteration_order (um_order rt)"
    and vis: "vis = um_iter (um_order rt) (um_set (coalesce_map f g) (coalesce_key e) e)"
    and live: "live = map snd (filter (\<lambda>(k, v). \<not> expired rt v) vis)"
    and dead: "dead = map snd (filter (\<lambda>(k, v). expired rt v) vis)"
  shows "distinct (map coalesce_key (dead @ live))"
    "set live = {x. current (g @ [(rt, e)]) x}"
    "set dead = {x. (x = e \<or> (current g x \<and> coalesce_key e \<noteq> coalesce_key x)) \<and> expired rt x}"
proof -
  note m1 = coalesce_entries [OF refl, where f = f and g = g and e = e]
  have in_vis: "(k, v) \<in> set vis \<longleftrightarrow>
      k = coalesce_key v \<and> (v = e \<or> (current g v \<and> coalesce_key e \<noteq> coalesce_key v))" for k v
  proof -
    have "set vis = set (um_set (coalesce_map f g) (coalesce_key e) e)"
      unfolding vis using assms(1) m1(1) by (rule set_um_iter)
    then show ?thesis using m1(2) by (simp only:)
  qed
  show "set live = {x. current (g @ [(rt, e)]) x}"
    unfolding live current_snoc set_map_snd_filter in_vis by blast
  show "set dead = {x. (x = e \<or> (current g x \<and> coalesce_key e \<noteq> coalesce_key x)) \<and> expired rt x}"
    unfolding dead set_map_snd_filter in_vis by blast
  have "distinct (map fst vis)"
    unfolding vis by (rule distinct_um_iter [OF assms(1) m1(1)])
  from distinct_filter_split [OF this, of "\<lambda>(k, v). expired rt v"]
  have "distinct (map fst (filter (\<lambda>(k, v). expired rt v) vis @ filter (\<lambda>(k, v). \<not> expired rt v) vis))"
    by (simp add: case_prod_unfold)
  moreover have "map coalesce_key (map snd xs) = map fst xs" if "set xs \<subseteq> set vis" for xs
  proof -
    have "coalesce_key (snd p) = fst p" if "p \<in> set vis" for p
      using that in_vis [of "fst p" "snd p"] by simp
    with that show ?thesis by (auto simp: subset_eq)
  qed
  ultimately show "distinct (map coalesce_key (dead @ live))"
    unfolding live dead by (metis filter_is_subset map_append)
qed

lemma coalesce_result:
  assumes "i < length h" "h ! i = (rt, e)" "iteration_order (um_order rt)"
  shows "\<exists>live dead. feed (init_streams (coalesce f)) h ! i = fold_groups f dead live
     \<and> distinct (map coalesce_key (dead @ live))
     \<and> set live = {x. current (take (Suc i) h) x}
     \<and> set dead = {x. (x = e \<or> (current (take i h) x \<and> coalesce_key e \<noteq> coalesce_key x)) \<and> expired rt x}"
proof -
  let ?vis = "um_iter (um_order rt) (um_set (coalesce_map f (take i h)) (coalesce_key e) e)"
  let ?live = "map snd (filter (\<lambda>(k, v). \<not> expired rt v) ?vis)"
  let ?dead = "map snd (filter (\<lambda>(k, v). expired rt v) ?vis)"
  have "feed (init_streams (coalesce f)) h ! i = fold_groups f ?dead ?live"
    using assms(1,2)
    by (simp add: coalesce_def coalesce_lock_def feed_create_stream_simple run_nth)
       (simp add: coalesce_step_def [of f _ rt e] coalesce_map_def Let_def)
  then show ?thesis
    using coalesce_live_dead [OF assms(3) refl refl refl, of f "take i h" e]
    unfolding take_Suc_snoc [OF assms(1,2)]
    by (intro exI [of _ ?live] exI [of _ ?dead] conjI)
qed


definition two_services :: history where
  "two_services = [(rt_at 0, set_time 0 (ev_hs ''a'' ''ok'')), (rt_at 1, set_time 1 (ev_hs ''b'' ''ok'')),
                   (rt_at 2, set_time 2 (ev_hs ''a'' ''critical''))]"


end
