(* ===== verification/Rules.thy ===== *)
theory Rules
  imports Stream_State
begin

text \<open>
  src/rules/common.cpp: the building blocks of user rules, put together from the streams. A \<open>dt\<close> is
  a \<open>double\<close> there and is truncated to \<open>time_t\<close> when it reaches \<open>stable\<close>; the model takes the
  truncated value.
\<close>

definition fold_max_critical_hosts :: "nat \<Rightarrow> fold_fn_t" where
  "fold_max_critical_hosts n es =
     (if es = [] then Inl Undefined
      else let c = length (filter (\<lambda>e. state e = ''critical'') es)
           in Inr (set_state (if n \<le> c then ''critical'' else ''ok'') (hd es)))"

definition fold_stable_events :: "nat \<Rightarrow> fold_fn_t" where
  "fold_stable_events n es =
     (if es = [] then Inl Undefined
      else let s = state (hd es); c = length (filter (\<lambda>e. state e = s) es)
           in Inr (if c = n then last es else empty_event))"

definition k_same_interval :: int where
  "k_same_interval = 60"

definition same_interval :: "event list \<Rightarrow> bool" where
  "same_interval es =
     (let lo = fold min (map time (tl es)) (time (hd es));
          hi = fold max (map time (tl es)) (time (hd es))
      in hi - lo < k_same_interval)"

definition fold_ratio :: "fp \<Rightarrow> fold_fn_t" where
  "fold_ratio zero_ratio es =
     (case es of
        [x, y] \<Rightarrow>
          if has_metric x \<and> has_metric y \<and> same_interval es then
            let a = metric x; b = metric y;
                r = (if fp_eq b (Fin 0) then zero_ratio else fp_div a b)
            in Inr (set_metric r (set_service (service x @ '' / '' @ service y) x))
          else Inr empty_event
      | _ \<Rightarrow> Inr empty_event)"

definition mark :: "bool \<Rightarrow> event \<Rightarrow> event" where
  "mark critical e = set_state (if critical then ''critical'' else ''ok'') e"

definition set_critical_predicate :: "predicate_t \<Rightarrow> streams_t" where
  "set_critical_predicate p =
     create_stream (pure_closure (\<lambda>rt e. bind_eff (lift_exn (p rt e)) (\<lambda>b. ret [mark b e])))"

definition no_expire :: streams_t where
  "no_expire = state_any [''ok'', ''critical'']"

definition critical_above :: "fp \<Rightarrow> streams_t" where
  "critical_above v = set_critical_predicate (p_above v)"

definition critical_under :: "fp \<Rightarrow> streams_t" where
  "critical_under v = set_critical_predicate (p_under v)"

definition stable_metric_trigger :: "int \<Rightarrow> predicate_t \<Rightarrow> streams_t" where
  "stable_metric_trigger dt trigger = join (set_critical_predicate trigger) (stable dt)"

text \<open>
  The three-argument \<open>stable_metric\<close>. Its closure shares the flag \<open>state_ok\<close> with the inner stream
  \<open>stable(dt) >> set_state\<close>: every event that inner stream forwards stores whether its state is
  \<open>ok\<close>.
\<close>

record stable_metric_t =
  sm_ok :: bool
  sm_stable :: stable_t

definition set_state_store :: "event list \<Rightarrow> bool \<Rightarrow> bool" where
  "set_state_store es ok = foldl (\<lambda>_ e. state e = ''ok'') ok es"

definition stable_metric_mark :: "predicate_t \<Rightarrow> predicate_t \<Rightarrow> bool \<Rightarrow> runtime \<Rightarrow> event \<Rightarrow> exn + event"
where
  "stable_metric_mark trigger cancel ok rt e =
     bind_exn (trigger rt e) (\<lambda>t.
       if t then Inr (set_state ''critical'' e)
       else if \<not> ok then
         bind_exn (cancel rt e) (\<lambda>c.
           if \<not> c then Inr (set_state ''critical'' e) else Inr (set_state ''ok'' e))
       else Inr (set_state ''ok'' e))"

definition stable_metric_step :: "int \<Rightarrow> predicate_t \<Rightarrow> predicate_t \<Rightarrow> stable_metric_t step" where
  "stable_metric_step dt trigger cancel s rt e =
     (case stable_metric_mark trigger cancel (sm_ok s) rt e of
        Inl x \<Rightarrow> (throw x, s)
      | Inr ne \<Rightarrow>
          (case stable_step dt (sm_stable s) rt ne of
             ((w, Inl x), st) \<Rightarrow> ((w, Inl x), s\<lparr>sm_stable := st\<rparr>)
           | ((w, Inr es), st) \<Rightarrow>
               ((w, Inr es), \<lparr>sm_ok = set_state_store es (sm_ok s), sm_stable = st\<rparr>)))"

definition stable_metric :: "int \<Rightarrow> predicate_t \<Rightarrow> predicate_t \<Rightarrow> streams_t" where
  "stable_metric dt trigger cancel =
     create_stream_simple (\<lambda>_. closure (stable_metric_step dt trigger cancel)
       \<lparr>sm_ok = True, sm_stable = stable_init\<rparr>)"

definition agg_stable_metric :: "int \<Rightarrow> fold_fn_t \<Rightarrow> predicate_t \<Rightarrow> predicate_t \<Rightarrow> streams_t" where
  "agg_stable_metric dt f trigger cancel = join (coalesce f) (stable_metric dt trigger cancel)"

definition max_critical_hosts :: "nat \<Rightarrow> streams_t" where
  "max_critical_hosts n = coalesce (fold_max_critical_hosts n)"

definition has_metric_p :: predicate_t where
  "has_metric_p = (\<lambda>rt e. Inr (has_metric e))"

definition has_state_p :: predicate_t where
  "has_state_p = (\<lambda>rt e. Inr (has_state e))"

definition ratio :: "string \<Rightarrow> string \<Rightarrow> fp \<Rightarrow> streams_t" where
  "ratio a b default_zero =
     join (project [p_service a, p_service b] (fold_ratio default_zero)) (where_stream has_metric_p)"

definition per_host_ratio ::
  "string \<Rightarrow> string \<Rightarrow> fp \<Rightarrow> int \<Rightarrow> predicate_t \<Rightarrow> predicate_t \<Rightarrow> streams_t" where
  "per_host_ratio a b default_zero dt trigger cancel =
     join (by_stream [''host''] (ratio a b default_zero)) (stable_metric dt trigger cancel)"

definition stable_event_stream :: "nat \<Rightarrow> streams_t" where
  "stable_event_stream n =
     join (moving_event_window n (fold_stable_events n)) (where_stream has_state_p)"

record target_t =
  tg_pagerduty :: streams_t
  tg_email :: streams_t
  tg_index :: streams_t
  tg_all :: streams_t

definition create_targets :: "string \<Rightarrow> string \<Rightarrow> target_t" where
  "create_targets pagerduty_key to_addr =
     (let pg_stream = sdo [join (state_stream ''ok'') (pagerduty_resolve pagerduty_key),
                           join (state_stream ''critical'') (pagerduty_trigger pagerduty_key)];
          mail_stream = email_one ''localhost'' ''cavalieri@localhost'' to_addr;
          pd = join (join no_expire (changed_state ''ok'')) pg_stream;
          em = join (join no_expire (changed_state ''ok'')) mail_stream;
          ix = send_index
      in \<lparr>tg_pagerduty = pd, tg_email = em, tg_index = ix, tg_all = sdo [pd, em, ix]\<rparr>)"

section \<open>Hysteresis of stable_metric\<close>

text \<open>The state last forwarded is \<open>ok\<close>; true before anything was forwarded.\<close>

definition last_forwarded_ok :: "(action, event list) eff list \<Rightarrow> bool" where
  "last_forwarded_ok ms = set_state_store (concat (map outputs ms)) True"

lemma set_state_store_append: "set_state_store (es @ fs) ok = set_state_store fs (set_state_store es ok)"
  by (simp add: set_state_store_def)

lemma stable_step_returns: "\<exists>es st1. stable_step dt st rt e = ((([] , Inr es), st1))"
  by (simp add: stable_step_def ret_def)

definition marked :: "(runtime \<Rightarrow> event \<Rightarrow> bool) \<Rightarrow> (runtime \<Rightarrow> event \<Rightarrow> bool) \<Rightarrow> bool \<Rightarrow> runtime \<times> event
    \<Rightarrow> runtime \<times> event" where
  "marked t c ok x = (fst x, mark (t (fst x) (snd x) \<or> (\<not> ok \<and> \<not> c (fst x) (snd x))) (snd x))"

lemma stable_metric_mark_total:
  assumes "\<And>rt e. trigger rt e = Inr (t rt e)" "\<And>rt e. cancel rt e = Inr (c rt e)"
  shows "stable_metric_mark trigger cancel ok rt e = Inr (snd (marked t c ok (rt, e)))"
  using assms by (auto simp: stable_metric_mark_def marked_def mark_def)

lemma stable_metric_run:
  assumes "\<And>rt e. trigger rt e = Inr (t rt e)" "\<And>rt e. cancel rt e = Inr (c rt e)"
  shows "\<exists>ms. length ms = length h
     \<and> run (stable_metric_step dt trigger cancel) s h = run (stable_step dt) (sm_stable s) ms
     \<and> (\<forall>i < length h. ms ! i = marked t c
          (set_state_store (concat (map outputs (take i (run (stable_step dt) (sm_stable s) ms)))) (sm_ok s))
          (h ! i))"
proof (induction h arbitrary: s)
  case (Cons x h)
  obtain rt e where x: "x = (rt, e)" by force
  let ?y = "marked t c (sm_ok s) (rt, e)"
  obtain es st1 where st: "stable_step dt (sm_stable s) rt (snd ?y) = (([], Inr es), st1)"
    using stable_step_returns by blast
  let ?s1 = "\<lparr>sm_ok = set_state_store es (sm_ok s), sm_stable = st1\<rparr>"
  from Cons.IH [of ?s1] obtain ms where ms: "length ms = length h"
    "run (stable_metric_step dt trigger cancel) ?s1 h = run (stable_step dt) st1 ms"
    "\<forall>i < length h. ms ! i = marked t c
       (set_state_store (concat (map outputs (take i (run (stable_step dt) st1 ms)))) (set_state_store es (sm_ok s)))
       (h ! i)"
    by auto
  have step: "stable_metric_step dt trigger cancel s rt e = (([], Inr es), ?s1)"
    by (simp add: stable_metric_step_def stable_metric_mark_total [OF assms] st)
  have y: "?y = (rt, snd ?y)" by (simp add: marked_def)
  have run1: "run (stable_step dt) (sm_stable s) (?y # ms) = ([], Inr es) # run (stable_step dt) st1 ms"
    by (subst y) (simp add: st)
  have "\<forall>i < length (x # h). (?y # ms) ! i = marked t c
          (set_state_store (concat (map outputs (take i (run (stable_step dt) (sm_stable s) (?y # ms))))) (sm_ok s))
          ((x # h) ! i)"
    unfolding run1 using ms(3)
    by (auto simp: x nth_Cons set_state_store_append split: nat.split) (simp add: set_state_store_def)
  then show ?case
    using ms(1,2) step run1 by (intro exI [of _ "?y # ms"]) (simp add: x)
qed simp

text \<open>
  C19. The three-argument \<open>stable_metric\<close> is \<open>stable\<close> on re-marked events, with hysteresis: an event
  is marked critical exactly when the trigger holds, or when the last forwarded state was not
  \<open>ok\<close> and the cancel predicate does not hold; otherwise it is marked \<open>ok\<close>.
\<close>

theorem stable_metric_hysteresis:
  assumes "\<And>rt e. trigger rt e = Inr (t rt e)" "\<And>rt e. cancel rt e = Inr (c rt e)"
  shows "\<exists>ms. length ms = length h
     \<and> feed (init_streams (stable_metric dt trigger cancel)) h = feed (init_streams (stable dt)) ms
     \<and> (\<forall>i < length h. ms ! i = marked t c
          (last_forwarded_ok (take i (feed (init_streams (stable_metric dt trigger cancel)) h))) (h ! i))"
  using stable_metric_run [of trigger t cancel c, OF assms, where h = h and dt = dt
      and s = "\<lparr>sm_ok = True, sm_stable = stable_init\<rparr>"]
  by (auto simp: stable_metric_def stable_def stable_lock_def feed_create_stream_simple
      last_forwarded_ok_def)

theorem stable_metric_hysteresis_witness:
  "\<exists>ms. length ms = 2
     \<and> feed (init_streams (stable_metric 0 (p_above (Fin 5)) (p_under (Fin 3))))
         [(rt_at 0, ev_m 6), (rt_at 1, ev_m 4)] = feed (init_streams (stable 0)) ms
     \<and> (\<forall>i < 2. ms ! i = marked (\<lambda>rt e. above e (Fin 5)) (\<lambda>rt e. under e (Fin 3))
          (last_forwarded_ok (take i (feed (init_streams (stable_metric 0 (p_above (Fin 5)) (p_under (Fin 3))))
             [(rt_at 0, ev_m 6), (rt_at 1, ev_m 4)]))) ([(rt_at 0, ev_m 6), (rt_at 1, ev_m 4)] ! i))"
  using stable_metric_hysteresis [of "p_above (Fin 5)" "\<lambda>rt e. above e (Fin 5)"
      "p_under (Fin 3)" "\<lambda>rt e. under e (Fin 3)" "[(rt_at 0, ev_m 6), (rt_at 1, ev_m 4)]" 0]
  by (simp add: p_above_def p_under_def numeral_2_eq_2 del: feed.simps)

section \<open>Feeding a composition\<close>

text \<open>A stream is local when no handler of it forwards through a copy of what follows.\<close>

definition local_streams :: "streams_t \<Rightarrow> bool" where
  "local_streams s = list_all (\<lambda>n. \<forall>f g. on_init n f = on_init n g) s"

lemma init_streams_join:
  assumes "local_streams s"
  shows "init_streams (join s t) = join (init_streams s) (init_streams t)"
  using assms
proof (induction s)
  case (Cons n ns)
  then show ?case
    by (simp add: join_def local_streams_def Let_def)
qed (simp add: join_def)

lemma local_create [simp]:
  "local_streams (create_stream f)" "local_streams (create_stream_simple g)"
  "local_streams (join s t) \<longleftrightarrow> local_streams s \<and> local_streams t"
  by (simp_all add: local_streams_def create_stream_def create_stream_simple_def join_def)

text \<open>What a stream forwards on a history, as the history of the stream behind it.\<close>

fun through :: "streams_t \<Rightarrow> history \<Rightarrow> history" where
  "through s [] = []"
| "through s ((rt, e) # h) =
     map (Pair rt) (outputs (fst (push_event s rt e))) @ through (snd (push_event s rt e)) h"

lemma through_append: "through s (g @ h) = through s g @ through (feed_state s g) h"
  by (induction s g rule: through.induct) auto

lemma total_feed_state: "total_streams s \<Longrightarrow> total_streams (feed_state s g)"
  by (induction s g rule: feed_state.induct) (auto simp: total_snd_push_event)

lemma push_event_join_single:
  assumes "push_event s rt e = ((w, Inr out), s1)" "s \<noteq> []" "t \<noteq> []"
  shows "out = [] \<Longrightarrow> push_event (join s t) rt e = ((w, Inr []), join s1 t)"
    and "out = [x] \<Longrightarrow> push_event (join s t) rt e =
      (case push_event t rt x of ((w2, r), t1) \<Rightarrow> ((w @ w2, r), join s1 t1))"
  using assms by (simp_all add: push_event_def join_def push_nodes_append)

lemma last_feed_nth: "last (feed s (g @ [x])) = feed s (g @ [x]) ! length g"
proof -
  have "length (feed s (g @ [x])) = Suc (length g)" by simp
  then show ?thesis by (metis diff_Suc_1 last_conv_nth length_0_conv nat.distinct(1))
qed

lemma feed_nth_last:
  assumes "i < length h" "h ! i = (rt, e)"
  shows "feed s h ! i = last (feed s (take i h @ [(rt, e)]))"
proof -
  have h: "h = (take i h @ [(rt, e)]) @ drop (Suc i) h"
    using id_take_nth_drop [OF assms(1)] assms(2) by simp
  show ?thesis
    by (subst h, subst feed_append) (simp add: nth_append last_feed_nth assms(1) min_absorb2 less_imp_le)
qed

definition at_most_one :: "(action, event list) eff list \<Rightarrow> bool" where
  "at_most_one ms = list_all (\<lambda>m. length (outputs m) \<le> 1) ms"

lemma feed_state_join:
  assumes "total_streams s" "s \<noteq> []" "t \<noteq> []" "at_most_one (feed s g)"
  shows "feed_state (join s t) g = join (feed_state s g) (feed_state t (through s g))"
  using assms
proof (induction g arbitrary: s t)
  case (Cons y g)
  obtain rt e where y: "y = (rt, e)" by force
  from total_push_event [OF Cons.prems(1), of rt e] obtain w out s1
    where p: "push_event s rt e = ((w, Inr out), s1)" "total_streams s1" by blast
  have s1: "s1 \<noteq> []" using length_push_event [of s rt e] p(1) Cons.prems(2) by auto
  have one: "length out \<le> 1" "at_most_one (feed s1 g)"
    using Cons.prems(4) p(1) by (simp_all add: y at_most_one_def)
  then consider "out = []" | x where "out = [x]" by (cases out) auto
  then show ?case
  proof cases
    case 1
    then show ?thesis
      using push_event_join_single(1) [OF p(1) Cons.prems(2,3)] Cons.IH [OF p(2) s1 Cons.prems(3) one(2)] p(1)
      by (simp add: y)
  next
    case 2
    obtain m t1 where t1: "push_event t rt x = (m, t1)" by fastforce
    then have "t1 \<noteq> []" using length_push_event [of t rt x] Cons.prems(3) by auto
    from Cons.IH [OF p(2) s1 this one(2)] 2 t1 p(1) show ?thesis
      using push_event_join_single(2) [OF p(1) Cons.prems(2,3) 2]
      by (cases m) (simp add: y)
  qed
qed simp

lemma feed_join_snoc:
  assumes "total_streams s" "s \<noteq> []" "t \<noteq> []" "at_most_one (feed s (g @ [(rt, e)]))"
  shows "last (feed (join s t) (g @ [(rt, e)])) =
     (let m = last (feed s (g @ [(rt, e)]))
      in case outputs m of
           [] \<Rightarrow> (actions m, Inr [])
         | x # _ \<Rightarrow> (let m2 = last (feed t (through s g @ [(rt, x)])) in (actions m @ actions m2, snd m2)))"
proof -
  let ?s = "feed_state s g" and ?t = "feed_state t (through s g)"
  have st: "feed_state (join s t) g = join ?s ?t"
    using assms by (intro feed_state_join) (auto simp: feed_append at_most_one_def)
  have ne: "?s \<noteq> []" "?t \<noteq> []" using assms(2,3) by (simp_all add: feed_state_eq_Nil)
  from total_push_event [OF total_feed_state [OF assms(1)], of g rt e] obtain w out s1
    where p: "push_event ?s rt e = ((w, Inr out), s1)" by blast
  have "length out \<le> 1" using assms(4) p by (simp add: feed_append at_most_one_def)
  then consider "out = []" | x where "out = [x]" by (cases out) auto
  then show ?thesis
  proof cases
    case 1
    then show ?thesis
      using push_event_join_single(1) [OF p ne] p by (simp add: feed_append st actions_def)
  next
    case 2
    then show ?thesis
      using push_event_join_single(2) [OF p ne 2] p
      by (simp add: feed_append st actions_def Let_def split: prod.split)
  qed
qed

section \<open>Notifications of state changes\<close>

lemma value_to_str_state [simp]: "value_to_str e ''state'' = state e"
  by (simp add: value_to_str_def)

lemma feed_state_sink:
  "feed (init_streams (join (state_stream s) (sink a))) h =
     map (\<lambda>(rt, e). if state e = s then ([a e], Inr []) else ret []) h"
proof (induction h)
  case (Cons x h)
  let ?n = "init_streams (join (state_stream s) (sink a))"
  obtain rt e where x: "x = (rt, e)" by force
  have "push_event ?n rt e = (if state e = s then ([a e], Inr []) else ret [], ?n)"
    by (simp add: state_stream_def where_stream_def sink_def join_def create_stream_def p_match_def
        match_value_def push_event_def bind_eff_def lift_exn_def ret_def emit_def)
  with Cons show ?case by (simp add: x)
qed simp

lemma total_state_stream [simp]: "total_nodes (state_stream s)"
  by (simp add: state_stream_def total_where_stream p_match_def)

definition pd_action :: "string \<Rightarrow> event \<Rightarrow> action list" where
  "pd_action key e =
     (if state e = ''ok'' then [PagerDutyResolve key e]
      else if state e = ''critical'' then [PagerDutyTrigger key e] else [])"

lemma feed_pg_stream:
  assumes "i < length h"
  shows "feed (init_streams (sdo [join (state_stream ''ok'') (pagerduty_resolve key),
      join (state_stream ''critical'') (pagerduty_trigger key)])) h ! i
    = (pd_action key (snd (h ! i)), Inr [])"
proof -
  let ?ss = "[join (state_stream ''ok'') (pagerduty_resolve key),
      join (state_stream ''critical'') (pagerduty_trigger key)]"
  have "list_all total_streams (map init_streams ?ss)"
    by (simp add: pagerduty_resolve_def pagerduty_trigger_def total_init_streams)
  from run_svec_total [OF this _ assms] show ?thesis
    using assms
    by (simp add: sdo_def svec_def feed_create_stream_simple pagerduty_resolve_def
        pagerduty_trigger_def feed_state_sink case_prod_unfold pd_action_def actions_def ret_def)
qed

definition reported :: "runtime \<times> event \<Rightarrow> bool" where
  "reported x \<longleftrightarrow> state (snd x) = ''ok'' \<or> state (snd x) = ''critical''"

lemma feed_no_expire:
  "feed (init_streams no_expire) h = map (\<lambda>x. if reported x then ret [snd x] else ret []) h"
  by (simp add: no_expire_def state_any_def filter_stream_def feed_create_stream case_prod_unfold
      reported_def)

lemma push_no_expire:
  "push_event (init_streams no_expire) rt e =
     (if reported (rt, e) then ret [e] else ret [], init_streams no_expire)"
  by (simp add: no_expire_def state_any_def filter_stream_def create_stream_def push_event_single
      reported_def)

lemma through_no_expire: "through (init_streams no_expire) h = filter reported h"
proof (induction h)
  case (Cons x h)
  obtain rt e where "x = (rt, e)" by force
  with Cons show ?case by (simp add: push_no_expire)
qed simp

definition last_reported :: "history \<Rightarrow> event \<Rightarrow> string" where
  "last_reported g e = last_state ''ok''
     (filter (same_key [''host'', ''service''] (by_key [''host'', ''service''] e)) (filter reported g))"

lemma feed_changes:
  assumes "i < length h" "h ! i = (rt, e)"
  shows "feed (init_streams (join no_expire (changed_state ''ok''))) h ! i =
     ret (if reported (rt, e) \<and> state e \<noteq> last_reported (take i h) e then [e] else [])"
proof -
  let ?s = "init_streams no_expire" and ?t = "init_streams (changed_state ''ok'')"
  have loc: "local_streams no_expire"
    by (simp add: no_expire_def state_any_def filter_stream_def)
  have ne: "?s \<noteq> []" "?t \<noteq> []"
    by (simp_all add: no_expire_def state_any_def filter_stream_def create_stream_def
        changed_state_def by_stream_def by_lock_def create_stream_simple_def)
  have tot: "total_streams ?s"
    by (simp add: no_expire_def state_any_def total_init_streams)
  have one: "at_most_one (feed ?s (take i h @ [(rt, e)]))"
    by (auto simp: at_most_one_def feed_no_expire list_all_iff)
  have "feed (join ?s ?t) h ! i = last (feed (join ?s ?t) (take i h @ [(rt, e)]))"
    using assms by (rule feed_nth_last)
  also have "\<dots> = ret (if reported (rt, e) \<and> state e \<noteq> last_reported (take i h) e then [e] else [])"
    unfolding feed_join_snoc [OF tot ne one]
    by (simp add: feed_no_expire through_no_expire last_feed_nth changed_state_result
        last_reported_def Let_def actions_def ret_def)
  finally show ?thesis by (simp add: init_streams_join [OF loc])
qed

lemma total_by:
  assumes "total_nodes s"
  shows "total_nodes (by_stream keys s)"
proof -
  have "total_obj (closure (by_step keys s) [])"
  proof (rule total_closure [where I = "\<lambda>m. \<forall>k t. map_of m k = Some t \<longrightarrow> total_streams t"])
    fix m :: by_t and rt e assume m: "\<forall>k t. map_of m k = Some t \<longrightarrow> total_streams t"
    let ?s0 = "case map_of m (by_key keys e) of None \<Rightarrow> [] | Some t \<Rightarrow> t"
    have "total_streams (if ?s0 = [] then init_streams s else ?s0)"
      using m assms by (auto simp: total_init_streams split: option.split)
    from total_push_event [OF this, of rt e] m
    show "\<exists>w out m1. by_step keys s m rt e = ((w, Inr out), m1)
        \<and> (\<forall>k t. map_of m1 k = Some t \<longrightarrow> total_streams t)"
      by (auto simp: by_step_def Let_def ret_def)
  qed simp
  then show ?thesis
    by (simp add: total_nodes_def by_stream_def by_lock_def create_stream_simple_def)
qed

lemma total_changed_state [simp]: "total_nodes (changed_state initial)"
proof -
  have "total_nodes (changed_state_one initial)"
    by (auto simp: total_nodes_def changed_state_one_def changed_state_lock_def
        create_stream_simple_def changed_state_step_def ret_def
        intro!: total_closure [where I = "\<lambda>_. True"])
  then show ?thesis by (simp add: changed_state_def total_by)
qed

lemma total_no_expire [simp]: "total_nodes no_expire"
  by (simp add: no_expire_def state_any_def)



section \<open>Counting critical hosts\<close>



end
