(* ===== verification/Index.thy ===== *)
theory Index
  imports Predicates
begin

text \<open>
  src/pub_sub/pub_sub.cpp and src/index/real_index.cpp: the index of the latest event per host and
  service, split over eight hash maps with a mutex each, and the topic it publishes to. One
  operation on a shard is one atomic step, as its mutex makes it; the events a scan visits come in
  the unspecified order of the hash map.
\<close>

section \<open>Publish and subscribe\<close>

text \<open>What the index does to the rest of the program.\<close>

datatype index_action =
    Notify event          \<comment> \<open>the subscriber of the topic runs\<close>
  | PushEvent event       \<comment> \<open>the event goes back through the streams\<close>
  | PreGauge nat
  | PostGauge nat
  | SpawnExpire

type_synonym notify_event_fn_t = "event \<Rightarrow> (index_action, unit) eff"

type_synonym publishers_t = "(string, notify_event_fn_t option) um"

definition add_publisher :: "string \<Rightarrow> publishers_t \<Rightarrow> publishers_t" where
  "add_publisher topic p = map_insert p topic None"

definition publish :: "publishers_t \<Rightarrow> string \<Rightarrow> event \<Rightarrow> (index_action, unit) eff" where
  "publish p topic e =
     (case map_of p topic of
        None \<Rightarrow> throw Check_failed
      | Some None \<Rightarrow> throw Bad_function_call
      | Some (Some f) \<Rightarrow> f e)"

definition subscribe :: "string \<Rightarrow> notify_event_fn_t \<Rightarrow> publishers_t \<Rightarrow> exn + publishers_t" where
  "subscribe topic f p =
     (case map_of p topic of
        None \<Rightarrow> Inl Check_failed
      | Some _ \<Rightarrow> Inr (um_set p topic (Some f)))"

section \<open>The index\<close>

definition k_default_index :: string where "k_default_index = ''index''"

definition k_indexes :: nat where "k_indexes = 8"

definition index_key :: "event \<Rightarrow> string" where
  "index_key e = host e @ ''-'' @ service e"

record real_index =
  indexes :: "(string, event) um list"
  expiring :: bool

definition new_index :: real_index where
  "new_index = \<lparr>indexes = replicate k_indexes [], expiring = False\<rparr>"

definition shard_of :: "runtime \<Rightarrow> real_index \<Rightarrow> string \<Rightarrow> nat" where
  "shard_of rt ix k = str_hash rt k mod length (indexes ix)"

definition store :: "runtime \<Rightarrow> real_index \<Rightarrow> event \<Rightarrow> real_index" where
  "store rt ix e =
     (let k = index_key e; i = shard_of rt ix k
      in ix\<lparr>indexes := (indexes ix)[i := um_set (indexes ix ! i) k e]\<rparr>)"

definition add_event :: "runtime \<Rightarrow> publishers_t \<Rightarrow> real_index \<Rightarrow> event
    \<Rightarrow> (index_action, unit) eff \<times> real_index" where
  "add_event rt p ix e = (publish p k_default_index e, store rt ix e)"

definition timer_cb :: "real_index \<Rightarrow> index_action list \<times> real_index" where
  "timer_cb ix = (if expiring ix then ([], ix) else ([SpawnExpire], ix\<lparr>expiring := True\<rparr>))"

text \<open>An unset ttl reads as zero here; the predicates take sixty seconds.\<close>

definition index_expired :: "int \<Rightarrow> event \<Rightarrow> exn + bool" where
  "index_expired now e =
     bind_exn (int64_of_fp (ttl e)) (\<lambda>t.
       if int64_range (time e + t) then Inr (time e + t < now) else Inl Undefined)"

text \<open>The walk over one shard: the expired events in the order visited, and the entries kept.\<close>

fun expire_shard :: "int \<Rightarrow> (string \<times> event) list \<Rightarrow> exn + (event list \<times> (string \<times> event) list)" where
  "expire_shard now [] = Inr ([], [])"
| "expire_shard now ((k, e) # m) =
     bind_exn (index_expired now e) (\<lambda>x.
     bind_exn (expire_shard now m) (\<lambda>(gone, kept).
       Inr (if x then (e # gone, kept) else (gone, (k, e) # kept))))"

fun expire_shards :: "runtime \<Rightarrow> (string, event) um list \<Rightarrow> exn + (event list \<times> (string, event) um list)"
where
  "expire_shards rt [] = Inr ([], [])"
| "expire_shards rt (m # ms) =
     bind_exn (expire_shard (unix_time rt) (um_iter (um_order rt) m)) (\<lambda>(gone, kept).
     bind_exn (expire_shards rt ms) (\<lambda>(gone', kept').
       Inr (gone @ gone', kept # kept')))"

fun report_expired :: "publishers_t \<Rightarrow> event list \<Rightarrow> (index_action, unit) eff" where
  "report_expired p [] = ret ()"
| "report_expired p (e # es) =
     bind_eff (publish p k_default_index (set_state ''expired'' e)) (\<lambda>_.
     bind_eff (emit [PushEvent (set_state ''expired'' e)] ()) (\<lambda>_.
     report_expired p es))"

definition expire_events :: "runtime \<Rightarrow> publishers_t \<Rightarrow> real_index \<Rightarrow> (index_action, unit) eff \<times> real_index"
where
  "expire_events rt p ix =
     (case expire_shards rt (indexes ix) of
        Inl x \<Rightarrow> (throw x, ix)
      | Inr (gone, kept) \<Rightarrow>
          let n = sum_list (map length (indexes ix));
              r = bind_eff (emit [PreGauge n, PostGauge (n - length gone)] ())
                    (\<lambda>_. report_expired p gone)
          in (r, \<lparr>indexes = kept, expiring = (case snd r of Inl _ \<Rightarrow> expiring ix | Inr _ \<Rightarrow> False)\<rparr>))"

text \<open>
  The loop of \<open>query_index\<close>: the matches found so far are counted and the search stops when the
  count reaches \<open>max_matches\<close>; a maximum of zero is never reached.
\<close>

fun query_entries :: "(event \<Rightarrow> exn + bool) \<Rightarrow> nat \<Rightarrow> event list \<Rightarrow> event list
    \<Rightarrow> exn + (bool \<times> event list)" where
  "query_entries match_fn max_matches acc [] = Inr (False, acc)"
| "query_entries match_fn max_matches acc (e # es) =
     bind_exn (match_fn e) (\<lambda>b.
       if b then
         (if length (acc @ [e]) = max_matches then Inr (True, acc @ [e])
          else query_entries match_fn max_matches (acc @ [e]) es)
       else query_entries match_fn max_matches acc es)"

fun query_shards :: "runtime \<Rightarrow> (event \<Rightarrow> exn + bool) \<Rightarrow> nat \<Rightarrow> event list \<Rightarrow> (string, event) um list
    \<Rightarrow> exn + event list" where
  "query_shards rt match_fn max_matches acc [] = Inr acc"
| "query_shards rt match_fn max_matches acc (m # ms) =
     bind_exn (query_entries match_fn max_matches acc (map snd (um_iter (um_order rt) m)))
       (\<lambda>(finished, acc'). if finished then Inr acc' else query_shards rt match_fn max_matches acc' ms)"

definition query_index :: "runtime \<Rightarrow> real_index \<Rightarrow> (event \<Rightarrow> exn + bool) \<Rightarrow> nat \<Rightarrow> exn + event list" where
  "query_index rt ix match_fn max_matches = query_shards rt match_fn max_matches [] (indexes ix)"

text \<open>
  The destructor: when a walk is in progress the shards are emptied, one lock at a time, and the
  destructor polls until the walk has ended, at most \<open>k_stop_attempts\<close> times. \<open>running k\<close> is what
  the \<open>k\<close>-th poll finds. The result is the index and the number of sleeps.
\<close>

definition k_stop_attempts :: nat where "k_stop_attempts = 120"

fun await_expire :: "(nat \<Rightarrow> bool) \<Rightarrow> nat \<Rightarrow> nat \<Rightarrow> nat" where
  "await_expire running k 0 = 0"
| "await_expire running k (Suc attempts) =
     (if running k then Suc (await_expire running (Suc k) attempts) else 0)"

definition destroy_index :: "(nat \<Rightarrow> bool) \<Rightarrow> real_index \<Rightarrow> real_index \<times> nat" where
  "destroy_index running ix =
     (if expiring ix
      then (\<lparr>indexes = map (\<lambda>_. []) (indexes ix), expiring = True\<rparr>,
            await_expire running 0 k_stop_attempts)
      else (ix\<lparr>expiring := True\<rparr>, 0))"

section \<open>The index of the rule tester\<close>

type_synonym mock_index = "(int \<times> event) list"

definition mock_add_event :: "runtime \<Rightarrow> mock_index \<Rightarrow> event \<Rightarrow> mock_index" where
  "mock_add_event rt evs e = evs @ [(unix_time rt, e)]"

section \<open>The index as one map\<close>

definition lookup :: "runtime \<Rightarrow> real_index \<Rightarrow> string \<Rightarrow> event option" where
  "lookup rt ix k = map_of (indexes ix ! shard_of rt ix k) k"

definition shard_ok :: "runtime \<Rightarrow> nat \<Rightarrow> (string, event) um \<Rightarrow> bool" where
  "shard_ok rt i m \<longleftrightarrow> um_wf m
     \<and> (\<forall>p\<in>set m. index_key (snd p) = fst p \<and> str_hash rt (fst p) mod k_indexes = i)"

definition index_inv :: "runtime \<Rightarrow> real_index \<Rightarrow> bool" where
  "index_inv rt ix \<longleftrightarrow> length (indexes ix) = k_indexes
     \<and> (\<forall>i < k_indexes. shard_ok rt i (indexes ix ! i))"

definition entries :: "real_index \<Rightarrow> event list" where
  "entries ix = map snd (concat (indexes ix))"

lemma k_indexes_pos [simp]: "0 < k_indexes"
  by (simp add: k_indexes_def)

lemma distinct_concat_nth:
  assumes "\<And>i. i < length xss \<Longrightarrow> distinct (xss ! i)"
    and "\<And>i j. i < length xss \<Longrightarrow> j < length xss \<Longrightarrow> i \<noteq> j \<Longrightarrow> set (xss ! i) \<inter> set (xss ! j) = {}"
  shows "distinct (concat xss)"
  using assms
proof (induction xss)
  case (Cons xs xss)
  have "distinct (concat xss)"
    using Cons.prems(1) [of "Suc _"] Cons.prems(2) [of "Suc _" "Suc _"] by (intro Cons.IH) auto
  moreover have "set xs \<inter> set ys = {}" if "ys \<in> set xss" for ys
    using that Cons.prems(2) [of 0 "Suc _"] by (auto simp: in_set_conv_nth)
  ultimately show ?case using Cons.prems(1) [of 0] by auto
qed simp

lemma set_um_set: "set (um_set m k v) \<subseteq> insert (k, v) (set m)"
  by (induction m) (auto simp: um_set_def)

lemma shard_ok_set:
  assumes "shard_ok rt i m" "str_hash rt (index_key e) mod k_indexes = i"
  shows "shard_ok rt i (um_set m (index_key e) e)"
proof -
  have "index_key (snd p) = fst p \<and> str_hash rt (fst p) mod k_indexes = i"
    if "p \<in> set (um_set m (index_key e) e)" for p
  proof -
    from that set_um_set [of m "index_key e" e] have "p = (index_key e, e) \<or> p \<in> set m" by blast
    with assms show ?thesis by (auto simp: shard_ok_def)
  qed
  with assms(1) show ?thesis by (simp add: shard_ok_def)
qed

lemma shard_ok_filter: "shard_ok rt i m \<Longrightarrow> shard_ok rt i (filter P m)"
  by (simp add: shard_ok_def)

lemma index_inv_new [simp]: "index_inv rt new_index"
  by (simp add: index_inv_def new_index_def shard_ok_def)

lemma shard_of_inv: "index_inv rt ix \<Longrightarrow> shard_of rt ix k = str_hash rt k mod k_indexes"
  by (simp add: shard_of_def index_inv_def)

lemma store_inv:
  assumes "index_inv rt ix"
  shows "index_inv rt (store rt ix e)"
proof -
  let ?i = "str_hash rt (index_key e) mod k_indexes"
  have ix: "length (indexes ix) = k_indexes" "\<And>i. i < k_indexes \<Longrightarrow> shard_ok rt i (indexes ix ! i)"
    using assms by (auto simp: index_inv_def)
  have "shard_ok rt j ((indexes ix)[?i := um_set (indexes ix ! ?i) (index_key e) e] ! j)"
    if "j < k_indexes" for j
    using that ix shard_ok_set [of rt ?i "indexes ix ! ?i" e] by (cases "j = ?i") auto
  with ix(1) show ?thesis
    by (simp add: index_inv_def store_def Let_def shard_of_inv [OF assms])
qed

lemma snd_add_event [simp]: "snd (add_event rt p ix e) = store rt ix e"
  by (simp add: add_event_def)

lemma lookup_store:
  assumes "index_inv rt ix"
  shows "lookup rt (store rt ix e) k = (if k = index_key e then Some e else lookup rt ix k)"
proof -
  have len: "length (indexes ix) = k_indexes" using assms by (simp add: index_inv_def)
  show ?thesis
    using store_inv [OF assms, of e] assms
    by (simp add: lookup_def shard_of_inv) (auto simp: store_def Let_def shard_of_inv len nth_list_update)
qed

lemma lookup_new [simp]: "lookup rt new_index k = None"
  by (simp add: lookup_def new_index_def shard_of_def)

lemma lookup_entry:
  assumes "index_inv rt ix"
  shows "lookup rt ix k = Some e \<longleftrightarrow> (\<exists>i < k_indexes. (k, e) \<in> set (indexes ix ! i))"
proof
  assume "lookup rt ix k = Some e"
  then have "(k, e) \<in> set (indexes ix ! (str_hash rt k mod k_indexes))"
    by (auto simp: lookup_def shard_of_inv [OF assms] dest: map_of_SomeD)
  then show "\<exists>i < k_indexes. (k, e) \<in> set (indexes ix ! i)"
    using mod_less_divisor [OF k_indexes_pos] by blast
next
  assume "\<exists>i < k_indexes. (k, e) \<in> set (indexes ix ! i)"
  then obtain i where i: "i < k_indexes" "(k, e) \<in> set (indexes ix ! i)" by blast
  with assms have ok: "shard_ok rt i (indexes ix ! i)" by (simp add: index_inv_def)
  then have "str_hash rt k mod k_indexes = i" using i(2) by (auto simp: shard_ok_def)
  with ok i(2) show "lookup rt ix k = Some e"
    by (simp add: lookup_def shard_of_inv [OF assms] shard_ok_def um_wf_def)
qed

section \<open>Expiry\<close>

definition expirable :: "event \<Rightarrow> bool" where
  "expirable e \<longleftrightarrow>
     (case int64_of_fp (ttl e) of Inl _ \<Rightarrow> False | Inr t \<Rightarrow> int64_range (time e + t))"

definition is_gone :: "int \<Rightarrow> event \<Rightarrow> bool" where
  "is_gone now e \<longleftrightarrow> index_expired now e = Inr True"

lemma index_expired_total: "expirable e \<Longrightarrow> index_expired now e = Inr (is_gone now e)"
  by (cases "int64_of_fp (ttl e)") (auto simp: expirable_def is_gone_def index_expired_def)

lemma expire_shard_total:
  "list_all (\<lambda>(k, e). expirable e) m \<Longrightarrow>
     expire_shard now m = Inr (map snd (filter (\<lambda>(k, e). is_gone now e) m),
                               filter (\<lambda>(k, e). \<not> is_gone now e) m)"
  by (induction m) (auto simp: index_expired_total)

definition all_expirable :: "real_index \<Rightarrow> bool" where
  "all_expirable ix = list_all (list_all (\<lambda>(k, e). expirable e)) (indexes ix)"

lemma all_expirable_new [simp]: "all_expirable new_index"
  by (simp add: all_expirable_def new_index_def list_all_iff)

lemma all_expirable_store:
  assumes "all_expirable ix" "expirable e"
  shows "all_expirable (store rt ix e)"
proof -
  let ?ok = "list_all (\<lambda>(k :: string, e). expirable e)"
  let ?i = "shard_of rt ix (index_key e)"
  have "?ok (um_set m k e)" if "?ok m" for m k
    using that assms(2) set_um_set [of m k e] by (fastforce simp: list_all_iff)
  then show ?thesis
    using assms(1)
    by (cases "?i < length (indexes ix)")
       (auto simp: all_expirable_def store_def Let_def list_all_length [where P = ?ok] nth_list_update)
qed

lemma expire_shards_total:
  assumes "iteration_order (um_order rt)" "list_all um_wf ms"
    and "list_all (list_all (\<lambda>(k, e). expirable e)) ms"
  shows "expire_shards rt ms =
     Inr (concat (map (\<lambda>m. map snd (filter (\<lambda>(k, e). is_gone (unix_time rt) e) (um_iter (um_order rt) m))) ms),
          map (\<lambda>m. filter (\<lambda>(k, e). \<not> is_gone (unix_time rt) e) (um_iter (um_order rt) m)) ms)"
  using assms(2,3)
proof (induction ms)
  case (Cons m ms)
  have "list_all (\<lambda>(k, e). expirable e) (um_iter (um_order rt) m)"
    using Cons.prems set_um_iter [OF assms(1), of m] by (auto simp: list_all_iff)
  then show ?case using Cons by (simp add: expire_shard_total)
qed simp

text \<open>What one walk over all shards visits: every entry once.\<close>

definition visited :: "runtime \<Rightarrow> real_index \<Rightarrow> (string \<times> event) list" where
  "visited rt ix = concat (map (um_iter (um_order rt)) (indexes ix))"

definition stored :: "runtime \<Rightarrow> real_index \<Rightarrow> event \<Rightarrow> bool" where
  "stored rt ix e \<longleftrightarrow> lookup rt ix (index_key e) = Some e"

lemma shards_wf: "index_inv rt ix \<Longrightarrow> m \<in> set (indexes ix) \<Longrightarrow> um_wf m"
  by (auto simp: index_inv_def in_set_conv_nth shard_ok_def)

lemma lookup_key: "index_inv rt ix \<Longrightarrow> lookup rt ix k = Some e \<Longrightarrow> index_key e = k"
  by (fastforce simp: lookup_entry index_inv_def shard_ok_def)

lemma visited_set:
  assumes "index_inv rt ix" "iteration_order (um_order rt)"
  shows "(k, e) \<in> set (visited rt ix) \<longleftrightarrow> lookup rt ix k = Some e"
proof -
  have "set (um_iter (um_order rt) m) = set m" if "m \<in> set (indexes ix)" for m
    using shards_wf [OF assms(1) that] assms(2) by (rule set_um_iter [rotated])
  then have "(k, e) \<in> set (visited rt ix) \<longleftrightarrow> (\<exists>m\<in>set (indexes ix). (k, e) \<in> set m)"
    by (auto simp: visited_def)
  also have "\<dots> \<longleftrightarrow> (\<exists>i < k_indexes. (k, e) \<in> set (indexes ix ! i))"
    using assms(1) unfolding index_inv_def by (metis in_set_conv_nth)
  finally show ?thesis using lookup_entry [OF assms(1)] by simp
qed

lemma visited_distinct:
  assumes "index_inv rt ix" "iteration_order (um_order rt)"
  shows "distinct (map fst (visited rt ix))"
proof -
  let ?it = "\<lambda>m. map fst (um_iter (um_order rt) m)"
  have one: "distinct (?it m)" if "m \<in> set (indexes ix)" for m
    using shards_wf [OF assms(1) that] assms(2) by (rule distinct_um_iter [rotated])
  have shard: "str_hash rt k mod k_indexes = i"
    if "i < k_indexes" "k \<in> set (?it (indexes ix ! i))" for i k
  proof -
    have ok: "shard_ok rt i (indexes ix ! i)" using assms(1) that(1) by (simp add: index_inv_def)
    then have "set (um_iter (um_order rt) (indexes ix ! i)) = set (indexes ix ! i)"
      using assms(2) by (intro set_um_iter) (auto simp: shard_ok_def)
    with that(2) ok show ?thesis by (auto simp: shard_ok_def)
  qed
  have "distinct (concat (map ?it (indexes ix)))"
  proof -
    have "set (?it (indexes ix ! i)) \<inter> set (?it (indexes ix ! j)) = {}"
      if "i < length (indexes ix)" "j < length (indexes ix)" "i \<noteq> j" for i j
      using that shard [of i] shard [of j] assms(1) by (force simp: index_inv_def)
    with one show ?thesis by (intro distinct_concat_nth) auto
  qed
  then show ?thesis by (simp add: visited_def map_concat comp_def)
qed

section \<open>What expiry does\<close>

definition notifies :: "publishers_t \<Rightarrow> bool" where
  "notifies p \<longleftrightarrow> (\<forall>e. publish p k_default_index e = emit [Notify e] ())"

definition expired_reports :: "event list \<Rightarrow> index_action list" where
  "expired_reports es =
     concat (map (\<lambda>e. [Notify (set_state ''expired'' e), PushEvent (set_state ''expired'' e)]) es)"

lemma report_expired_all: "notifies p \<Longrightarrow> report_expired p es = emit (expired_reports es) ()"
  by (induction es) (auto simp: notifies_def expired_reports_def emit_def ret_def bind_eff_def)

lemma expire_events_eq:
  assumes "index_inv rt ix" "iteration_order (um_order rt)" "all_expirable ix" "notifies p"
    and "gone = map snd (filter (\<lambda>(k, e). is_gone (unix_time rt) e) (visited rt ix))"
    and "kept = map (\<lambda>m. filter (\<lambda>(k, e). \<not> is_gone (unix_time rt) e) (um_iter (um_order rt) m)) (indexes ix)"
  shows "expire_events rt p ix =
     (emit (PreGauge (length (visited rt ix)) # PostGauge (length (visited rt ix) - length gone)
            # expired_reports gone) (),
      \<lparr>indexes = kept, expiring = False\<rparr>)"
proof -
  have "list_all um_wf (indexes ix)" using shards_wf [OF assms(1)] by (simp add: list_all_iff)
  from expire_shards_total [OF assms(2) this] assms(3)
  have e: "expire_shards rt (indexes ix) = Inr (gone, kept)"
    by (simp add: all_expirable_def assms(5,6) visited_def map_concat filter_concat comp_def)
  have "length (um_iter (um_order rt) m) = length m" if "m \<in> set (indexes ix)" for m
    using mset_um_iter [OF assms(2) shards_wf [OF assms(1) that]] by (metis size_mset)
  then have "sum_list (map length (indexes ix)) = length (visited rt ix)"
    by (simp add: visited_def length_concat comp_def cong: map_cong)
  with e show ?thesis
    by (simp add: expire_events_def Let_def report_expired_all [OF assms(4)])
       (simp add: bind_eff_def emit_def)
qed

lemma kept_inv:
  assumes "index_inv rt ix" "iteration_order (um_order rt)"
    and "kept = map (\<lambda>m. filter (\<lambda>(k, e). \<not> P e) (um_iter (um_order rt) m)) (indexes ix)"
  shows "index_inv rt \<lparr>indexes = kept, expiring = b\<rparr>"
    "lookup rt \<lparr>indexes = kept, expiring = b\<rparr> k = Some e \<longleftrightarrow> lookup rt ix k = Some e \<and> \<not> P e"
proof -
  have ok: "shard_ok rt i (um_iter (um_order rt) (indexes ix ! i))" if "i < k_indexes" for i
  proof -
    have "shard_ok rt i (indexes ix ! i)" using assms(1) that by (simp add: index_inv_def)
    then show ?thesis
      using assms(2) by (simp add: shard_ok_def set_um_iter) (simp add: um_wf_def distinct_um_iter)
  qed
  show inv: "index_inv rt \<lparr>indexes = kept, expiring = b\<rparr>"
    using assms(1,3) ok by (simp add: index_inv_def shard_ok_filter)
  have "(k, e) \<in> set (kept ! i) \<longleftrightarrow> (k, e) \<in> set (indexes ix ! i) \<and> \<not> P e" if "i < k_indexes" for i
    using that assms by (auto simp: index_inv_def shard_ok_def set_um_iter)
  then show "lookup rt \<lparr>indexes = kept, expiring = b\<rparr> k = Some e \<longleftrightarrow> lookup rt ix k = Some e \<and> \<not> P e"
    unfolding lookup_entry [OF inv] lookup_entry [OF assms(1)] by auto
qed

text \<open>
  C15. Expiry is exact: with a subscriber in place and lifetimes that fit an \<open>int64_t\<close>, \<open>expire_events\<close>
  removes exactly the events whose time plus lifetime lies before now, keeps every other one,
  leaves the index well formed, and reports each removed event once, marked \<open>expired\<close>, to the
  subscriber and to the streams.
\<close>

theorem expire_events_exact:
  assumes "index_inv rt ix" "iteration_order (um_order rt)" "all_expirable ix" "notifies p"
  shows "\<exists>n gone ix2. expire_events rt p ix =
       (emit (PreGauge n # PostGauge (n - length gone) # expired_reports gone) (), ix2)
     \<and> index_inv rt ix2 \<and> \<not> expiring ix2
     \<and> (\<forall>e. stored rt ix2 e \<longleftrightarrow> stored rt ix e \<and> \<not> is_gone (unix_time rt) e)
     \<and> set gone = {e. stored rt ix e \<and> is_gone (unix_time rt) e}
     \<and> distinct (map index_key gone) \<and> length gone \<le> n"
proof -
  let ?P = "is_gone (unix_time rt)"
  let ?gone = "map snd (filter (\<lambda>(k, e). ?P e) (visited rt ix))"
  let ?kept = "map (\<lambda>m. filter (\<lambda>(k, e). \<not> ?P e) (um_iter (um_order rt) m)) (indexes ix)"
  let ?ix = "\<lparr>indexes = ?kept, expiring = False\<rparr>"
  note vis = visited_set [OF assms(1,2)]
  have keys: "index_key e = k" if "(k, e) \<in> set (visited rt ix)" for k e
    using that vis lookup_key [OF assms(1)] by blast
  have "set ?gone = {e. stored rt ix e \<and> ?P e}"
    unfolding stored_def by (auto simp: image_iff vis) (use keys vis in blast)+
  moreover have "map index_key ?gone = map fst (filter (\<lambda>(k, e). ?P e) (visited rt ix))"
    using keys by auto
  then have "distinct (map index_key ?gone)"
    using distinct_map_filter [OF visited_distinct [OF assms(1,2)]] by (simp only:)
  ultimately show ?thesis
    using expire_events_eq [OF assms refl refl] kept_inv [OF assms(1,2) refl, of ?P False]
    by (intro exI [of _ "length (visited rt ix)"] exI [of _ ?gone] exI [of _ ?ix])
       (simp add: stored_def)
qed

theorem expire_events_exact_witness:
  "\<exists>n gone ix2. expire_events (rt_at 100)
         [(k_default_index, Some (\<lambda>e. emit [Notify e] ()))] (store (rt_at 5) new_index (set_time 3 empty_event)) =
       (emit (PreGauge n # PostGauge (n - length gone) # expired_reports gone) (), ix2)
     \<and> set gone = {set_time 3 empty_event}"
proof -
  let ?e = "set_time 3 empty_event"
  let ?ix = "store (rt_at 100) new_index ?e"
  have rt: "store (rt_at 5) new_index ?e = ?ix" by (simp add: store_def shard_of_def rt_at_def)
  have t: "int64_of_fp (ttl empty_event) = Inr 0" by (simp add: event_defs int64_range_def)
  have "all_expirable ?ix" by (intro all_expirable_store) (simp_all add: expirable_def t int64_range_def)
  moreover have "stored (rt_at 100) ?ix e \<and> is_gone 100 e \<longleftrightarrow> e = ?e" for e
    by (auto simp: stored_def lookup_store is_gone_def index_expired_def t int64_range_def)
  moreover have "notifies [(k_default_index, Some (\<lambda>e. emit [Notify e] ()))]"
    by (simp add: notifies_def publish_def)
  ultimately show ?thesis
    using expire_events_exact [of "rt_at 100" ?ix "[(k_default_index, Some (\<lambda>e. emit [Notify e] ()))]"]
    by (simp add: store_inv rt) (metis singleton_conv)
qed

section \<open>Queries\<close>

lemma query_entries_total:
  assumes "n = 0 \<or> length acc < n"
  shows "query_entries (\<lambda>e. Inr (P e)) n acc es =
     Inr (n \<noteq> 0 \<and> n \<le> length (acc @ filter P es),
          if n = 0 then acc @ filter P es else take n (acc @ filter P es))"
  using assms by (induction es arbitrary: acc) (auto simp: take_Cons')

lemma query_shards_total:
  assumes "n = 0 \<or> length acc < n"
  shows "query_shards rt (\<lambda>e. Inr (P e)) n acc ms =
     (let found = acc @ filter P (map snd (concat (map (um_iter (um_order rt)) ms)))
      in Inr (if n = 0 then found else take n found))"
  using assms
proof (induction ms arbitrary: acc)
  case (Cons m ms)
  let ?new = "acc @ filter P (map snd (um_iter (um_order rt) m))"
  show ?case
  proof (cases "n \<noteq> 0 \<and> n \<le> length ?new")
    case True
    then have "take n (?new @ xs) = take n ?new" for xs by simp
    with True show ?thesis
      by (simp add: query_entries_total [OF Cons.prems] Let_def del: take_append)
  next
    case False
    then have n: "n = 0 \<or> length ?new < n" by auto
    then have "take n ?new = ?new \<or> n = 0" by auto
    with Cons.IH [OF n] False show ?thesis
      by (auto simp: query_entries_total [OF Cons.prems] Let_def simp del: take_append)
  qed
qed auto

lemma query_index_result:
  assumes "index_inv rt ix" "iteration_order (um_order rt)"
  shows "\<exists>found. query_index rt ix (\<lambda>e. Inr (P e)) n = Inr (if n = 0 then found else take n found)
     \<and> set found = {e. stored rt ix e \<and> P e} \<and> distinct (map index_key found)"
proof -
  let ?found = "filter P (map snd (visited rt ix))"
  note vis = visited_set [OF assms]
  have keys: "index_key (snd p) = fst p" if "p \<in> set (visited rt ix)" for p
    using that vis [of "fst p" "snd p"] lookup_key [OF assms(1)] by simp
  have "map index_key (map snd (visited rt ix)) = map fst (visited rt ix)"
    using keys by simp
  then have "distinct (map index_key ?found)"
    using visited_distinct [OF assms] by (simp only: distinct_map_filter)
  moreover have "set ?found = {e. stored rt ix e \<and> P e}"
    unfolding stored_def by (auto simp: image_iff vis) (use keys vis in force)+
  ultimately show ?thesis
    by (intro exI [of _ ?found]) (simp add: query_index_def query_shards_total visited_def Let_def)
qed

section \<open>The interface of an index\<close>

text \<open>
  What the streams and the websocket clients rely on: an index is a dictionary from keys to the
  event added last under that key, and a query enumerates matching events of it.
\<close>

locale event_index =
  fixes key :: "'e \<Rightarrow> 'k"
    and inv :: "'s \<Rightarrow> bool"
    and look :: "'s \<Rightarrow> 'k \<Rightarrow> 'e option"
    and add :: "'s \<Rightarrow> 'e \<Rightarrow> 's"
    and query :: "'s \<Rightarrow> ('e \<Rightarrow> bool) \<Rightarrow> nat \<Rightarrow> 'x + 'e list"
  assumes add_inv: "inv s \<Longrightarrow> inv (add s e)"
    and look_add: "inv s \<Longrightarrow> look (add s e) k = (if k = key e then Some e else look s k)"
    and query_finds: "inv s \<Longrightarrow> \<exists>found. query s P n = Inr (if n = 0 then found else take n found)
          \<and> set found = {e. look s (key e) = Some e \<and> P e} \<and> distinct (map key found)"
begin

lemma adds_inv: "inv s \<Longrightarrow> inv (foldl add s es)"
  by (induction es arbitrary: s) (auto intro: add_inv)

lemma look_adds:
  "inv s \<Longrightarrow> look (foldl add s es) k =
     (case filter (\<lambda>e. key e = k) es of [] \<Rightarrow> look s k | xs \<Rightarrow> Some (last xs))"
  by (induction es rule: rev_induct) (auto simp: look_add adds_inv split: list.splits)

lemma query_all:
  assumes "inv s" "\<And>k. look s k = None"
  shows "\<exists>found. query (foldl add s es) P 0 = Inr found \<and> distinct (map key found)
     \<and> set found = {e \<in> set es. last (filter (\<lambda>e'. key e' = key e) es) = e \<and> P e}"
proof -
  have "look (foldl add s es) (key e) = Some e
      \<longleftrightarrow> e \<in> set es \<and> last (filter (\<lambda>e'. key e' = key e) es) = e" for e
  proof -
    let ?xs = "filter (\<lambda>e'. key e' = key e) es"
    have "?xs \<noteq> [] \<Longrightarrow> last ?xs \<in> set es" using last_in_set [of ?xs] by auto
    moreover have "e \<in> set es \<Longrightarrow> ?xs \<noteq> []" by (auto simp: filter_empty_conv)
    ultimately show ?thesis
      using look_adds [OF assms(1), of es "key e"] assms(2) by (auto split: list.splits)
  qed
  with query_finds [OF adds_inv [OF assms(1)], of es P 0] show ?thesis by auto
qed

end

interpretation rix: event_index index_key "\<lambda>ix. index_inv rt ix \<and> iteration_order (um_order rt)"
    "lookup rt" "store rt" "\<lambda>ix P. query_index rt ix (\<lambda>e. Inr (P e))" for rt
  by unfold_locales (use query_index_result in \<open>auto simp: store_inv lookup_store stored_def\<close>)

text \<open>
  C14. A query without limit on an index that received the events \<open>es\<close> returns, once each, the events
  that match and that no later event with the same host and service key replaced; a limit of \<open>n\<close>
  returns the first \<open>n\<close> of them.
\<close>

theorem query_index_latest:
  assumes "iteration_order (um_order rt)"
  shows "\<exists>found. (\<forall>n. query_index rt (foldl (\<lambda>ix e. snd (add_event rt p ix e)) new_index es) (\<lambda>e. Inr (P e)) n =
            Inr (if n = 0 then found else take n found))
     \<and> distinct (map index_key found)
     \<and> set found = {e \<in> set es. last (filter (\<lambda>e'. index_key e' = index_key e) es) = e \<and> P e}"
proof -
  let ?ix = "foldl (store rt) new_index es"
  from rix.query_all [OF _ lookup_new, of rt es P] assms obtain found where
    "query_index rt ?ix (\<lambda>e. Inr (P e)) 0 = Inr found" "distinct (map index_key found)"
    "set found = {e \<in> set es. last (filter (\<lambda>e'. index_key e' = index_key e) es) = e \<and> P e}"
    by auto
  moreover from this(1) have
    "query_index rt ?ix (\<lambda>e. Inr (P e)) n = Inr (if n = 0 then found else take n found)" for n
    by (simp add: query_index_def query_shards_total)
  ultimately show ?thesis unfolding snd_add_event by blast
qed

theorem query_index_latest_witness:
  "iteration_order (um_order (rt_at 5))
   \<and> (\<exists>found. query_index (rt_at 5) (foldl (\<lambda>ix e. snd (add_event (rt_at 5) [] ix e)) new_index
          [set_host ''a'' empty_event, set_host ''b'' empty_event, set_host ''a'' (set_state ''ok'' empty_event)])
          (\<lambda>e. Inr (host e = ''a'')) 0 = Inr found
        \<and> set found = {set_host ''a'' (set_state ''ok'' empty_event)})"
proof -
  let ?a = "set_host ''a'' empty_event" and ?b = "set_host ''b'' empty_event"
    and ?c = "set_host ''a'' (set_state ''ok'' empty_event)"
  have sel: "{e \<in> set [a, b, c]. last (filter (\<lambda>e'. index_key e' = index_key e) [a, b, c]) = e \<and> host e = ''a''} = {c}"
    if "index_key a = ''a-''" "index_key b = ''b-''" "index_key c = ''a-''" "a \<noteq> c"
      "host b = ''b''" "host c = ''a''" for a b c
    unfolding set_filter [symmetric] using that by simp
  have "state ?a \<noteq> state ?c" by (simp add: event_defs)
  then have "?a \<noteq> ?c" by metis
  then have c: "{e \<in> set [?a, ?b, ?c]. last (filter (\<lambda>e'. index_key e' = index_key e) [?a, ?b, ?c]) = e \<and> host e = ''a''}
      = {?c}"
    by (intro sel) (simp_all add: index_key_def event_defs)
  obtain found where
    "\<forall>n. query_index (rt_at 5) (foldl (\<lambda>ix e. snd (add_event (rt_at 5) [] ix e)) new_index [?a, ?b, ?c])
        (\<lambda>e. Inr (host e = ''a'')) n = Inr (if n = 0 then found else take n found)"
    "set found = {?c}"
    using query_index_latest [of "rt_at 5" "[]" "[?a, ?b, ?c]" "\<lambda>e. host e = ''a''"]
    unfolding c by (auto simp del: set_simps)
  then show ?thesis by (simp only: um_order_rt_at) auto
qed

end
