(* ===== verification/Stream_Lib.thy ===== *)
theory Stream_Lib
  imports Stream_Infra "HOL-Library.Word"
begin

text \<open>
  src/streams/lib.cpp and the closing half of src/rules_loader.cpp: the reference counter that
  keeps a rule library loaded while threads run its code. The counter's arithmetic is on 32-bit
  words. The protocol between the pushing threads and the loader is a step relation with one step
  per atomic access; its invariant ties the counter to the number of threads inside.
\<close>

unbundle bit_operations_syntax

section \<open>The namespace of a thread\<close>

text \<open>\<open>thread_ns\<close> is a thread-local pointer, null or an owned string.\<close>

type_synonym thread_ns = "string option"

definition k_global_ns :: string where "k_global_ns = ''global''"

definition free_thread_ns :: "thread_ns \<Rightarrow> thread_ns" where "free_thread_ns ns = None"

definition set_thread_ns :: "string \<Rightarrow> thread_ns \<Rightarrow> thread_ns" where "set_thread_ns s ns = Some s"

definition set_thread_global_ns :: "thread_ns \<Rightarrow> thread_ns" where
  "set_thread_global_ns ns = free_thread_ns ns"

definition get_thread_ns :: "thread_ns \<Rightarrow> string" where
  "get_thread_ns ns = (case ns of Some s \<Rightarrow> s | None \<Rightarrow> k_global_ns)"

section \<open>The reference counter\<close>

text \<open>Bit 0 says the slot is in use; the other bits count the threads inside.\<close>

type_synonym uint = "32 word"

definition used_bit :: "uint \<Rightarrow> bool" where "used_bit c \<longleftrightarrow> c AND 1 \<noteq> 0"

definition inc_value :: "uint \<Rightarrow> uint" where
  "inc_value current = push_bit 1 (drop_bit 1 current + 1) OR 1"

definition dec_value :: "uint \<Rightarrow> uint" where
  "dec_value current = push_bit 1 (drop_bit 1 current - 1) OR (current AND 1)"

definition set_used_bit :: "bool \<Rightarrow> uint \<Rightarrow> uint" where
  "set_used_bit used c = (if used then c OR 1 else c AND NOT 1)"

lemma used_bit_odd: "used_bit c \<longleftrightarrow> odd (unat c)"
  by (simp add: used_bit_def word_unat_eq_iff unsigned_and_eq) (simp add: and_one_eq even_iff_mod_2_eq_zero)

lemma unat_or_one: "unat (c OR 1) = unat (c :: uint) + of_bool (even (unat c))"
  unfolding unsigned_or_eq by (simp add: or_Suc_0_eq)

lemma unat_bound: "unat (c :: uint) < 2 ^ 32"
  using unsigned_less [where w = c and ?'a = nat] by simp

lemma unat_half: "unat (drop_bit 1 (c :: uint)) = unat c div 2"
  unfolding unsigned_drop_bit_eq
  using unat_bound [of c] by (simp add: drop_bit_eq_div take_bit_nat_eq_self)

lemma unat_double: "unat (c :: uint) < 2 ^ 31 \<Longrightarrow> unat (push_bit 1 c) = 2 * unat c"
  unfolding unsigned_push_bit_eq by (simp add: take_bit_nat_def push_bit_eq_mult)

lemma unat_inc_value:
  assumes "odd (unat c)" "unat c < 2 ^ 32 - 2"
  shows "unat (inc_value c) = unat c + 2"
proof -
  have "unat (drop_bit 1 c + 1) = unat c div 2 + 1"
    using assms unat_half [of c] by (simp add: unat_word_ariths)
  then show ?thesis
    using assms unat_double [of "drop_bit 1 c + 1"] by (simp add: inc_value_def unat_or_one)
qed

lemma unat_dec_value:
  assumes "2 \<le> unat c"
  shows "unat (dec_value c) = unat c - 2"
proof -
  have h: "unat (drop_bit 1 c - 1) = unat c div 2 - 1"
    using assms unat_half [of c] unat_bound [of c]
    by (subst unat_sub) (simp_all add: word_le_nat_alt)
  then have d: "unat (push_bit 1 (drop_bit 1 c - 1)) = 2 * (unat c div 2 - 1)"
    using unat_bound [of c] by (subst unat_double) simp_all
  show ?thesis
  proof (cases "used_bit c")
    case True
    then have "c AND 1 = 1" by (simp add: used_bit_def and_one_eq)
    with d True show ?thesis using assms by (simp add: dec_value_def unat_or_one used_bit_odd) presburger
  next
    case False
    then have "c AND 1 = 0" by (simp add: used_bit_def)
    with d False show ?thesis using assms by (simp add: dec_value_def used_bit_odd) presburger
  qed
qed

lemma unat_set_used: "unat (set_used_bit True c) = unat c + of_bool (even (unat c))"
  by (simp add: set_used_bit_def unat_or_one)

lemma unat_clear_used: "unat (set_used_bit False c) = unat c - of_bool (odd (unat c))"
proof (cases "used_bit c")
  case True
  then have "bit c 0" by (simp add: used_bit_def and_one_eq bit_0 odd_iff_mod_2_eq_one)
  then have "c AND NOT 1 = c - 1"
    by (intro disjunctive_diff [symmetric]) (auto simp: bit_1_iff)
  moreover have "1 \<le> unat c" using True by (auto simp: used_bit_odd intro: Suc_leI odd_pos)
  then have "unat (c - 1) = unat c - 1" by (subst unat_sub) (simp_all add: word_le_nat_alt)
  ultimately show ?thesis using True by (simp add: set_used_bit_def used_bit_odd)
next
  case False
  then have "\<not> bit c 0" by (simp add: used_bit_def and_one_eq bit_0 odd_iff_mod_2_eq_one)
  then have "c AND NOT 1 = c"
    by (intro bit_eqI) (auto simp: bit_simps bit_1_iff intro: gr0I)
  with False show ?thesis by (simp add: set_used_bit_def used_bit_odd)
qed

section \<open>Unloading against threads that push\<close>

text \<open>
  One slot, the threads that push events through it, and the thread that reloads rules. Every
  access to \<open>ref_counter\<close> is one step, so the steps of the threads interleave freely; a
  \<open>compare_exchange_strong\<close> either stores or reloads \<open>current\<close>.

  A pushing thread checks \<open>used()\<close> (\<open>streams::push_event\<close>), runs \<open>inc()\<close>, pushes the event through
  the library's code while it is \<open>Inside\<close>, and runs \<open>dec()\<close>. The loader clears the bit, polls until
  the counter is zero (\<open>close_library\<close>), removes the tasks of the library and calls \<open>dlclose\<close>, and
  later puts a library into the slot again (\<open>load_library\<close>).
\<close>

datatype pusher =
    Outside
  | Called               \<comment> \<open>in push_stream, before inc()\<close>
  | Inc uint             \<comment> \<open>in inc(), with its value of current\<close>
  | Inside
  | Dec uint             \<comment> \<open>in dec(), with its value of current\<close>

datatype loader = Serving | Closing | Drained | Closed

record lib_state =
  ref_counter :: uint
  pushers :: "pusher list"
  loader_at :: loader

definition pusher_at :: "lib_state \<Rightarrow> nat \<Rightarrow> pusher \<Rightarrow> bool" where
  "pusher_at s t p \<longleftrightarrow> t < length (pushers s) \<and> pushers s ! t = p"

definition move :: "nat \<Rightarrow> pusher \<Rightarrow> lib_state \<Rightarrow> lib_state" where
  "move t p s = s\<lparr>pushers := (pushers s)[t := p]\<rparr>"

inductive lib_step :: "lib_state \<Rightarrow> lib_state \<Rightarrow> bool" where
  check: "pusher_at s t Outside \<Longrightarrow> used_bit (ref_counter s) \<Longrightarrow> lib_step s (move t Called s)"
| inc_load: "pusher_at s t Called \<Longrightarrow> lib_step s (move t (Inc (ref_counter s)) s)"
| inc_abort: "pusher_at s t (Inc c) \<Longrightarrow> \<not> used_bit c \<Longrightarrow> lib_step s (move t Outside s)"
| inc_retry: "pusher_at s t (Inc c) \<Longrightarrow> used_bit c \<Longrightarrow> ref_counter s \<noteq> c
    \<Longrightarrow> lib_step s (move t (Inc (ref_counter s)) s)"
| inc_swap: "pusher_at s t (Inc c) \<Longrightarrow> used_bit c \<Longrightarrow> ref_counter s = c
    \<Longrightarrow> lib_step s (move t Inside s\<lparr>ref_counter := inc_value c\<rparr>)"
| dec_load: "pusher_at s t Inside \<Longrightarrow> lib_step s (move t (Dec (ref_counter s)) s)"
| dec_retry: "pusher_at s t (Dec c) \<Longrightarrow> ref_counter s \<noteq> c
    \<Longrightarrow> lib_step s (move t (Dec (ref_counter s)) s)"
| dec_swap: "pusher_at s t (Dec c) \<Longrightarrow> ref_counter s = c
    \<Longrightarrow> lib_step s (move t Outside s\<lparr>ref_counter := dec_value c\<rparr>)"
| close_lib: "loader_at s = Serving
    \<Longrightarrow> lib_step s (s\<lparr>ref_counter := set_used_bit False (ref_counter s), loader_at := Closing\<rparr>)"
| drain: "loader_at s = Closing \<Longrightarrow> ref_counter s = 0 \<Longrightarrow> lib_step s (s\<lparr>loader_at := Drained\<rparr>)"
| unload: "loader_at s = Drained \<Longrightarrow> lib_step s (s\<lparr>loader_at := Closed\<rparr>)"
| load: "loader_at s = Closed
    \<Longrightarrow> lib_step s (s\<lparr>ref_counter := set_used_bit True (ref_counter s), loader_at := Serving\<rparr>)"

definition lib_start :: "nat \<Rightarrow> lib_state" where
  "lib_start n = \<lparr>ref_counter = 0, pushers = replicate n Outside, loader_at = Closed\<rparr>"

definition holds :: "pusher \<Rightarrow> bool" where
  "holds p = (case p of Inside \<Rightarrow> True | Dec _ \<Rightarrow> True | _ \<Rightarrow> False)"

definition holders :: "lib_state \<Rightarrow> nat" where
  "holders s = length (filter holds (pushers s))"

definition lib_inv :: "nat \<Rightarrow> lib_state \<Rightarrow> bool" where
  "lib_inv n s \<longleftrightarrow> length (pushers s) = n
     \<and> unat (ref_counter s) = 2 * holders s + of_bool (loader_at s = Serving)
     \<and> (loader_at s \<in> {Drained, Closed} \<longrightarrow> holders s = 0)"

lemma holds_simps [simp]:
  "\<not> holds Outside" "\<not> holds Called" "\<not> holds (Inc c)" "holds Inside" "holds (Dec c)"
  by (simp_all add: holds_def)

lemma move_simps [simp]:
  "ref_counter (move t p s) = ref_counter s" "loader_at (move t p s) = loader_at s"
  "length (pushers (move t p s)) = length (pushers s)"
  "pushers (move t p s) = (pushers s)[t := p]"
  by (simp_all add: move_def)

lemma count_update:
  "i < length xs \<Longrightarrow>
     length (filter P (xs[i := x])) + of_bool (P (xs ! i)) = length (filter P xs) + of_bool (P x)"
proof (induction xs arbitrary: i)
  case (Cons y ys)
  then show ?case by (cases i) auto
qed simp

lemma holders_move:
  "pusher_at s t p \<Longrightarrow> holders (move t q s) + of_bool (holds p) = holders s + of_bool (holds q)"
  using count_update [of t "pushers s" holds q] by (simp add: holders_def pusher_at_def)

lemma holders_counter [simp]:
  "holders (s\<lparr>ref_counter := c\<rparr>) = holders s" "holders (s\<lparr>loader_at := l\<rparr>) = holders s"
  by (simp_all add: holders_def)

lemma holder_counted: "pusher_at s t p \<Longrightarrow> holds p \<Longrightarrow> 0 < holders s"
  by (force simp: holders_def pusher_at_def filter_empty_conv)

lemma holders_less: "pusher_at s t p \<Longrightarrow> \<not> holds p \<Longrightarrow> holders s < length (pushers s)"
  unfolding holders_def pusher_at_def by (metis length_filter_less nth_mem)

lemma lib_inv_move:
  "pusher_at s t p \<Longrightarrow> holds p = holds q \<Longrightarrow> lib_inv n (move t q s) = lib_inv n s"
  using holders_move [of s t p q] by (simp add: lib_inv_def)

lemma lib_inv_start: "lib_inv n (lib_start n)"
  by (simp add: lib_inv_def lib_start_def holders_def)

lemma lib_step_inv:
  assumes "lib_step s s'" "lib_inv n s" "n < 2 ^ 31"
  shows "lib_inv n s'"
  using assms
proof (induction rule: lib_step.induct)
  case (inc_swap s t c)
  then have "holders s < n" using holders_less [of s t] by (auto simp: lib_inv_def)
  moreover have "loader_at s = Serving"
    using inc_swap by (auto simp: lib_inv_def used_bit_odd split: if_splits)
  ultimately show ?case
    using inc_swap holders_move [OF inc_swap(1), of Inside] unat_inc_value [of c]
    by (simp add: lib_inv_def used_bit_odd)
next
  case (dec_swap s t c)
  then show ?case
    using holders_move [OF dec_swap(1), of Outside] unat_dec_value [of c] holder_counted [OF dec_swap(1)]
    by (auto simp: lib_inv_def)
next
  case (close_lib s)
  then show ?case by (simp add: lib_inv_def unat_clear_used)
next
  case (load s)
  then show ?case by (simp add: lib_inv_def unat_set_used)
qed (simp_all add: lib_inv_move, simp_all add: lib_inv_def)

lemma reachable_inv:
  assumes "lib_step\<^sup>*\<^sup>* (lib_start n) s" "n < 2 ^ 31"
  shows "lib_inv n s"
  using assms by (induction rule: rtranclp_induct) (auto intro: lib_inv_start lib_step_inv)

text \<open>
  C1. A library is never unloaded under a thread that runs its code: in every state that threads
  and loader can reach, whatever the interleaving, once the loader has seen the counter at zero no
  thread is between a successful \<open>inc()\<close> and the end of its \<open>dec()\<close>, until the slot is loaded
  again. The number of threads is below \<open>2^31\<close>, so that the counter cannot overflow.
\<close>

theorem unload_safe:
  assumes "lib_step\<^sup>*\<^sup>* (lib_start n) s" "n < 2 ^ 31" "loader_at s \<in> {Drained, Closed}"
  shows "ref_counter s = 0 \<and> (\<forall>t < n. \<not> holds (pushers s ! t))"
proof -
  have i: "lib_inv n s" by (rule reachable_inv [OF assms(1,2)])
  with assms(3) have "holders s = 0" "unat (ref_counter s) = 0" by (auto simp: lib_inv_def)
  with i show ?thesis
    by (auto simp: holders_def lib_inv_def filter_empty_conv unat_eq_0)
qed

definition lib_idle :: "loader \<Rightarrow> lib_state" where
  "lib_idle l = \<lparr>ref_counter = of_bool (l = Serving), pushers = [Outside], loader_at = l\<rparr>"

lemma lib_idle_steps:
  "lib_step (lib_idle Closed) (lib_idle Serving)" "lib_step (lib_idle Serving) (lib_idle Closing)"
  "lib_step (lib_idle Closing) (lib_idle Drained)" "lib_step (lib_idle Drained) (lib_idle Closed)"
  using load [of "lib_idle Closed"] close_lib [of "lib_idle Serving"] drain [of "lib_idle Closing"]
    unload [of "lib_idle Drained"]
  by (simp_all add: lib_idle_def set_used_bit_def)

lemma lib_idle_closing: "lib_step\<^sup>*\<^sup>* (lib_start 1) (lib_idle Closing)"
proof -
  have "lib_start 1 = lib_idle Closed" by (simp add: lib_start_def lib_idle_def)
  then show ?thesis using lib_idle_steps(1,2) by (simp add: converse_rtranclp_into_rtranclp)
qed

theorem unload_safe_witness:
  "ref_counter (lib_idle Drained) = 0 \<and> \<not> holds (pushers (lib_idle Drained) ! 0)"
  using unload_safe [of 1 "lib_idle Drained"] lib_idle_closing lib_idle_steps(3)
  by (simp add: rtranclp.rtrancl_into_rtrancl lib_idle_def)

section \<open>The wait of the loader ends\<close>

definition remaining :: "uint \<Rightarrow> pusher \<Rightarrow> nat" where
  "remaining c p =
     (case p of Outside \<Rightarrow> 0 | Called \<Rightarrow> 2 | Inc d \<Rightarrow> if used_bit d then 2 else 1
      | Inside \<Rightarrow> 3 | Dec d \<Rightarrow> if d = c then 1 else 2)"

definition total_remaining :: "lib_state \<Rightarrow> nat" where
  "total_remaining s = sum_list (map (remaining (ref_counter s)) (pushers s))"

lemma sum_list_update_less:
  fixes f :: "'a \<Rightarrow> nat"
  assumes "i < length xs" "f x < f (xs ! i)"
  shows "sum_list (map f (xs[i := x])) < sum_list (map f xs)"
  using assms
proof (induction xs arbitrary: i)
  case (Cons y ys)
  then show ?case by (cases i) auto
qed simp

lemma total_remaining_move:
  "pusher_at s t p \<Longrightarrow> remaining (ref_counter s) q < remaining (ref_counter s) p
     \<Longrightarrow> total_remaining (move t q s) < total_remaining s"
  by (simp add: total_remaining_def pusher_at_def sum_list_update_less)

definition closing_order :: "(lib_state \<times> lib_state) set" where
  "closing_order = inv_image (less_than <*lex*> less_than) (\<lambda>s. (holders s, total_remaining s))"

lemma wf_closing_order: "wf closing_order"
  by (simp add: closing_order_def wf_lex_prod)

lemma closing_step_decreases:
  assumes "lib_step s s'" "lib_inv n s" "loader_at s = Closing"
  shows "loader_at s' = Drained \<or> loader_at s' = Closing \<and> (s', s) \<in> closing_order"
proof -
  have unused: "\<not> used_bit (ref_counter s)"
    using assms(2,3) by (simp add: lib_inv_def used_bit_odd)
  have mv: "(move t q s, s) \<in> closing_order"
    if "pusher_at s t p" "holds p = holds q" "remaining (ref_counter s) q < remaining (ref_counter s) p" for t p q
    using that holders_move [of s t p q] total_remaining_move [of s t p q] by (simp add: closing_order_def)
  from assms(1) show ?thesis
  proof cases
    case (dec_swap t c)
    then show ?thesis
      using assms(3) holders_move [of s t "Dec c" Outside] by (simp add: closing_order_def)
  qed (use unused mv assms(3) in \<open>auto simp: remaining_def\<close>)
qed

lemma closing_step_exists:
  assumes "lib_inv n s" "loader_at s = Closing"
  shows "\<exists>s'. lib_step s s'"
proof (cases "holders s = 0")
  case True
  with assms have "ref_counter s = 0" by (simp add: lib_inv_def unat_eq_0)
  with assms(2) show ?thesis by (blast intro: drain)
next
  case False
  then obtain p where "p \<in> set (pushers s)" "holds p"
    by (auto simp: holders_def filter_empty_conv)
  then obtain t where t: "pusher_at s t p" by (auto simp: pusher_at_def in_set_conv_nth)
  from \<open>holds p\<close> show ?thesis
  proof (cases p)
    case Inside
    with t show ?thesis by (blast intro: dec_load)
  next
    case (Dec c)
    with t show ?thesis by (cases "ref_counter s = c") (blast intro: dec_swap dec_retry)+
  qed simp_all
qed

text \<open>
  C16. \<open>close_library\<close> does not wait forever: while the loader waits some thread can always take a
  step, and in every infinite run the loader that starts to wait sees the counter reach zero,
  whatever the interleaving; no thread can enter meanwhile.
\<close>

theorem close_library_drains:
  assumes "lib_step\<^sup>*\<^sup>* (lib_start n) (r 0)" "n < 2 ^ 31" "loader_at (r 0) = Closing"
  shows "(\<exists>s. lib_step (r 0) s) \<and> ((\<forall>i. lib_step (r i) (r (Suc i))) \<longrightarrow> (\<exists>k. loader_at (r k) = Drained))"
proof -
  have "\<exists>k. loader_at (r k) = Drained"
    if steps: "\<forall>i. lib_step (r i) (r (Suc i))" and "lib_inv n (r j)" "loader_at (r j) = Closing" for j
    using that(2,3)
  proof (induction "r j" arbitrary: j rule: wf_induct_rule [OF wf_closing_order])
    case 1
    then have "lib_inv n (r (Suc j))" using steps lib_step_inv assms(2) by blast
    moreover have "loader_at (r (Suc j)) = Drained
        \<or> loader_at (r (Suc j)) = Closing \<and> (r (Suc j), r j) \<in> closing_order"
      using steps closing_step_decreases 1 by blast
    ultimately show ?case using 1(1) by blast
  qed
  then show ?thesis
    using reachable_inv [OF assms(1,2)] closing_step_exists assms(3) by blast
qed

theorem close_library_drains_witness:
  "\<exists>k. loader_at (lib_idle ([Closing, Drained, Closed, Serving] ! (k mod 4))) = Drained"
proof -
  let ?r = "\<lambda>i. lib_idle ([Closing, Drained, Closed, Serving] ! (i mod 4))"
  have "lib_step (?r i) (?r (Suc i))" for i
  proof -
    consider "i mod 4 = 0" | "i mod 4 = 1" | "i mod 4 = 2" | "i mod 4 = 3" by linarith
    then show ?thesis by cases (simp_all add: mod_Suc lib_idle_steps)
  qed
  moreover have "loader_at (?r 0) = Closing" by (simp add: lib_idle_def)
  moreover have "lib_step\<^sup>*\<^sup>* (lib_start 1) (?r 0)" using lib_idle_closing by simp
  ultimately show ?thesis using close_library_drains [of 1 ?r] by simp
qed

end
