(* ===== verification/Rules_Loader.thy ===== *)
theory Rules_Loader
  imports Stream_Lib "HOL-Library.Sublist"
begin

text \<open>
  src/rules_loader.cpp: loading, reloading and unloading the rule libraries of a directory into a
  fixed number of slots. The dynamic linker and the removal of a library's scheduled tasks are
  parameters; the wait for a slot's counter is the one analysed in Stream_Lib.
\<close>

section \<open>Libraries and slots\<close>

record lib_data =
  data_file :: string
  data_time :: int

record stream_lib =
  lib_file :: string
  last_write_time :: int
  handle :: "nat option"
  lib_stream :: streams_t
  counter_word :: uint

text \<open>
  The dynamic linker and the scheduler: \<open>dl_open\<close> gives a handle or fails, \<open>dl_rules\<close> is the stream
  that the library's function \<open>rules\<close> returns, none when the symbol is missing, \<open>dl_close\<close> and
  \<open>remove_ns_tasks\<close> say whether they succeeded.
\<close>

record linker =
  dl_open :: "string \<Rightarrow> nat option"
  dl_rules :: "nat \<Rightarrow> streams_t option"
  dl_close :: "nat option \<Rightarrow> bool"
  remove_ns_tasks :: "string \<Rightarrow> bool"

definition lib_used :: "stream_lib \<Rightarrow> bool" where
  "lib_used l = used_bit (counter_word l)"

text \<open>\<open>std::regex_match\<close> with the pattern \<open>.*\.so\<close>; a dot matches all but line terminators.\<close>

definition is_so :: "string \<Rightarrow> bool" where
  "is_so f \<longleftrightarrow> suffix ''.so'' f
     \<and> list_all (\<lambda>c. c \<noteq> CHR 0x0A \<and> c \<noteq> CHR 0x0D) (take (length f - 3) f)"

definition so_files :: "(string \<times> int) list \<Rightarrow> lib_data list" where
  "so_files dir = map (\<lambda>(f, t). \<lparr>data_file = f, data_time = t\<rparr>) (filter (\<lambda>(f, t). is_so f) dir)"

definition load_data :: "linker \<Rightarrow> lib_data \<Rightarrow> (nat \<times> streams_t) option" where
  "load_data ld lib =
     (case dl_open ld (data_file lib) of
        None \<Rightarrow> None
      | Some h \<Rightarrow> (case dl_rules ld h of None \<Rightarrow> None | Some s \<Rightarrow> Some (h, s)))"

definition load_library :: "linker \<Rightarrow> lib_data \<Rightarrow> stream_lib \<Rightarrow> stream_lib" where
  "load_library ld lib curr_lib =
     (case load_data ld lib of
        None \<Rightarrow> curr_lib
      | Some (h, s) \<Rightarrow>
          curr_lib\<lparr>lib_file := data_file lib, handle := Some h, last_write_time := data_time lib,
               lib_stream := init_streams s, counter_word := set_used_bit True (counter_word curr_lib)\<rparr>)"

text \<open>The wait for the counter is left with the counter at zero.\<close>

definition close_library :: "linker \<Rightarrow> stream_lib \<Rightarrow> bool \<times> stream_lib" where
  "close_library ld lib =
     (let drained = lib\<lparr>counter_word := 0\<rparr>
      in if \<not> remove_ns_tasks ld (lib_file lib) then (False, drained)
         else if dl_close ld (handle lib) then (True, drained\<lparr>handle := None\<rparr>)
         else (False, drained))"

section \<open>Loading the rules\<close>

type_synonym curr_map_t = "(string, nat) um"

definition make_curr_map :: "stream_lib list \<Rightarrow> curr_map_t" where
  "make_curr_map libs =
     foldl (\<lambda>m i. if lib_used (libs ! i) then um_set m (lib_file (libs ! i)) i else m) [] [0..<length libs]"

fun first_unused :: "stream_lib list \<Rightarrow> nat option" where
  "first_unused [] = None"
| "first_unused (l # ls) = (if lib_used l then map_option Suc (first_unused ls) else Some 0)"

definition load_one :: "linker \<Rightarrow> curr_map_t \<Rightarrow> lib_data \<Rightarrow> stream_lib list \<Rightarrow> stream_lib list" where
  "load_one ld curr_map lib libs =
     (case map_of curr_map (data_file lib) of
        Some i \<Rightarrow>
          if last_write_time (libs ! i) = data_time lib then libs
          else (case close_library ld (libs ! i) of
                  (False, l) \<Rightarrow> libs[i := l]
                | (True, l) \<Rightarrow> libs[i := load_library ld lib l])
      | None \<Rightarrow>
          (case first_unused libs of
             None \<Rightarrow> libs
           | Some i \<Rightarrow> libs[i := load_library ld lib (libs ! i)]))"

fun close_unused :: "linker \<Rightarrow> curr_map_t \<Rightarrow> string list \<Rightarrow> stream_lib list \<Rightarrow> stream_lib list" where
  "close_unused ld curr_map [] libs = libs"
| "close_unused ld curr_map (f # fs) libs =
     (case map_of curr_map f of
        None \<Rightarrow> close_unused ld curr_map fs libs
      | Some i \<Rightarrow> close_unused ld curr_map fs (libs[i := snd (close_library ld (libs ! i))]))"

definition load_rules :: "runtime \<Rightarrow> linker \<Rightarrow> (string \<times> int) list \<Rightarrow> stream_lib list \<Rightarrow> stream_lib list"
where
  "load_rules rt ld dir libs =
     (let curr_map = make_curr_map libs;
          files = so_files dir;
          unused = filter (\<lambda>f. f \<notin> set (map data_file files)) (map fst curr_map)
      in close_unused ld curr_map (um_order rt unused) (foldl (\<lambda>ls lib. load_one ld curr_map lib ls) libs files))"

section \<open>The slots in use\<close>

definition in_slot :: "stream_lib list \<Rightarrow> nat \<Rightarrow> string \<Rightarrow> bool" where
  "in_slot libs i f \<longleftrightarrow> i < length libs \<and> lib_used (libs ! i) \<and> lib_file (libs ! i) = f"

definition slots_inv :: "stream_lib list \<Rightarrow> bool" where
  "slots_inv libs \<longleftrightarrow> (\<forall>i j f. in_slot libs i f \<and> in_slot libs j f \<longrightarrow> i = j)"

definition loaded :: "stream_lib list \<Rightarrow> string set" where
  "loaded libs = {f. \<exists>i. in_slot libs i f}"

lemma lib_used_set [simp]:
  "lib_used (l\<lparr>counter_word := set_used_bit True c\<rparr>)" "\<not> lib_used (l\<lparr>counter_word := 0\<rparr>)"
  by (simp_all add: lib_used_def used_bit_odd unat_set_used)

lemma make_curr_map_prefix:
  assumes "slots_inv libs" "n \<le> length libs"
  defines "m \<equiv> foldl (\<lambda>m i. if lib_used (libs ! i) then um_set m (lib_file (libs ! i)) i else m) [] [0..<n]"
  shows "um_wf m \<and> (map_of m f = Some i \<longleftrightarrow> i < n \<and> in_slot libs i f)"
  using assms(2) unfolding m_def
proof (induction n arbitrary: f i)
  case (Suc n)
  then have n: "n < length libs" by simp
  let ?m = "foldl (\<lambda>m i. if lib_used (libs ! i) then um_set m (lib_file (libs ! i)) i else m) [] [0..<n]"
  have IH: "um_wf ?m" "map_of ?m g = Some j \<longleftrightarrow> j < n \<and> in_slot libs j g" for g j
    using Suc by simp_all
  show ?case
  proof (cases "lib_used (libs ! n)")
    case True
    then have here: "in_slot libs n (lib_file (libs ! n))" using n by (simp add: in_slot_def)
    have "in_slot libs n f \<longleftrightarrow> f = lib_file (libs ! n)" using here by (auto simp: in_slot_def)
    moreover have "i = n" if "in_slot libs i (lib_file (libs ! n))" for i
      using assms(1) that here by (auto simp: slots_inv_def)
    ultimately show ?thesis
      using IH True here by (auto simp: less_Suc_eq)
  next
    case False
    with IH show ?thesis by (auto simp: less_Suc_eq in_slot_def)
  qed
qed simp

lemma make_curr_map:
  assumes "slots_inv libs"
  shows "um_wf (make_curr_map libs)" "map_of (make_curr_map libs) f = Some i \<longleftrightarrow> in_slot libs i f"
  using make_curr_map_prefix [OF assms, of "length libs"]
  by (auto simp: make_curr_map_def in_slot_def)

lemma first_unused_None: "first_unused libs = None \<longleftrightarrow> (\<forall>l\<in>set libs. lib_used l)"
  by (induction libs) auto

lemma first_unused_Some:
  "first_unused libs = Some i \<Longrightarrow> i < length libs \<and> \<not> lib_used (libs ! i)"
  by (induction libs arbitrary: i) (auto split: if_splits)

lemma loaded_card: "slots_inv libs \<Longrightarrow> \<forall>l\<in>set libs. lib_used l \<Longrightarrow> card (loaded libs) = length libs"
proof -
  assume inv: "slots_inv libs" and all: "\<forall>l\<in>set libs. lib_used l"
  have "loaded libs = (\<lambda>i. lib_file (libs ! i)) ` {..<length libs}"
    using all by (force simp: loaded_def in_slot_def)
  moreover have "inj_on (\<lambda>i. lib_file (libs ! i)) {..<length libs}"
    using inv all by (auto simp: inj_on_def slots_inv_def in_slot_def)
  ultimately show ?thesis by (simp add: card_image)
qed

definition healthy :: "linker \<Rightarrow> bool" where
  "healthy ld \<longleftrightarrow> (\<forall>f. \<exists>h s. dl_open ld f = Some h \<and> dl_rules ld h = Some s)
     \<and> (\<forall>h. dl_close ld h) \<and> (\<forall>f. remove_ns_tasks ld f)"

definition map_ok :: "curr_map_t \<Rightarrow> stream_lib list \<Rightarrow> bool" where
  "map_ok curr_map libs \<longleftrightarrow> (\<forall>f i. map_of curr_map f = Some i \<longrightarrow> in_slot libs i f)"

lemma in_slot_update:
  "i < length libs \<Longrightarrow>
     in_slot (libs[i := l]) j f \<longleftrightarrow> (if j = i then lib_used l \<and> lib_file l = f else in_slot libs j f)"
  by (auto simp: in_slot_def)

lemma load_library_healthy:
  assumes "healthy ld"
  shows "lib_used (load_library ld lib l)" "lib_file (load_library ld lib l) = data_file lib"
    "last_write_time (load_library ld lib l) = data_time lib"
proof -
  obtain h s where "dl_open ld (data_file lib) = Some h" "dl_rules ld h = Some s"
    using assms unfolding healthy_def by blast
  then have "load_data ld lib = Some (h, s)" by (simp add: load_data_def)
  then show "lib_used (load_library ld lib l)" "lib_file (load_library ld lib l) = data_file lib"
    "last_write_time (load_library ld lib l) = data_time lib"
    by (simp_all add: load_library_def)
qed

lemma close_library_healthy: "healthy ld \<Longrightarrow> close_library ld l = (True, l\<lparr>counter_word := 0, handle := None\<rparr>)"
  by (simp add: healthy_def close_library_def)

text \<open>Placing file \<open>f\<close> in slot \<open>i\<close>, which was free or held \<open>f\<close> already.\<close>

lemma place_in_slot:
  assumes inv: "slots_inv libs" and i: "i < length libs" and l: "lib_used l" "lib_file l = f"
    and free: "\<not> lib_used (libs ! i) \<and> f \<notin> loaded libs \<or> in_slot libs i f"
  shows "slots_inv (libs[i := l])" "loaded (libs[i := l]) = insert f (loaded libs)"
    "in_slot (libs[i := l]) i f"
    "g \<noteq> f \<Longrightarrow> in_slot (libs[i := l]) j g = in_slot libs j g"
    "g \<noteq> f \<Longrightarrow> in_slot libs j g \<Longrightarrow> libs[i := l] ! j = libs ! j"
proof -
  have only: "j = i" if "in_slot libs j f" for j
    using that free inv unfolding slots_inv_def loaded_def by blast
  show "slots_inv (libs[i := l])"
    using inv only i l by (auto simp: slots_inv_def in_slot_update)
  show slot: "in_slot (libs[i := l]) i f" using i l by (simp add: in_slot_update)
  show other: "in_slot (libs[i := l]) j g = in_slot libs j g" if "g \<noteq> f" for g j
    using that free i l by (auto simp: in_slot_def nth_list_update split: if_splits)
  show "loaded (libs[i := l]) = insert f (loaded libs)"
  proof (intro set_eqI)
    show "g \<in> loaded (libs[i := l]) \<longleftrightarrow> g \<in> insert f (loaded libs)" for g
      using slot other [of g] by (cases "g = f") (auto simp: loaded_def)
  qed
  show "libs[i := l] ! j = libs ! j" if "g \<noteq> f" "in_slot libs j g"
    using that free i by (cases "j = i") (auto simp: in_slot_def)
qed

lemma load_one_healthy:
  assumes "healthy ld" "slots_inv libs" "map_ok curr_map libs"
    and new: "map_of curr_map (data_file lib) = None \<Longrightarrow>
           data_file lib \<notin> loaded libs \<and> card (loaded libs) < length libs"
  defines "libs' \<equiv> load_one ld curr_map lib libs"
  shows "slots_inv libs' \<and> length libs' = length libs
     \<and> loaded libs' = insert (data_file lib) (loaded libs) \<and> map_ok curr_map libs'
     \<and> (\<exists>i. in_slot libs' i (data_file lib) \<and> last_write_time (libs' ! i) = data_time lib)
     \<and> (\<forall>j g. g \<noteq> data_file lib \<longrightarrow> in_slot libs j g \<longrightarrow> in_slot libs' j g \<and> libs' ! j = libs ! j)"
proof -
  let ?f = "data_file lib"
  have placed: ?thesis
    if "libs' = libs[i := load_library ld lib l]" "i < length libs"
      "\<not> lib_used (libs ! i) \<and> ?f \<notin> loaded libs \<or> in_slot libs i ?f"
      "\<forall>j. map_of curr_map ?f = Some j \<longrightarrow> j = i" for i l
  proof -
    note p = place_in_slot [OF assms(2) that(2) load_library_healthy(1,2) [OF assms(1)] that(3)]
    have "map_ok curr_map libs'"
      unfolding map_ok_def that(1)
    proof (intro allI impI)
      fix g j assume "map_of curr_map g = Some j"
      then show "in_slot (libs[i := load_library ld lib l]) j g"
        using p(3,4) that(4) assms(3) by (cases "g = ?f") (auto simp: map_ok_def)
    qed
    moreover have "\<exists>i. in_slot libs' i ?f \<and> last_write_time (libs' ! i) = data_time lib"
      using that(1,2) load_library_healthy(3) [OF assms(1)] p(3) [of l] by (intro exI [of _ i]) simp
    ultimately show ?thesis using p that(1) by simp
  qed
  show ?thesis
  proof (cases "map_of curr_map ?f")
    case (Some i)
    then have i: "in_slot libs i ?f" using assms(3) by (simp add: map_ok_def)
    show ?thesis
    proof (cases "last_write_time (libs ! i) = data_time lib")
      case True
      with Some i assms(2,3) show ?thesis by (auto simp: libs'_def load_one_def loaded_def)
    next
      case False
      with Some i show ?thesis
        by (intro placed [of i "(libs ! i)\<lparr>counter_word := 0, handle := None\<rparr>"])
           (auto simp: libs'_def load_one_def close_library_healthy [OF assms(1)] in_slot_def)
    qed
  next
    case None
    with new assms(2) loaded_card obtain i where i: "first_unused libs = Some i"
      by (metis first_unused_None nat_neq_iff option.exhaust)
    with None new first_unused_Some [OF i] show ?thesis
      by (intro placed [of i "libs ! i"]) (auto simp: libs'_def load_one_def)
  qed
qed

lemma load_all_healthy:
  assumes "healthy ld" "slots_inv libs" "map_ok curr_map libs" "distinct (map data_file files)"
    and "card (loaded libs \<union> set (map data_file files)) \<le> length libs" "finite (loaded libs)"
    and "\<forall>lib\<in>set files. map_of curr_map (data_file lib) = None \<longrightarrow> data_file lib \<notin> loaded libs"
  defines "libs' \<equiv> foldl (\<lambda>ls lib. load_one ld curr_map lib ls) libs files"
  shows "slots_inv libs' \<and> length libs' = length libs
     \<and> loaded libs' = loaded libs \<union> set (map data_file files) \<and> map_ok curr_map libs'
     \<and> (\<forall>lib\<in>set files. \<exists>i. in_slot libs' i (data_file lib) \<and> last_write_time (libs' ! i) = data_time lib)
     \<and> (\<forall>j g. g \<notin> set (map data_file files) \<longrightarrow> in_slot libs j g \<longrightarrow> libs' ! j = libs ! j)"
  using assms(2-7) unfolding libs'_def
proof (induction files arbitrary: libs)
  case (Cons lib files)
  let ?f = "data_file lib" and ?libs = "load_one ld curr_map lib libs"
  have "card (loaded libs) < length libs" if "?f \<notin> loaded libs"
  proof -
    have "card (insert ?f (loaded libs)) \<le> card (loaded libs \<union> set (map data_file (lib # files)))"
      using Cons.prems(5) by (intro card_mono) auto
    with that Cons.prems(4,5) show ?thesis by simp
  qed
  with Cons.prems load_one_healthy [OF assms(1) Cons.prems(1,2), of lib]
  have one: "slots_inv ?libs \<and> length ?libs = length libs
     \<and> loaded ?libs = insert ?f (loaded libs) \<and> map_ok curr_map ?libs
     \<and> (\<exists>i. in_slot ?libs i ?f \<and> last_write_time (?libs ! i) = data_time lib)
     \<and> (\<forall>j g. g \<noteq> ?f \<longrightarrow> in_slot libs j g \<longrightarrow> in_slot ?libs j g \<and> ?libs ! j = libs ! j)"
    by simp
  let ?fin = "foldl (\<lambda>ls lib. load_one ld curr_map lib ls) ?libs files"
  have rest: "slots_inv ?fin \<and> length ?fin = length ?libs
     \<and> loaded ?fin = loaded ?libs \<union> set (map data_file files) \<and> map_ok curr_map ?fin
     \<and> (\<forall>lib\<in>set files. \<exists>i. in_slot ?fin i (data_file lib) \<and> last_write_time (?fin ! i) = data_time lib)
     \<and> (\<forall>j g. g \<notin> set (map data_file files) \<longrightarrow> in_slot ?libs j g \<longrightarrow> ?fin ! j = ?libs ! j)"
    using one Cons.prems by (intro Cons.IH) (auto, metis image_eqI)
  obtain i where i: "in_slot ?libs i ?f" "last_write_time (?libs ! i) = data_time lib" using one by blast
  then have "?fin ! i = ?libs ! i" using rest Cons.prems(3) by auto
  with i rest have "in_slot ?fin i ?f \<and> last_write_time (?fin ! i) = data_time lib"
    by (simp add: in_slot_def)
  with one rest show ?case by auto
qed auto

lemma close_unused_healthy:
  assumes "healthy ld" "slots_inv libs" "distinct fs"
    and "\<forall>f\<in>set fs. \<exists>i. map_of curr_map f = Some i \<and> in_slot libs i f"
  defines "libs' \<equiv> close_unused ld curr_map fs libs"
  shows "length libs' = length libs \<and> (in_slot libs' i g \<longleftrightarrow> in_slot libs i g \<and> g \<notin> set fs)
     \<and> (g \<notin> set fs \<longrightarrow> in_slot libs i g \<longrightarrow> libs' ! i = libs ! i)"
  using assms(2-4) unfolding libs'_def
proof (induction fs arbitrary: libs)
  case (Cons f fs)
  then obtain k where k: "map_of curr_map f = Some k" "in_slot libs k f" by auto
  let ?libs = "libs[k := (libs ! k)\<lparr>counter_word := 0, handle := None\<rparr>]"
  have u: "in_slot ?libs j h \<longleftrightarrow> j \<noteq> k \<and> in_slot libs j h" for j h
    using k(2) by (auto simp: in_slot_def lib_used_def used_bit_odd nth_list_update)
  have drop: "j \<noteq> k \<and> in_slot libs j h \<longleftrightarrow> in_slot libs j h \<and> h \<noteq> f" for j h
    using k(2) Cons.prems(1) by (auto simp: slots_inv_def) (auto simp: in_slot_def)
  have "\<forall>f\<in>set fs. \<exists>i. map_of curr_map f = Some i \<and> in_slot ?libs i f"
    using Cons.prems(2,3) u drop by auto
  moreover have "slots_inv ?libs" using Cons.prems(1) u by (auto simp: slots_inv_def)
  ultimately have IH: "length (close_unused ld curr_map fs ?libs) = length ?libs
     \<and> (in_slot (close_unused ld curr_map fs ?libs) i g \<longleftrightarrow> in_slot ?libs i g \<and> g \<notin> set fs)
     \<and> (g \<notin> set fs \<longrightarrow> in_slot ?libs i g \<longrightarrow> close_unused ld curr_map fs ?libs ! i = ?libs ! i)"
    using Cons.prems(2) by (intro Cons.IH) simp_all
  have "close_unused ld curr_map (f # fs) libs = close_unused ld curr_map fs ?libs"
    using k(1) by (simp add: close_library_healthy [OF assms(1)])
  moreover have "?libs ! i = libs ! i" if "in_slot libs i g" "g \<noteq> f"
    using that drop [of i g] by simp
  ultimately show ?case using IH u drop by auto
qed simp

lemma finite_loaded: "finite (loaded libs)"
proof -
  have "loaded libs \<subseteq> lib_file ` set libs" by (auto simp: loaded_def in_slot_def)
  then show ?thesis by (rule finite_subset) simp
qed

lemma curr_map_files: "slots_inv libs \<Longrightarrow> set (map fst (make_curr_map libs)) = loaded libs"
proof (intro set_eqI)
  fix f assume inv: "slots_inv libs"
  have "f \<in> set (map fst (make_curr_map libs)) \<longleftrightarrow> (\<exists>i. map_of (make_curr_map libs) f = Some i)"
    by (metis map_of_eq_None_iff not_None_eq set_map)
  then show "f \<in> set (map fst (make_curr_map libs)) \<longleftrightarrow> f \<in> loaded libs"
    by (simp add: make_curr_map(2) [OF inv] loaded_def)
qed

definition so_names :: "(string \<times> int) list \<Rightarrow> string set" where
  "so_names dir = {f. \<exists>t. (f, t) \<in> set dir \<and> is_so f}"

lemma so_files_names:
  "set (map data_file (so_files dir)) = so_names dir"
  "distinct (map fst dir) \<Longrightarrow> distinct (map data_file (so_files dir))"
proof -
  show "set (map data_file (so_files dir)) = so_names dir" by (force simp: so_files_def so_names_def)
  have "map data_file (so_files dir) = map fst (filter (\<lambda>(f, t). is_so f) dir)"
    by (simp add: so_files_def case_prod_beta' comp_def)
  then show "distinct (map fst dir) \<Longrightarrow> distinct (map data_file (so_files dir))"
    by (simp add: distinct_map_filter)
qed

text \<open>The slots after the loop that loads, and after the loop that closes what is left.\<close>

lemma load_rules_loop:
  assumes "healthy ld" "slots_inv libs" "distinct (map fst dir)"
    and "card (loaded libs \<union> so_names dir) \<le> length libs"
  defines "mid \<equiv> foldl (\<lambda>ls lib. load_one ld (make_curr_map libs) lib ls) libs (so_files dir)"
  shows "slots_inv mid" "loaded mid = loaded libs \<union> so_names dir" "map_ok (make_curr_map libs) mid"
    "\<forall>lib\<in>set (so_files dir). \<exists>i. in_slot mid i (data_file lib) \<and> last_write_time (mid ! i) = data_time lib"
proof -
  note cm = make_curr_map [OF assms(2)]
  have "map_ok (make_curr_map libs) libs" by (simp add: map_ok_def cm(2))
  moreover have "\<forall>lib\<in>set (so_files dir). map_of (make_curr_map libs) (data_file lib) = None
      \<longrightarrow> data_file lib \<notin> loaded libs"
    using cm(2) by (auto simp: loaded_def) (metis option.distinct(1))
  ultimately show "slots_inv mid" "loaded mid = loaded libs \<union> so_names dir" "map_ok (make_curr_map libs) mid"
    "\<forall>lib\<in>set (so_files dir). \<exists>i. in_slot mid i (data_file lib) \<and> last_write_time (mid ! i) = data_time lib"
    using load_all_healthy [OF assms(1,2) _ so_files_names(2) [OF assms(3)], of "make_curr_map libs"]
      finite_loaded [of libs] assms(4) unfolding so_files_names(1) mid_def by simp_all
qed

lemma load_rules_slots:
  assumes "healthy ld" "iteration_order (um_order rt)" "slots_inv libs"
    and mid: "mid = foldl (\<lambda>ls lib. load_one ld (make_curr_map libs) lib ls) libs (so_files dir)"
    and "slots_inv mid" "map_ok (make_curr_map libs) mid"
  shows "in_slot (load_rules rt ld dir libs) i g \<longleftrightarrow> in_slot mid i g \<and> g \<notin> loaded libs - so_names dir"
    "g \<notin> loaded libs - so_names dir \<Longrightarrow> in_slot mid i g \<Longrightarrow> load_rules rt ld dir libs ! i = mid ! i"
proof -
  let ?cm = "make_curr_map libs"
  let ?unused = "filter (\<lambda>f. f \<notin> set (map data_file (so_files dir))) (map fst ?cm)"
  have ord: "mset (um_order rt ?unused) = mset ?unused" using assms(2) by (simp add: iteration_order_def)
  have "set ?unused = loaded libs - so_names dir"
    using curr_map_files [OF assms(3)] so_files_names(1) [of dir] by auto
  with ord have un: "set (um_order rt ?unused) = loaded libs - so_names dir" by (metis set_mset_mset)
  have "distinct (map fst ?cm)" using make_curr_map(1) [OF assms(3)] by (simp add: um_wf_def)
  with ord have d: "distinct (um_order rt ?unused)" by (metis distinct_filter mset_eq_imp_distinct_iff)
  have "\<forall>f\<in>set (um_order rt ?unused). \<exists>i. map_of ?cm f = Some i \<and> in_slot mid i f"
    using assms(6) un by (auto simp: map_ok_def loaded_def make_curr_map(2) [OF assms(3), symmetric])
  note close_unused_healthy [OF assms(1,5) d this]
  moreover have "load_rules rt ld dir libs = close_unused ld ?cm (um_order rt ?unused) mid"
    by (simp add: load_rules_def Let_def mid)
  ultimately show "in_slot (load_rules rt ld dir libs) i g \<longleftrightarrow> in_slot mid i g \<and> g \<notin> loaded libs - so_names dir"
    "g \<notin> loaded libs - so_names dir \<Longrightarrow> in_slot mid i g \<Longrightarrow> load_rules rt ld dir libs ! i = mid ! i"
    unfolding un by simp_all
qed



end
