(* ===== verification/Instrumentation.thy ===== *)
theory Instrumentation
  imports Streams "HOL-Library.Word"
begin

text \<open>
  src/instrumentation: gauges and rates on wrapping 32-bit counters, sample reservoirs, the events
  that report percentiles, and the registry that hands them out and takes snapshots. The clock of
  the rates, the random draws of the reservoirs, the host's name and the memory figures are
  arguments.
\<close>

section \<open>Doubles in order\<close>

text \<open>
  The order of doubles that \<open>std::stable_sort\<close> sorts by; on numbers it is \<open>fp_lt\<close>. A NaN is put
  above them to make the order linear, but sorting NaNs is undefined in the program.
\<close>

instantiation fp :: linorder
begin

definition less_fp :: "fp \<Rightarrow> fp \<Rightarrow> bool" where
  "less_fp x y = (x \<noteq> NaN \<and> (y = NaN \<or> fp_lt x y))"

definition less_eq_fp :: "fp \<Rightarrow> fp \<Rightarrow> bool" where
  "less_eq_fp x y = (x = y \<or> x < y)"

instance
proof
  fix x y z :: fp
  show "x < y \<longleftrightarrow> x \<le> y \<and> \<not> y \<le> x"
    by (cases x; cases y) (auto simp: less_eq_fp_def less_fp_def)
  show "x \<le> x" by (simp add: less_eq_fp_def)
  show "x \<le> z" if "x \<le> y" "y \<le> z"
    using that by (cases x; cases y; cases z) (auto simp: less_eq_fp_def less_fp_def)
  show "x = y" if "x \<le> y" "y \<le> x"
    using that by (cases x; cases y) (auto simp: less_eq_fp_def less_fp_def)
  show "x \<le> y \<or> y \<le> x"
    by (cases x; cases y) (auto simp: less_eq_fp_def less_fp_def)
qed

end

section \<open>Gauges\<close>

type_synonym gauge = "32 word"

definition new_gauge :: gauge where "new_gauge = 0"

definition gauge_update :: "32 word \<Rightarrow> gauge \<Rightarrow> gauge" where "gauge_update ticks g = ticks"

definition gauge_incr :: "32 word \<Rightarrow> gauge \<Rightarrow> gauge" where "gauge_incr ticks g = g + ticks"

definition gauge_decr :: "32 word \<Rightarrow> gauge \<Rightarrow> gauge" where "gauge_decr ticks g = g - ticks"

definition gauge_snapshot :: "gauge \<Rightarrow> 32 word" where "gauge_snapshot g = g"

section \<open>Rates\<close>

text \<open>The clock is read in milliseconds, the unit the program converts to.\<close>

record rate =
  rate_counter :: "32 word"
  rate_start :: int

definition new_rate :: "int \<Rightarrow> rate" where
  "new_rate now = \<lparr>rate_counter = 0, rate_start = now\<rparr>"

definition rate_add :: "32 word \<Rightarrow> rate \<Rightarrow> rate" where
  "rate_add ticks r = r\<lparr>rate_counter := rate_counter r + ticks\<rparr>"

definition rate_snapshot :: "int \<Rightarrow> rate \<Rightarrow> fp \<times> rate" where
  "rate_snapshot now r =
     (fp_mul (fp_div (double_of_int (uint (rate_counter r))) (double_of_int (now - rate_start r))) (Fin 1000),
      \<lparr>rate_counter = 0, rate_start = now\<rparr>)"

definition rate_reset :: "int \<Rightarrow> rate \<Rightarrow> rate" where
  "rate_reset now r = \<lparr>rate_counter = 0, rate_start = now\<rparr>"

section \<open>Reservoirs\<close>

definition k_default_size :: nat where "k_default_size = 1000"

record reservoir =
  reservoir_size :: nat
  samples :: "fp list"
  sample_count :: "64 word"

definition new_reservoir :: reservoir where
  "new_reservoir =
     \<lparr>reservoir_size = k_default_size, samples = replicate k_default_size (Fin 0), sample_count = 0\<rparr>"

definition sized_reservoir :: "nat \<Rightarrow> reservoir" where
  "sized_reservoir n = \<lparr>reservoir_size = n, samples = replicate n (Fin 0), sample_count = 0\<rparr>"

definition put_sample :: "nat \<Rightarrow> fp \<Rightarrow> reservoir \<Rightarrow> exn + reservoir" where
  "put_sample i x r =
     (if i < length (samples r) then Inr (r\<lparr>samples := (samples r)[i := x]\<rparr>) else Inl Undefined)"

text \<open>\<open>draw\<close> is the random index; past the first samples the count goes up twice.\<close>

definition add_sample :: "nat \<Rightarrow> fp \<Rightarrow> reservoir \<Rightarrow> exn + reservoir" where
  "add_sample draw x r =
     (let idx = unat (sample_count r);
          r1 = r\<lparr>sample_count := sample_count r + 1\<rparr>
      in if idx < reservoir_size r then put_sample idx x r1
         else bind_exn (if draw < reservoir_size r then put_sample draw x r1 else Inr r1)
                (\<lambda>r2. Inr (r2\<lparr>sample_count := sample_count r2 + 1\<rparr>)))"

definition reservoir_snapshot :: "reservoir \<Rightarrow> fp list \<times> reservoir" where
  "reservoir_snapshot r =
     (samples r, r\<lparr>samples := replicate k_default_size (Fin 0), sample_count := 0\<rparr>)"

section \<open>Percentiles\<close>

definition sort_samples :: "fp list \<Rightarrow> exn + fp list" where
  "sort_samples xs = (if NaN \<in> set xs then Inl Undefined else Inr (sort xs))"

definition int32_of_fp :: "fp \<Rightarrow> exn + int" where
  "int32_of_fp x =
     bind_exn (int64_of_fp x) (\<lambda>i. if - (2 ^ 31) \<le> i \<and> i < 2 ^ 31 then Inr i else Inl Undefined)"

definition percentile_index :: "nat \<Rightarrow> fp \<Rightarrow> exn + int" where
  "percentile_index n p =
     (if fp_eq p (Fin 1) then Inr (int n - 1) else int32_of_fp (fp_mul (double_of_int (int n)) p))"

definition percentile_event :: "fp list \<Rightarrow> event \<Rightarrow> fp \<Rightarrow> exn + event" where
  "percentile_event xs base p =
     bind_exn (percentile_index (length xs) p) (\<lambda>i.
       if 0 \<le> i \<and> i < int (length xs)
       then Inr (set_metric_d (xs ! nat i) (set_service (service base @ '' '' @ double_to_string p) base))
       else Inl Undefined)"

fun percentile_events :: "fp list \<Rightarrow> event \<Rightarrow> fp list \<Rightarrow> exn + event list" where
  "percentile_events xs base [] = Inr []"
| "percentile_events xs base (p # ps) =
     bind_exn (percentile_event xs base p) (\<lambda>e.
     bind_exn (percentile_events xs base ps) (\<lambda>es. Inr (e # es)))"

definition reservoir_to_events :: "reservoir \<Rightarrow> fp list \<Rightarrow> event \<Rightarrow> (exn + event list) \<times> reservoir" where
  "reservoir_to_events r percentiles event_base =
     (case reservoir_snapshot r of (xs, r1) \<Rightarrow>
        ((if xs = [] then Inr []
          else bind_exn (sort_samples xs) (\<lambda>ys. percentile_events ys event_base percentiles)), r1))"

section \<open>The registry\<close>

definition k_max_rates :: nat where "k_max_rates = 1000"
definition k_max_latencies :: nat where "k_max_latencies = 1000"
definition k_max_gauges :: nat where "k_max_gauges = 1000"
definition k_instrumentation_tag :: string where "k_instrumentation_tag = ''cavalieri::internal''"
definition k_default_ttl :: fp where "k_default_ttl = Fin 60"

record rate_conf_t =
  rate_service :: string
  rate_description :: string
  rate_of :: rate

record percentiles_conf_t =
  latency_service :: string
  latency_description :: string
  latency_percentiles :: "fp list"
  latency_reservoir :: reservoir

record gauge_conf_t =
  gauge_service :: string
  gauge_description :: string
  gauge_of :: gauge

text \<open>The three vectors hold the entries below their counters; an id is a position.\<close>

record instrumentation =
  rates :: "rate_conf_t list"
  latencies :: "percentiles_conf_t list"
  gauges :: "gauge_conf_t list"

definition new_instrumentation :: instrumentation where
  "new_instrumentation = \<lparr>rates = [], latencies = [], gauges = []\<rparr>"

definition add_rate :: "int \<Rightarrow> string \<Rightarrow> string \<Rightarrow> instrumentation \<Rightarrow> exn + nat \<times> instrumentation" where
  "add_rate now serv desc ins =
     (if length (rates ins) < k_max_rates
      then Inr (length (rates ins),
                ins\<lparr>rates := rates ins @ [\<lparr>rate_service = serv, rate_description = desc, rate_of = new_rate now\<rparr>]\<rparr>)
      else Inl Check_failed)"

text \<open>The check reads the number of rates; a full vector of latencies is then overrun.\<close>

definition add_latency :: "string \<Rightarrow> string \<Rightarrow> fp list \<Rightarrow> instrumentation \<Rightarrow> exn + nat \<times> instrumentation" where
  "add_latency serv desc ps ins =
     (if length (rates ins) < k_max_latencies
      then if length (latencies ins) < k_max_latencies
           then Inr (length (latencies ins),
                     ins\<lparr>latencies := latencies ins @
                       [\<lparr>latency_service = serv, latency_description = desc, latency_percentiles = ps,
                         latency_reservoir = new_reservoir\<rparr>]\<rparr>)
           else Inl Undefined
      else Inl Check_failed)"

definition add_gauge :: "string \<Rightarrow> string \<Rightarrow> instrumentation \<Rightarrow> exn + nat \<times> instrumentation" where
  "add_gauge serv desc ins =
     (if length (gauges ins) < k_max_gauges
      then Inr (length (gauges ins),
                ins\<lparr>gauges := gauges ins @ [\<lparr>gauge_service = serv, gauge_description = desc, gauge_of = new_gauge\<rparr>]\<rparr>)
      else Inl Check_failed)"

definition update_rate :: "nat \<Rightarrow> 32 word \<Rightarrow> instrumentation \<Rightarrow> instrumentation" where
  "update_rate i ticks ins =
     ins\<lparr>rates := (rates ins)[i := (rates ins ! i)\<lparr>rate_of := rate_add ticks (rate_of (rates ins ! i))\<rparr>]\<rparr>"

definition update_latency :: "nat \<Rightarrow> nat \<Rightarrow> fp \<Rightarrow> instrumentation \<Rightarrow> exn + instrumentation" where
  "update_latency draw i x ins =
     bind_exn (add_sample draw x (latency_reservoir (latencies ins ! i))) (\<lambda>r.
       Inr (ins\<lparr>latencies := (latencies ins)[i := (latencies ins ! i)\<lparr>latency_reservoir := r\<rparr>]\<rparr>))"

definition on_gauge :: "(gauge \<Rightarrow> gauge) \<Rightarrow> nat \<Rightarrow> instrumentation \<Rightarrow> instrumentation" where
  "on_gauge f i ins =
     ins\<lparr>gauges := (gauges ins)[i := (gauges ins ! i)\<lparr>gauge_of := f (gauge_of (gauges ins ! i))\<rparr>]\<rparr>"

definition update_gauge :: "nat \<Rightarrow> 32 word \<Rightarrow> instrumentation \<Rightarrow> instrumentation" where
  "update_gauge i ticks = on_gauge (gauge_update ticks) i"

definition incr_gauge :: "nat \<Rightarrow> 32 word \<Rightarrow> instrumentation \<Rightarrow> instrumentation" where
  "incr_gauge i ticks = on_gauge (gauge_incr ticks) i"

definition decr_gauge :: "nat \<Rightarrow> 32 word \<Rightarrow> instrumentation \<Rightarrow> instrumentation" where
  "decr_gauge i ticks = on_gauge (gauge_decr ticks) i"

section \<open>Reporting\<close>

definition set_rates :: "int \<Rightarrow> event \<Rightarrow> rate_conf_t list \<Rightarrow> event list \<times> rate_conf_t list" where
  "set_rates now e rs =
     (map (\<lambda>c. set_metric_d (fst (rate_snapshot now (rate_of c)))
                 (set_description (rate_description c) (set_service (rate_service c) e))) rs,
      map (\<lambda>c. c\<lparr>rate_of := snd (rate_snapshot now (rate_of c))\<rparr>) rs)"

fun set_latencies :: "event \<Rightarrow> percentiles_conf_t list \<Rightarrow> (exn + event list) \<times> percentiles_conf_t list" where
  "set_latencies e [] = (Inr [], [])"
| "set_latencies e (c # cs) =
     (case reservoir_to_events (latency_reservoir c) (latency_percentiles c)
             (set_description (latency_description c) (set_service (latency_service c) e)) of
        (Inl x, r) \<Rightarrow> (Inl x, c\<lparr>latency_reservoir := r\<rparr> # cs)
      | (Inr es, r) \<Rightarrow>
          (case set_latencies e cs of
             (m, cs1) \<Rightarrow> (bind_exn m (\<lambda>es1. Inr (es @ es1)), c\<lparr>latency_reservoir := r\<rparr> # cs1)))"

definition set_gauges :: "event \<Rightarrow> gauge_conf_t list \<Rightarrow> event list" where
  "set_gauges e gs =
     map (\<lambda>c. set_metric_d (double_of_int (uint (gauge_snapshot (gauge_of c))))
                 (set_description (gauge_description c) (set_service (gauge_service c) e))) gs"

definition set_vm_measure :: "fp \<Rightarrow> event \<Rightarrow> event" where
  "set_vm_measure vm e =
     set_metric_d (fp_div vm (Fin 1024)) (set_description ''vm memory in MB'' (set_service ''vm memory usage'' e))"

definition set_rss_measure :: "fp \<Rightarrow> event \<Rightarrow> event" where
  "set_rss_measure rss e =
     set_metric_d (fp_div rss (Fin 1024)) (set_description ''rss memory in MB'' (set_service ''rss memory usage'' e))"

definition set_mem_measures :: "fp \<Rightarrow> fp \<Rightarrow> event \<Rightarrow> event list" where
  "set_mem_measures vm rss e = [set_vm_measure vm e, set_rss_measure rss (set_vm_measure vm e)]"

definition snapshot_event :: "string \<Rightarrow> event" where
  "snapshot_event fqdn =
     set_ttl k_default_ttl (set_state ''ok'' (set_host fqdn (add_tag k_instrumentation_tag empty_event)))"

text \<open>\<open>fqdn\<close> is the host's name, \<open>vm\<close> and \<open>rss\<close> what \<open>/proc/self/stat\<close> gives.\<close>

definition instrumentation_snapshot :: "string \<Rightarrow> int \<Rightarrow> fp \<Rightarrow> fp \<Rightarrow> instrumentation
    \<Rightarrow> (exn + event list) \<times> instrumentation" where
  "instrumentation_snapshot fqdn now vm rss ins =
     (let e = snapshot_event fqdn;
          (res, rs) = set_rates now e (rates ins);
          (les, ls) = set_latencies e (latencies ins)
      in (bind_exn les (\<lambda>les. Inr (res @ les @ set_gauges e (gauges ins) @ set_mem_measures vm rss e)),
          ins\<lparr>rates := rs, latencies := ls\<rparr>))"

section \<open>What a reservoir holds\<close>

fun add_samples :: "(nat \<times> fp) list \<Rightarrow> reservoir \<Rightarrow> exn + reservoir" where
  "add_samples [] r = Inr r"
| "add_samples ((draw, x) # xs) r = bind_exn (add_sample draw x r) (add_samples xs)"

definition reservoir_inv :: "reservoir \<Rightarrow> bool" where
  "reservoir_inv r \<longleftrightarrow> length (samples r) = k_default_size \<and> reservoir_size r = k_default_size"

lemma reservoir_inv_new [simp]: "reservoir_inv new_reservoir"
  by (simp add: reservoir_inv_def new_reservoir_def)

lemma reservoir_inv_snapshot [simp]: "reservoir_inv r \<Longrightarrow> reservoir_inv (snd (reservoir_snapshot r))"
  by (simp add: reservoir_inv_def reservoir_snapshot_def)

lemma add_sample_inv:
  assumes "reservoir_inv r"
  shows "\<exists>r'. add_sample draw x r = Inr r' \<and> reservoir_inv r' \<and> set (samples r') \<subseteq> insert x (set (samples r))"
  using assms set_update_subset_insert
  by (fastforce simp: add_sample_def put_sample_def reservoir_inv_def Let_def)

lemma add_samples_inv:
  assumes "reservoir_inv r"
  shows "\<exists>r'. add_samples xs r = Inr r' \<and> reservoir_inv r'
     \<and> set (samples r') \<subseteq> set (map snd xs) \<union> set (samples r)"
  using assms
proof (induction xs arbitrary: r)
  case (Cons dx xs)
  obtain d x where dx: "dx = (d, x)" by (cases dx)
  from add_sample_inv [OF Cons.prems, of d x] obtain r1 where
    r1: "add_sample d x r = Inr r1" "reservoir_inv r1" "set (samples r1) \<subseteq> insert x (set (samples r))"
    by blast
  from Cons.IH [OF r1(2)] r1 show ?case unfolding dx by auto
qed simp

lemma add_samples_first:
  assumes "reservoir_inv r" "unat (sample_count r) + length xs \<le> k_default_size"
  shows "add_samples xs r =
     Inr (r\<lparr>samples := take (unat (sample_count r)) (samples r) @ map snd xs
                         @ drop (unat (sample_count r) + length xs) (samples r),
            sample_count := sample_count r + of_nat (length xs)\<rparr>)"
  using assms
proof (induction xs arbitrary: r)
  case (Cons dx xs)
  obtain d x where dx: "dx = (d, x)" by (cases dx)
  let ?n = "unat (sample_count r)"
  let ?r = "r\<lparr>samples := (samples r)[?n := x], sample_count := sample_count r + 1\<rparr>"
  have n: "?n < k_default_size" using Cons.prems(2) by simp
  then have c: "unat (sample_count r + 1) = ?n + 1"
    by (simp add: k_default_size_def unat_word_ariths)
  have "add_sample d x r = Inr ?r"
    using n Cons.prems(1) by (simp add: add_sample_def put_sample_def reservoir_inv_def Let_def)
  moreover have "reservoir_inv ?r" using Cons.prems(1) by (simp add: reservoir_inv_def)
  ultimately show ?case
    using Cons.IH [of ?r] Cons.prems n c
    by (simp add: dx reservoir_inv_def take_Suc_conv_app_nth drop_update_cancel)
qed simp

lemma add_samples_fresh:
  assumes "length xs \<le> k_default_size"
  shows "add_samples xs new_reservoir =
     Inr \<lparr>reservoir_size = k_default_size,
          samples = map snd xs @ replicate (k_default_size - length xs) (Fin 0),
          sample_count = of_nat (length xs)\<rparr>"
  using add_samples_first [of new_reservoir xs] assms
  by (simp add: reservoir_inv_def) (simp add: new_reservoir_def)


lemma sort_padded:
  fixes xs :: "fp list"
  assumes "\<forall>x\<in>set xs. z \<le> x"
  shows "sort (xs @ replicate m z) = replicate m z @ sort xs"
proof (rule properties_for_sort)
  show "sorted (replicate m z @ sort xs)" using assms by (auto simp: sorted_append)
qed simp

text \<open>
  The percentiles of a reservoir that holds fewer than a thousand samples are taken over the
  samples together with the zeros that fill the remaining places: with \<open>k\<close> samples, none below
  zero, every percentile whose index is below \<open>1000 - k\<close> is reported as zero, whatever the samples.
\<close>

theorem percentiles_count_padding:
  assumes "length xs \<le> k_default_size" "\<forall>x\<in>set (map snd xs). fp_le (Fin 0) x"
    and "percentile_index k_default_size p = Inr i" "0 \<le> i" "i < int (k_default_size - length xs)"
    and "add_samples xs new_reservoir = Inr r"
  shows "fst (reservoir_to_events r [p] base) =
     Inr [set_metric_d (Fin 0) (set_service (service base @ '' '' @ double_to_string p) base)]"
proof -
  let ?pad = "replicate (k_default_size - length xs) (Fin 0)"
  have r: "samples r = map snd xs @ ?pad" using assms(6) add_samples_fresh [OF assms(1)] by auto
  have "NaN \<notin> set (samples r)" using assms(2) by (auto simp: r)
  moreover have "\<forall>x\<in>set (map snd xs). Fin 0 \<le> x"
    using assms(2) by (auto simp: fp_le_def fp_eq_def less_eq_fp_def less_fp_def)
  then have "sort (samples r) = ?pad @ sort (map snd xs)" unfolding r by (rule sort_padded)
  ultimately have "sort_samples (samples r) = Inr (?pad @ sort (map snd xs))"
    by (simp add: sort_samples_def)
  moreover have "samples r \<noteq> []" "length (?pad @ sort (map snd xs)) = k_default_size"
    using assms(1) by (auto simp: r k_default_size_def)
  moreover have "nat i < k_default_size - length xs" using assms(4,5) by linarith
  then have "(?pad @ sort (map snd xs)) ! nat i = Fin 0" by (simp add: nth_append)
  ultimately show ?thesis
    using assms(3,4,5) by (simp add: reservoir_to_events_def reservoir_snapshot_def percentile_event_def)
qed

theorem percentiles_count_padding_witness:
  "\<exists>r. add_samples [(0, Fin 7), (0, Fin 9)] new_reservoir = Inr r
     \<and> fst (reservoir_to_events r [Fin (1 / 2)] empty_event) =
       Inr [set_metric_d (Fin 0)
              (set_service (service empty_event @ '' '' @ double_to_string (Fin (1 / 2))) empty_event)]"
proof -
  have "fp_mul (double_of_int 1000) (Fin (1 / 2)) = Fin 500"
    using round64_of_int [of 500] by (simp add: double_of_int_def)
  then have i: "percentile_index k_default_size (Fin (1 / 2)) = Inr 500"
    by (simp add: percentile_index_def k_default_size_def fp_eq_def int32_of_fp_def int64_range_def)
  have s: "\<forall>x\<in>set (map snd [(0 :: nat, Fin 7), (0, Fin 9)]). fp_le (Fin 0) x"
    by (simp add: fp_le_def)
  have l: "length [(0 :: nat, Fin 7), (0, Fin 9)] \<le> k_default_size" by (simp add: k_default_size_def)
  show ?thesis
    using percentiles_count_padding [OF l s i _ _ add_samples_fresh [OF l]] add_samples_fresh [OF l]
    by (intro exI conjI) (assumption, simp add: k_default_size_def)
qed

end
