(* ===== verification/Stream_Core.thy ===== *)
theory Stream_Core
  imports Rules_Loader Instrumentation
begin

text \<open>
  The class streams of src/streams/stream_functions.cpp, which runs every event through every
  loaded rule library, and the two streams that share state with a timer, rate and percentiles.
\<close>

section \<open>The libraries and the events\<close>

text \<open>
  What \<open>streams\<close> does besides keeping state: it updates its rate and latencies, and the rules of a
  library act in the namespace of its file. An exception of a rule is caught and logged; an abort
  or an undefined access is not an exception and takes the process with it.
\<close>

datatype core_action =
    RateUpdate nat
  | InLatency int        \<comment> \<open>the distance of now to this time\<close>
  | Latency
  | LibAction string action
  | LibError string exn

record stream_core =
  core_libs :: "stream_lib list"
  core_stop :: bool

definition k_streams :: nat where "k_streams = 10"

definition new_core :: stream_core where
  "new_core =
     \<lparr>core_libs = replicate k_streams \<lparr>lib_file = [], last_write_time = 0, handle = None, lib_stream = [],
                                        counter_word = 0\<rparr>,
      core_stop = False\<rparr>"

definition catchable :: "exn \<Rightarrow> bool" where
  "catchable x \<longleftrightarrow> x \<noteq> Check_failed \<and> x \<noteq> Undefined"

definition push_stream :: "runtime \<Rightarrow> stream_lib \<Rightarrow> event \<Rightarrow> (core_action, unit) eff \<times> stream_lib" where
  "push_stream rt lib e =
     (if \<not> lib_used lib then (ret (), lib)
      else (case push_event (lib_stream lib) rt e of
              ((w, r), s) \<Rightarrow>
                (let acts = map (LibAction (lib_file lib)) w; lib1 = lib\<lparr>lib_stream := s\<rparr>
                 in (case r of
                       Inr _ \<Rightarrow> (emit acts (), lib1)
                     | Inl x \<Rightarrow> if catchable x then (emit (acts @ [LibError (lib_file lib) x]) (), lib1)
                                else ((acts, Inl x), lib1)))))"

text \<open>The body of the loop of \<open>push_event\<close> for one slot.\<close>

definition push_slot :: "runtime \<Rightarrow> stream_lib \<Rightarrow> event \<Rightarrow> (core_action, unit) eff \<times> stream_lib" where
  "push_slot rt lib e =
     (if \<not> lib_used lib then (ret (), lib)
      else if state e = ''expired'' then push_stream rt lib e
      else if has_time e then
        (case push_stream rt lib e of
           (m, lib1) \<Rightarrow>
             (bind_eff (emit [InLatency (time e)] ()) (\<lambda>_. bind_eff m (\<lambda>_. emit [Latency] ())), lib1))
      else push_stream rt lib (set_time (unix_time rt) e))"

fun push_slots :: "runtime \<Rightarrow> stream_lib list \<Rightarrow> event \<Rightarrow> (core_action, unit) eff \<times> stream_lib list" where
  "push_slots rt [] e = (ret (), [])"
| "push_slots rt (lib # libs) e =
     (case push_slot rt lib e of
        (m, lib1) \<Rightarrow>
          (case snd m of
             Inl _ \<Rightarrow> (m, lib1 # libs)
           | Inr _ \<Rightarrow> (case push_slots rt libs e of
                         (m2, libs1) \<Rightarrow> (bind_eff m (\<lambda>_. m2), lib1 # libs1))))"

definition core_push_event :: "runtime \<Rightarrow> stream_core \<Rightarrow> event \<Rightarrow> (core_action, unit) eff \<times> stream_core" where
  "core_push_event rt c e =
     (if core_stop c then (ret (), c)
      else map_prod id (\<lambda>libs. c\<lparr>core_libs := libs\<rparr>) (push_slots rt (core_libs c) e))"

fun push_message :: "runtime \<Rightarrow> stream_core \<Rightarrow> event list \<Rightarrow> (core_action, unit) eff \<times> stream_core" where
  "push_message rt c [] = (ret (), c)"
| "push_message rt c (e # es) =
     (case core_push_event rt c e of
        (m, c1) \<Rightarrow>
          (case snd m of
             Inl _ \<Rightarrow> (m, c1)
           | Inr _ \<Rightarrow> (case push_message rt c1 es of (m2, c2) \<Rightarrow> (bind_eff m (\<lambda>_. m2), c2))))"

definition process_message :: "runtime \<Rightarrow> stream_core \<Rightarrow> event list \<Rightarrow> (core_action, unit) eff \<times> stream_core" where
  "process_message rt c es =
     (if core_stop c then (ret (), c)
      else (case push_message rt c es of
              (m, c1) \<Rightarrow> (bind_eff (emit [RateUpdate (length es)] ()) (\<lambda>_. m), c1)))"

definition stop_core :: "stream_core \<Rightarrow> stream_core" where
  "stop_core c = c\<lparr>core_stop := True\<rparr>"

definition core_reload_rules :: "runtime \<Rightarrow> linker \<Rightarrow> (string \<times> int) list \<Rightarrow> stream_core \<Rightarrow> stream_core" where
  "core_reload_rules rt ld dir c = c\<lparr>core_libs := load_rules rt ld dir (core_libs c)\<rparr>"

section \<open>Libraries do not disturb each other\<close>

definition stamped :: "runtime \<Rightarrow> event \<Rightarrow> event" where
  "stamped rt e = (if state e = ''expired'' \<or> has_time e then e else set_time (unix_time rt) e)"

definition stamp_history :: "history \<Rightarrow> history" where
  "stamp_history h = map (\<lambda>(rt, e). (rt, stamped rt e)) h"

definition survives :: "('x, 'a) eff \<Rightarrow> bool" where
  "survives m = (case snd m of Inl x \<Rightarrow> catchable x | Inr _ \<Rightarrow> True)"

fun core_feed :: "stream_core \<Rightarrow> history \<Rightarrow> (exn + stream_core)" where
  "core_feed c [] = Inr c"
| "core_feed c ((rt, e) # h) =
     (case core_push_event rt c e of (m, c1) \<Rightarrow> bind_exn (snd m) (\<lambda>_. core_feed c1 h))"

definition lib_fed :: "history \<Rightarrow> stream_lib \<Rightarrow> stream_lib" where
  "lib_fed h lib = (if lib_used lib then lib\<lparr>lib_stream := feed_state (lib_stream lib) (stamp_history h)\<rparr> else lib)"

definition lib_survives :: "history \<Rightarrow> stream_lib \<Rightarrow> bool" where
  "lib_survives h lib \<longleftrightarrow> lib_used lib \<longrightarrow> list_all survives (feed (lib_stream lib) (stamp_history h))"

lemma lib_used_stream [simp]: "lib_used (lib\<lparr>lib_stream := s\<rparr>) = lib_used lib"
  by (simp add: lib_used_def)

lemma push_stream_survives:
  assumes "lib_used lib" "survives (fst (push_event (lib_stream lib) rt e))"
  shows "\<exists>w. push_stream rt lib e = ((w, Inr ()), lib\<lparr>lib_stream := snd (push_event (lib_stream lib) rt e)\<rparr>)"
  using assms by (auto simp: push_stream_def survives_def emit_def Let_def split: prod.splits sum.splits)

lemma push_slot_survives:
  assumes "lib_used lib" "survives (fst (push_event (lib_stream lib) rt (stamped rt e)))"
  shows "\<exists>w. push_slot rt lib e =
     ((w, Inr ()), lib\<lparr>lib_stream := snd (push_event (lib_stream lib) rt (stamped rt e))\<rparr>)"
  using push_stream_survives [OF assms] assms(1)
  by (auto simp: push_slot_def stamped_def emit_def bind_eff_def split: if_splits)

lemma push_slots_survive:
  assumes "list_all (lib_survives [(rt, e)]) libs"
  shows "\<exists>w. push_slots rt libs e = ((w, Inr ()), map (lib_fed [(rt, e)]) libs)"
  using assms
proof (induction libs)
  case (Cons lib libs)
  then obtain w where w: "push_slots rt libs e = ((w, Inr ()), map (lib_fed [(rt, e)]) libs)" by auto
  show ?case
  proof (cases "lib_used lib")
    case True
    with Cons.prems push_slot_survives [of lib rt e] obtain v where
      "push_slot rt lib e = ((v, Inr ()), lib_fed [(rt, e)] lib)"
      by (auto simp: lib_survives_def lib_fed_def stamp_history_def split: prod.splits)
    with w show ?thesis by (simp add: bind_eff_def)
  next
    case False
    with w show ?thesis by (simp add: push_slot_def lib_fed_def ret_def bind_eff_def)
  qed
qed (simp add: ret_def)

lemma lib_fed_Nil [simp]: "lib_fed [] = id"
  by (rule ext) (simp add: lib_fed_def stamp_history_def)

lemma lib_fed_Cons: "lib_fed h (lib_fed [x] lib) = lib_fed (x # h) lib"
  by (cases x) (simp add: lib_fed_def stamp_history_def)

lemma lib_survives_Cons:
  "lib_survives (x # h) lib \<longleftrightarrow> lib_survives [x] lib \<and> lib_survives h (lib_fed [x] lib)"
  by (cases x) (auto simp: lib_survives_def lib_fed_def stamp_history_def split: prod.splits)

text \<open>
  C7. The rules of one library do not disturb those of another: as long as no rule aborts the
  process, every event of a history reaches every library in use, stamped with the current time
  when it has none, an exception in one library notwithstanding, and each library ends in the
  state it would be in if it were fed the history alone.
\<close>

theorem libraries_isolated:
  assumes "\<not> core_stop c" "list_all (lib_survives h) (core_libs c)"
  shows "core_feed c h = Inr (c\<lparr>core_libs := map (lib_fed h) (core_libs c)\<rparr>)"
  using assms
proof (induction h arbitrary: c)
  case Nil
  then show ?case by simp
next
  case (Cons x h)
  obtain rt e where x: "x = (rt, e)" by (cases x)
  have "list_all (lib_survives [x]) (core_libs c)"
    using Cons.prems(2) by (auto simp: list_all_iff lib_survives_Cons [of x h])
  then obtain w where "push_slots rt (core_libs c) e = ((w, Inr ()), map (lib_fed [x]) (core_libs c))"
    using push_slots_survive x by blast
  moreover have "list_all (lib_survives h) (map (lib_fed [x]) (core_libs c))"
    using Cons.prems(2) by (auto simp: list_all_iff lib_survives_Cons [of x h])
  ultimately show ?case
    using Cons.IH [of "c\<lparr>core_libs := map (lib_fed [x]) (core_libs c)\<rparr>"] Cons.prems(1)
    by (simp add: x core_push_event_def comp_def lib_fed_Cons [of h "(rt, e)"])
qed

definition slot_of :: "string \<Rightarrow> streams_t \<Rightarrow> stream_lib" where
  "slot_of file s =
     \<lparr>lib_file = file, last_write_time = 0, handle = Some 1, lib_stream = s, counter_word = 1\<rparr>"

theorem libraries_isolated_witness:
  "core_feed
     \<lparr>core_libs = [slot_of ''a.so'' (create_stream_simple (\<lambda>_. pure_closure (\<lambda>rt e. ret [e]))),
                   slot_of ''b.so'' (create_stream (pure_closure (\<lambda>rt e. ret [e])))],
      core_stop = False\<rparr> [(rt_at 3, empty_event)]
   = Inr \<lparr>core_libs = map (lib_fed [(rt_at 3, empty_event)])
                       [slot_of ''a.so'' (create_stream_simple (\<lambda>_. pure_closure (\<lambda>rt e. ret [e]))),
                        slot_of ''b.so'' (create_stream (pure_closure (\<lambda>rt e. ret [e])))],
          core_stop = False\<rparr>"
proof -
  let ?a = "slot_of ''a.so'' (create_stream_simple (\<lambda>_. pure_closure (\<lambda>rt e. ret [e])))"
    and ?b = "slot_of ''b.so'' (create_stream (pure_closure (\<lambda>rt e. ret [e])))"
  have "list_all (lib_survives [(rt_at 3, empty_event)]) [?a, ?b]"
    by (simp add: slot_of_def lib_survives_def stamp_history_def push_event_def create_stream_simple_def
        create_stream_def pure_closure_def survives_def throw_def catchable_def ret_def)
  then show ?thesis
    using libraries_isolated [of "\<lparr>core_libs = [?a, ?b], core_stop = False\<rparr>" "[(rt_at 3, empty_event)]"]
    by simp
qed

section \<open>Streams with a timer\<close>

text \<open>
  \<open>rate\<close> and \<open>percentiles\<close> share state between their event handler and a periodic task. Each is a
  state with two operations, and a run interleaves events and ticks of the timer.
\<close>

datatype timed = Arrives runtime event | Tick runtime

record rate_state =
  rate_sum :: fp
  rate_forward :: fwd

definition rate_init :: "fwd \<Rightarrow> rate_state" where
  "rate_init f = \<lparr>rate_sum = Fin 0, rate_forward = f\<rparr>"

definition rate_on_event :: "event \<Rightarrow> rate_state \<Rightarrow> (action, event list) eff \<times> rate_state" where
  "rate_on_event e st = (ret [], st\<lparr>rate_sum := fp_add (rate_sum st) (metric e)\<rparr>)"

definition rate_event :: "int \<Rightarrow> runtime \<Rightarrow> fp \<Rightarrow> event" where
  "rate_event interval rt s =
     set_time (unix_time rt) (set_metric_d (fp_div s (double_of_int interval)) empty_event)"

definition rate_timer :: "int \<Rightarrow> runtime \<Rightarrow> rate_state \<Rightarrow> (action, unit) eff \<times> rate_state" where
  "rate_timer interval rt st =
     (case fpush (rate_forward st) rt [rate_event interval rt (rate_sum st)] of
        (m, f) \<Rightarrow> (m, \<lparr>rate_sum = Fin 0, rate_forward = f\<rparr>))"

record percentiles_data_t =
  percentile_list :: "fp list"
  reserv :: reservoir
  base_event :: event
  initialized :: bool
  percentiles_forward :: fwd

definition percentiles_init :: "fp list \<Rightarrow> fwd \<Rightarrow> percentiles_data_t" where
  "percentiles_init ps f =
     \<lparr>percentile_list = ps, reserv = new_reservoir, base_event = empty_event, initialized = False,
      percentiles_forward = f\<rparr>"

definition update_percentiles :: "nat \<Rightarrow> event \<Rightarrow> percentiles_data_t \<Rightarrow> exn + percentiles_data_t" where
  "update_percentiles draw e st =
     (if \<not> has_metric e then Inr st
      else bind_exn (add_sample draw (metric e) (reserv st)) (\<lambda>r.
             let st1 = st\<lparr>reserv := r\<rparr>
             in Inr (if initialized st then st1 else st1\<lparr>initialized := True, base_event := e\<rparr>)))"

definition push_percentiles :: "runtime \<Rightarrow> percentiles_data_t \<Rightarrow> (action, unit) eff \<times> percentiles_data_t" where
  "push_percentiles rt st =
     (if \<not> initialized st then (ret (), st)
      else (case reservoir_to_events (reserv st) (percentile_list st) (base_event st) of
              (Inl x, r) \<Rightarrow> (throw x, st\<lparr>reserv := r\<rparr>)
            | (Inr es, r) \<Rightarrow>
                (case fpush (percentiles_forward st) rt es of
                   (m, f) \<Rightarrow> (m, st\<lparr>reserv := r, percentiles_forward := f\<rparr>))))"

fun rate_run :: "int \<Rightarrow> timed list \<Rightarrow> rate_state \<Rightarrow> rate_state" where
  "rate_run interval [] st = st"
| "rate_run interval (Arrives rt e # xs) st = rate_run interval xs (snd (rate_on_event e st))"
| "rate_run interval (Tick rt # xs) st = rate_run interval xs (snd (rate_timer interval rt st))"

text \<open>
  A timeline: the events of each interval and then the tick that ends it. \<open>push_batches\<close> is the rest
  of the stream after it received some batches of events.
\<close>

fun timeline :: "(event list \<times> runtime) list \<Rightarrow> timed list" where
  "timeline [] = []"
| "timeline ((es, rt) # segs) = map (Arrives rt) es @ Tick rt # timeline segs"

fun push_batches :: "(runtime \<times> event list) list \<Rightarrow> fwd \<Rightarrow> fwd" where
  "push_batches [] f = f"
| "push_batches ((rt, es) # bs) f = push_batches bs (snd (fpush f rt es))"

lemma rate_run_append: "rate_run interval (xs @ ys) st = rate_run interval ys (rate_run interval xs st)"
  by (induction interval xs st rule: rate_run.induct) simp_all

lemma rate_run_events:
  "rate_run interval (map (Arrives rt) es) st = st\<lparr>rate_sum := foldl fp_add (rate_sum st) (map metric es)\<rparr>"
  by (induction es arbitrary: st) (simp_all add: rate_on_event_def)

text \<open>
  C31. \<open>rate\<close> forwards exactly one event per tick of its timer: stamped with the time of the tick, it
  carries the sum of the metrics that arrived since the tick before, divided by the interval; no
  metric is lost or counted twice.
\<close>

theorem rate_reports_sums:
  "rate_forward (rate_run interval (timeline segs) (rate_init f)) =
     push_batches (map (\<lambda>(es, rt). (rt, [rate_event interval rt (foldl fp_add (Fin 0) (map metric es))])) segs) f"
proof (induction segs arbitrary: f)
  case (Cons seg segs)
  obtain es rt where seg: "seg = (es, rt)" by (cases seg)
  let ?e = "rate_event interval rt (foldl fp_add (Fin 0) (map metric es))"
  have "rate_run interval (timeline (seg # segs)) (rate_init f)
      = rate_run interval (timeline segs) (rate_init (snd (fpush f rt [?e])))"
    by (simp add: seg rate_run_append rate_run_events rate_timer_def rate_init_def split: prod.split)
  with Cons.IH show ?case by (simp add: seg)
qed (simp add: rate_init_def)

end
