(* ===== verification/Tcp.thy ===== *)
theory Tcp
  imports Prelude "HOL-Library.Word"
begin

text \<open>
  src/transport/tcp_connection.cpp and src/riemann_tcp_connection.cpp: buffered connections and the
  framing of Riemann messages, length-prefixed, over them. The socket is a parameter: what recv and
  write do on each call.
\<close>

section \<open>Connections\<close>

type_synonym byte = "8 word"

text \<open>\<open>boost::circular_buffer\<close>: the bytes it holds and its capacity; \<open>reserve()\<close> is the room left.\<close>

record tcp_connection =
  buff_size :: nat
  close_connection :: bool
  r_capacity :: nat
  r_buffer :: "byte list"
  w_capacity :: nat
  w_buffer :: "byte list"

definition k_default_buffer_size :: nat where "k_default_buffer_size = 1024 * (1024 + 512)"

definition new_connection :: tcp_connection where
  "new_connection =
     \<lparr>buff_size = k_default_buffer_size, close_connection = False,
      r_capacity = k_default_buffer_size, r_buffer = [],
      w_capacity = k_default_buffer_size, w_buffer = []\<rparr>"

definition sized_connection :: "nat \<Rightarrow> tcp_connection" where
  "sized_connection n =
     \<lparr>buff_size = k_default_buffer_size, close_connection = False,
      r_capacity = n, r_buffer = [], w_capacity = n, w_buffer = []\<rparr>"

definition r_reserve :: "tcp_connection \<Rightarrow> nat" where
  "r_reserve c = r_capacity c - length (r_buffer c)"

definition w_reserve :: "tcp_connection \<Rightarrow> nat" where
  "w_reserve c = w_capacity c - length (w_buffer c)"

text \<open>
  The socket. \<open>recv\<close> with room for \<open>len\<close> bytes fails, reports the end of the stream, or takes some
  of the bytes that wait, at most \<open>len\<close>; \<open>write\<close> fails or takes a number of bytes.
\<close>

datatype recv_result = Received "byte list" | End_of_stream | Recv_error

type_synonym recv_fn = "nat \<Rightarrow> recv_result"

definition read_from_fd :: "recv_fn \<Rightarrow> tcp_connection \<Rightarrow> bool \<times> tcp_connection" where
  "read_from_fd recv c =
     (case recv (r_reserve c) of
        Recv_error \<Rightarrow> (False, c)
      | End_of_stream \<Rightarrow> (False, c)
      | Received bs \<Rightarrow> (True, c\<lparr>r_buffer := r_buffer c @ bs\<rparr>))"

definition tcp_read :: "recv_fn \<Rightarrow> tcp_connection \<Rightarrow> bool \<times> tcp_connection" where
  "tcp_read recv c =
     (if r_reserve c = 0 then (False, c)
      else (case read_from_fd recv c of
              (False, c1) \<Rightarrow> (False, c1\<lparr>close_connection := True\<rparr>)
            | (True, c1) \<Rightarrow> (True, c1)))"

definition queue_write :: "byte list \<Rightarrow> tcp_connection \<Rightarrow> bool \<times> tcp_connection" where
  "queue_write src c =
     (if w_reserve c < length src then (False, c)
      else (True, c\<lparr>w_buffer := w_buffer c @ src\<rparr>))"

definition write_to_fd :: "(byte list \<Rightarrow> nat option) \<Rightarrow> tcp_connection \<Rightarrow> bool \<times> tcp_connection" where
  "write_to_fd wr c =
     (case wr (w_buffer c) of
        None \<Rightarrow> (False, c)
      | Some n \<Rightarrow> (True, c\<lparr>w_buffer := drop n (w_buffer c)\<rparr>))"

definition tcp_write :: "(byte list \<Rightarrow> nat option) \<Rightarrow> tcp_connection \<Rightarrow> bool \<times> tcp_connection" where
  "tcp_write wr c =
     (case write_to_fd wr c of
        (False, c1) \<Rightarrow> (False, c1\<lparr>close_connection := True\<rparr>)
      | (True, c1) \<Rightarrow> (True, c1))"

definition pending_read :: "tcp_connection \<Rightarrow> bool" where "pending_read c = True"

definition pending_write :: "tcp_connection \<Rightarrow> bool" where "pending_write c \<longleftrightarrow> 0 < length (w_buffer c)"

definition read_bytes :: "tcp_connection \<Rightarrow> nat" where "read_bytes c = length (r_buffer c)"

section \<open>Riemann messages\<close>

text \<open>
  A message is four bytes of length, most significant first, and that many bytes. \<open>ok_msg\<close> is the
  serialised acknowledgement that the protobuf library produces.
\<close>

record riemann_tcp_connection =
  tcp :: tcp_connection
  reading_header :: bool
  protobuf_size :: nat

definition be32 :: "nat \<Rightarrow> byte list" where
  "be32 n = map (\<lambda>k. of_nat (n div 256 ^ k)) [3, 2, 1, 0]"

definition ok_response :: "byte list \<Rightarrow> byte list" where
  "ok_response ok_msg = be32 (length ok_msg) @ ok_msg"

definition ntohl :: "byte list \<Rightarrow> nat" where
  "ntohl bs = foldl (\<lambda>n b. 256 * n + unat b) 0 bs"

definition new_riemann_connection :: "tcp_connection \<Rightarrow> riemann_tcp_connection" where
  "new_riemann_connection c = \<lparr>tcp = c, reading_header = True, protobuf_size = 0\<rparr>"

definition read_header :: "riemann_tcp_connection \<Rightarrow> riemann_tcp_connection" where
  "read_header r =
     (if read_bytes (tcp r) < 4 then r
      else let n = ntohl (take 4 (r_buffer (tcp r)));
               c = (tcp r)\<lparr>r_buffer := drop 4 (r_buffer (tcp r))\<rparr>
           in if buff_size c < n + 4 then r\<lparr>tcp := c\<lparr>close_connection := True\<rparr>, protobuf_size := n\<rparr>
              else r\<lparr>tcp := c, protobuf_size := n, reading_header := False\<rparr>)"

definition read_message :: "byte list \<Rightarrow> riemann_tcp_connection \<Rightarrow> byte list list \<times> riemann_tcp_connection" where
  "read_message ok_msg r =
     (if read_bytes (tcp r) < protobuf_size r then ([], r)
      else (case queue_write (ok_response ok_msg) (tcp r) of
              (False, c) \<Rightarrow> ([], r\<lparr>tcp := c\<lparr>close_connection := True\<rparr>\<rparr>)
            | (True, c) \<Rightarrow>
                ([take (protobuf_size r) (r_buffer c)],
                 r\<lparr>tcp := c\<lparr>r_buffer := drop (protobuf_size r) (r_buffer c)\<rparr>, reading_header := True\<rparr>)))"

text \<open>The body of the loop of \<open>read_cb\<close>, and the loop, which runs while the buffer shrinks.\<close>

definition read_once :: "byte list \<Rightarrow> riemann_tcp_connection \<Rightarrow> byte list list \<times> riemann_tcp_connection" where
  "read_once ok_msg r = (if reading_header r then ([], read_header r) else read_message ok_msg r)"

lemma read_once_shrinks: "length (r_buffer (tcp (snd (read_once ok_msg r)))) \<le> length (r_buffer (tcp r))"
  by (auto simp: read_once_def read_header_def read_message_def queue_write_def Let_def split: prod.split bool.split)

lemma read_once_less:
  "(ms, r1) = read_once ok_msg r \<Longrightarrow> length (r_buffer (tcp r1)) \<noteq> length (r_buffer (tcp r))
     \<Longrightarrow> length (r_buffer (tcp r1)) < length (r_buffer (tcp r))"
  using read_once_shrinks [of ok_msg r] by (metis le_neq_implies_less snd_conv)

function read_loop :: "byte list \<Rightarrow> riemann_tcp_connection \<Rightarrow> byte list list \<times> riemann_tcp_connection" where
  "read_loop ok_msg r =
     (case read_once ok_msg r of
        (ms, r1) \<Rightarrow>
          if read_bytes (tcp r1) = read_bytes (tcp r) then (ms, r1)
          else (case read_loop ok_msg r1 of (ms2, r2) \<Rightarrow> (ms @ ms2, r2)))"
  by pat_completeness auto
termination
  by (relation "measure (\<lambda>(ok_msg, r). length (r_buffer (tcp r)))") (auto simp: read_bytes_def dest: read_once_less)

declare read_loop.simps [simp del]

definition read_cb :: "byte list \<Rightarrow> recv_fn \<Rightarrow> riemann_tcp_connection \<Rightarrow> byte list list \<times> riemann_tcp_connection" where
  "read_cb ok_msg recv r =
     (case tcp_read recv (tcp r) of
        (False, c) \<Rightarrow> ([], r\<lparr>tcp := c\<rparr>)
      | (True, c) \<Rightarrow> read_loop ok_msg (r\<lparr>tcp := c\<rparr>))"

definition write_cb :: "(byte list \<Rightarrow> nat option) \<Rightarrow> riemann_tcp_connection \<Rightarrow> riemann_tcp_connection" where
  "write_cb wr r = (if pending_write (tcp r) then r\<lparr>tcp := snd (tcp_write wr (tcp r))\<rparr> else r)"

definition callback :: "byte list \<Rightarrow> recv_fn option \<Rightarrow> (byte list \<Rightarrow> nat option) option
    \<Rightarrow> riemann_tcp_connection \<Rightarrow> byte list list \<times> riemann_tcp_connection" where
  "callback ok_msg ready_read ready_write r =
     (let (ms, r1) = (case ready_read of None \<Rightarrow> ([], r) | Some recv \<Rightarrow> read_cb ok_msg recv r)
      in if close_connection (tcp r1) then (ms, r1)
         else (ms, case ready_write of None \<Rightarrow> r1 | Some wr \<Rightarrow> write_cb wr r1))"

section \<open>Framing\<close>

definition frame :: "byte list \<Rightarrow> byte list" where
  "frame m = be32 (length m) @ m"

definition frames :: "byte list list \<Rightarrow> byte list" where
  "frames ms = concat (map frame ms)"

lemma length_be32 [simp]: "length (be32 n) = 4"
  by (simp add: be32_def)

lemma ntohl_be32:
  assumes "n < 2 ^ 32"
  shows "ntohl (be32 n) = n"
proof -
  let ?a = "n div 256"
  let ?b = "?a div 256"
  let ?c = "?b div 256"
  have "?c < 256" using assms by (simp flip: div_mult2_eq)
  then have "?c mod 256 = ?c" by simp
  moreover have "n div 65536 = ?b" "n div 16777216 = ?c" by (simp_all flip: div_mult2_eq)
  ultimately have "ntohl (be32 n) = 256 * (256 * (256 * ?c + ?b mod 256) + ?a mod 256) + n mod 256"
    by (simp add: ntohl_def be32_def unat_of_nat)
  then show ?thesis by (simp only: mult_div_mod_eq)
qed

text \<open>A message the connection accepts: not empty, and with its header no longer than the buffer.\<close>

definition sendable :: "byte list \<Rightarrow> bool" where
  "sendable m \<longleftrightarrow> m \<noteq> [] \<and> length m + 4 \<le> k_default_buffer_size"

text \<open>
  The connection after it delivered \<open>ms1\<close>, with \<open>ms2\<close> still to come: what is buffered and what waits
  in the socket is the rest of the frames.
\<close>

definition framing_inv :: "byte list \<Rightarrow> byte list list \<Rightarrow> byte list list \<Rightarrow> byte list \<Rightarrow> riemann_tcp_connection \<Rightarrow> bool"
where
  "framing_inv ok_msg ms1 ms2 sock r \<longleftrightarrow>
     (if reading_header r then r_buffer (tcp r) @ sock = frames ms2
      else ms2 \<noteq> [] \<and> protobuf_size r = length (hd ms2)
           \<and> r_buffer (tcp r) @ sock = hd ms2 @ frames (tl ms2))
     \<and> \<not> close_connection (tcp r) \<and> buff_size (tcp r) = k_default_buffer_size
     \<and> r_capacity (tcp r) = k_default_buffer_size \<and> w_capacity (tcp r) = k_default_buffer_size
     \<and> length (w_buffer (tcp r)) = length ms1 * length (ok_response ok_msg)"

definition waiting :: "riemann_tcp_connection \<Rightarrow> bool" where
  "waiting r \<longleftrightarrow> length (r_buffer (tcp r)) < (if reading_header r then 4 else protobuf_size r)"

lemma frames_simps [simp]: "frames [] = []" "frames (m # ms) = be32 (length m) @ m @ frames ms"
  by (simp_all add: frames_def frame_def)

lemma read_once_framing:
  assumes "framing_inv ok_msg ms1 ms2 sock r" "list_all sendable ms2" "\<not> waiting r"
    and "(length ms1 + length ms2) * length (ok_response ok_msg) \<le> k_default_buffer_size"
  shows "\<exists>d r1. read_once ok_msg r = (take d ms2, r1) \<and> framing_inv ok_msg (ms1 @ take d ms2) (drop d ms2) sock r1
     \<and> length (r_buffer (tcp r1)) < length (r_buffer (tcp r))"
proof (cases "reading_header r")
  case True
  then have fr: "r_buffer (tcp r) @ sock = frames ms2" and long: "4 \<le> length (r_buffer (tcp r))"
    using assms(1,3) by (auto simp: framing_inv_def waiting_def)
  then obtain m ms where ms2: "ms2 = m # ms" by (cases ms2) auto
  have t: "take 4 (r_buffer (tcp r)) = be32 (length m)"
    and d: "drop 4 (r_buffer (tcp r)) @ sock = m @ frames ms"
    using arg_cong [OF fr, of "take 4"] arg_cong [OF fr, of "drop 4"] long by (simp_all add: ms2)
  have "length m + 4 \<le> k_default_buffer_size" using assms(2) by (simp add: ms2 sendable_def)
  moreover have "ntohl (take 4 (r_buffer (tcp r))) = length m"
    using calculation unfolding t by (intro ntohl_be32) (simp add: k_default_buffer_size_def)
  ultimately show ?thesis
    using True long d assms(1)
    by (intro exI [of _ 0]) (auto simp: read_once_def read_header_def read_bytes_def Let_def framing_inv_def ms2)
next
  case False
  then obtain m ms where ms2: "ms2 = m # ms" "protobuf_size r = length m"
      "r_buffer (tcp r) @ sock = m @ frames ms"
    using assms(1) by (cases ms2) (auto simp: framing_inv_def)
  have long: "length m \<le> length (r_buffer (tcp r))" using False assms(3) ms2(2) by (simp add: waiting_def)
  have t: "take (length m) (r_buffer (tcp r)) = m"
    and d: "drop (length m) (r_buffer (tcp r)) @ sock = frames ms"
    using arg_cong [OF ms2(3), of "take (length m)"] arg_cong [OF ms2(3), of "drop (length m)"] long by simp_all
  have "\<not> w_reserve (tcp r) < length (ok_response ok_msg)"
    using assms(1,4) by (auto simp: framing_inv_def w_reserve_def ms2(1) add_mult_distrib)
  moreover have "0 < length m" using assms(2) by (simp add: ms2(1) sendable_def)
  then have "length (r_buffer (tcp r)) - length m < length (r_buffer (tcp r))" using long by linarith
  ultimately show ?thesis
    using False long t d assms(1) ms2(2)
    by (intro exI [of _ 1])
       (auto simp: read_once_def read_message_def read_bytes_def queue_write_def framing_inv_def ms2(1) add_mult_distrib)
qed

lemma read_once_waiting: "waiting r \<Longrightarrow> read_once ok_msg r = ([], r)"
  by (auto simp: waiting_def read_once_def read_header_def read_message_def read_bytes_def split: if_splits)

lemma read_loop_framing:
  assumes "framing_inv ok_msg ms1 ms2 sock r" "list_all sendable ms2"
    and "(length ms1 + length ms2) * length (ok_response ok_msg) \<le> k_default_buffer_size"
  shows "\<exists>d r1. read_loop ok_msg r = (take d ms2, r1)
     \<and> framing_inv ok_msg (ms1 @ take d ms2) (drop d ms2) sock r1 \<and> waiting r1"
  using assms
proof (induction "length (r_buffer (tcp r))" arbitrary: r ms1 ms2 rule: less_induct)
  case less
  show ?case
  proof (cases "waiting r")
    case True
    with less.prems(1) show ?thesis
      by (intro exI [of _ 0] exI [of _ r]) (simp add: read_loop.simps [of _ r] read_once_waiting)
  next
    case False
    from read_once_framing [OF less.prems(1,2) False less.prems(3)] obtain d r1 where
      one: "read_once ok_msg r = (take d ms2, r1)" "framing_inv ok_msg (ms1 @ take d ms2) (drop d ms2) sock r1"
        "length (r_buffer (tcp r1)) < length (r_buffer (tcp r))"
      by blast
    have "list_all sendable (drop d ms2)"
      using less.prems(2) by (auto simp: list_all_iff dest: in_set_dropD)
    moreover have "length (ms1 @ take d ms2) + length (drop d ms2) = length ms1 + length ms2" by simp
    ultimately obtain d2 r2 where
      "read_loop ok_msg r1 = (take d2 (drop d ms2), r2)"
      "framing_inv ok_msg ((ms1 @ take d ms2) @ take d2 (drop d ms2)) (drop d2 (drop d ms2)) sock r2" "waiting r2"
      using less.hyps [OF one(3,2)] less.prems(3) by metis
    moreover have "take d ms2 @ take d2 (drop d ms2) = take (d + d2) ms2" by (simp add: take_add)
    ultimately show ?thesis
      using one by (intro exI [of _ "d + d2"] exI [of _ r2])
        (simp add: read_loop.simps [of _ r] read_bytes_def add.commute)
  qed
qed

section \<open>Delivery\<close>

text \<open>
  The bytes of the peer wait in the socket; each time the connection is ready to read some number
  of them is available, and \<open>recv\<close> takes what is available and fits.
\<close>

fun receive :: "byte list \<Rightarrow> nat list \<Rightarrow> byte list \<Rightarrow> riemann_tcp_connection
    \<Rightarrow> byte list list \<times> byte list \<times> riemann_tcp_connection" where
  "receive ok_msg [] sock r = ([], sock, r)"
| "receive ok_msg (n # ns) sock r =
     (if n = 0 \<or> sock = [] then receive ok_msg ns sock r
      else (case read_cb ok_msg (\<lambda>len. Received (take (min n len) sock)) r of
              (ms, r1) \<Rightarrow>
                (case receive ok_msg ns (drop (min n (r_reserve (tcp r))) sock) r1 of
                   (ms2, sock2, r2) \<Rightarrow> (ms @ ms2, sock2, r2))))"

lemma waiting_reserve:
  assumes "framing_inv ok_msg ms1 ms2 sock r" "list_all sendable ms2" "waiting r"
  shows "0 < r_reserve (tcp r)"
proof (cases "reading_header r")
  case False
  then obtain m ms where "ms2 = m # ms" "protobuf_size r = length m"
    using assms(1) by (cases ms2) (auto simp: framing_inv_def)
  with False assms show ?thesis
    by (simp add: framing_inv_def waiting_def r_reserve_def sendable_def)
qed (use assms in \<open>simp add: framing_inv_def waiting_def r_reserve_def k_default_buffer_size_def\<close>)

lemma receive_framing:
  assumes "framing_inv ok_msg ms1 ms2 sock r" "list_all sendable ms2" "waiting r"
    and "(length ms1 + length ms2) * length (ok_response ok_msg) \<le> k_default_buffer_size"
  shows "\<exists>d sock2 r2. receive ok_msg ns sock r = (take d ms2, sock2, r2)
     \<and> framing_inv ok_msg (ms1 @ take d ms2) (drop d ms2) sock2 r2 \<and> waiting r2
     \<and> length sock2 \<le> length sock - length (filter (\<lambda>n. 0 < n) ns)"
  using assms
proof (induction ns arbitrary: ms1 ms2 sock r)
  case Nil
  then show ?case by (intro exI [of _ 0]) simp
next
  case (Cons n ns)
  show ?case
  proof (cases "n = 0 \<or> sock = []")
    case True
    then show ?thesis using Cons.IH [OF Cons.prems] by auto
  next
    case False
    let ?k = "min n (r_reserve (tcp r))"
    have k: "0 < ?k" using waiting_reserve [OF Cons.prems(1-3)] False by simp
    let ?r = "r\<lparr>tcp := (tcp r)\<lparr>r_buffer := r_buffer (tcp r) @ take ?k sock\<rparr>\<rparr>"
    have "framing_inv ok_msg ms1 ms2 (drop ?k sock) ?r"
      using Cons.prems(1) by (simp add: framing_inv_def)
    from read_loop_framing [OF this Cons.prems(2,4)] obtain d r1 where
      l: "read_loop ok_msg ?r = (take d ms2, r1)"
         "framing_inv ok_msg (ms1 @ take d ms2) (drop d ms2) (drop ?k sock) r1" "waiting r1"
      by blast
    have cb: "read_cb ok_msg (\<lambda>len. Received (take (min n len) sock)) r = (take d ms2, r1)"
      using k l(1) by (simp add: read_cb_def tcp_read_def read_from_fd_def)
    have "list_all sendable (drop d ms2)"
      using Cons.prems(2) by (auto simp: list_all_iff dest: in_set_dropD)
    moreover have "length (ms1 @ take d ms2) + length (drop d ms2) = length ms1 + length ms2" by simp
    ultimately obtain d2 sock2 r2 where
      "receive ok_msg ns (drop ?k sock) r1 = (take d2 (drop d ms2), sock2, r2)"
      "framing_inv ok_msg ((ms1 @ take d ms2) @ take d2 (drop d ms2)) (drop d2 (drop d ms2)) sock2 r2"
      "waiting r2" "length sock2 \<le> length (drop ?k sock) - length (filter (\<lambda>n. 0 < n) ns)"
      using Cons.IH [OF l(2) _ l(3)] Cons.prems(4) by metis
    moreover have "take d ms2 @ take d2 (drop d ms2) = take (d + d2) ms2" by (simp add: take_add)
    ultimately show ?thesis
      using False cb k by (intro exI [of _ "d + d2"] exI [of _ sock2] exI [of _ r2]) (simp add: add.commute, linarith)
  qed
qed

text \<open>
  C11. Messages survive any fragmentation: when a peer sends messages that are not empty and fit the
  buffer, then however the network cuts the bytes into reads the connection delivers the first so
  many of them, whole and in order, and stays open; once there were as many reads as bytes it has
  delivered all of them. The acknowledgements fit the write buffer.
\<close>

theorem tcp_messages_delivered:
  assumes "list_all sendable ms" "length ms * length (ok_response ok_msg) \<le> k_default_buffer_size"
  shows "\<exists>d sock r. receive ok_msg ns (frames ms) (new_riemann_connection new_connection) = (take d ms, sock, r)
     \<and> \<not> close_connection (tcp r)
     \<and> length (w_buffer (tcp r)) = length (take d ms) * length (ok_response ok_msg)
     \<and> (length (frames ms) \<le> length (filter (\<lambda>n. 0 < n) ns) \<longrightarrow> take d ms = ms)"
proof -
  let ?r = "new_riemann_connection new_connection"
  have "framing_inv ok_msg [] ms (frames ms) ?r" "waiting ?r"
    by (simp_all add: framing_inv_def waiting_def new_riemann_connection_def new_connection_def)
  from receive_framing [OF this(1) assms(1) this(2)] assms(2) obtain d sock r where
    res: "receive ok_msg ns (frames ms) ?r = (take d ms, sock, r)"
    and inv: "framing_inv ok_msg (take d ms) (drop d ms) sock r" and w: "waiting r"
    and len: "length sock \<le> length (frames ms) - length (filter (\<lambda>n. 0 < n) ns)"
    by fastforce
  have "drop d ms = []" if "sock = []"
    using inv w that by (cases "drop d ms") (auto simp: framing_inv_def waiting_def split: if_splits)
  with len have "length (frames ms) \<le> length (filter (\<lambda>n. 0 < n) ns) \<longrightarrow> take d ms = ms"
    by (metis append_Nil2 append_take_drop_id diff_is_0_eq' le_zero_eq length_0_conv)
  with res inv show ?thesis unfolding framing_inv_def by blast
qed

theorem tcp_messages_delivered_witness:
  "\<exists>d sock r. receive [16, 1] (replicate 11 1) (frames [[7], [8, 9]]) (new_riemann_connection new_connection)
       = (take d [[7], [8, 9]], sock, r)
     \<and> take d [[7], [8, 9]] = ([[7], [8, 9]] :: byte list list)"
proof -
  have s: "list_all sendable [[7], [8, 9]]"
    and a: "length [[7], [8, 9 :: byte]] * length (ok_response [16, 1]) \<le> k_default_buffer_size"
    by (simp_all add: sendable_def k_default_buffer_size_def ok_response_def)
  have "length (frames [[7], [8, 9]]) \<le> length (filter (\<lambda>n. 0 < n) (replicate 11 (1 :: nat)))" by simp
  with tcp_messages_delivered [OF s a, of "replicate 11 1"] show ?thesis by blast
qed

end
