(* ===== verification/Websocket.thy ===== *)
theory Websocket
  imports Tcp Util "HOL-Library.Sublist"
begin

text \<open>
  src/transport/ws_util.cpp and src/transport/ws_connection.cpp: the websocket handshake, the frames
  in both directions and the connection's state machine. Frames are byte lists; the layout that
  memcpy gives a length on a little-endian machine is written out.
\<close>

unbundle bit_operations_syntax

section \<open>The handshake\<close>

definition text_of :: "byte list \<Rightarrow> string" where "text_of bs = map (\<lambda>b. char_of (unat b)) bs"

definition bytes_of :: "string \<Rightarrow> byte list" where "bytes_of s = map of_char s"

record header_values =
  hv_method :: string
  hv_uri :: string
  hv_version :: string
  hv_headers :: "(string, string) um"

definition no_header :: header_values where
  "no_header = \<lparr>hv_method = [], hv_uri = [], hv_version = [], hv_headers = []\<rparr>"

definition k_http_header_end :: string where
  "k_http_header_end = [CHR 0x0D, CHR 0x0A, CHR 0x0D, CHR 0x0A]"

definition k_http_header_end_no_r :: string where
  "k_http_header_end_no_r = [CHR 0x0A, CHR 0x0A]"

definition k_guid :: string where "k_guid = ''258EAFA5-E914-47DA-95CA-C5AB0DC85B11''"

definition ends_with :: "string \<Rightarrow> string \<Rightarrow> bool" where
  "ends_with str ending = (length ending \<le> length str \<and> drop (length str - length ending) str = ending)"

text \<open>\<open>std::getline\<close>, with trailing line ends stripped and empty lines left out.\<close>

definition strip_line :: "string \<Rightarrow> string" where
  "strip_line item = rev (dropWhile (\<lambda>c. c = CHR 0x0D \<or> c = CHR 0x0A) (rev item))"

lemma length_tl_dropWhile: "s \<noteq> [] \<Longrightarrow> length (tl (dropWhile P s)) < length s"
proof -
  assume "s \<noteq> []"
  then have "0 < length s" by simp
  with length_dropWhile_le [of P s] show ?thesis unfolding length_tl by arith
qed

function get_lines :: "string \<Rightarrow> string list" where
  "get_lines s =
     (if s = [] then []
      else let item = strip_line (takeWhile (\<lambda>c. c \<noteq> CHR 0x0A) s);
               rest = get_lines (tl (dropWhile (\<lambda>c. c \<noteq> CHR 0x0A) s))
           in if item = [] then rest else item # rest)"
  by pat_completeness auto
termination
  by (relation "measure length") (simp, simp only: in_measure, rule length_tl_dropWhile, assumption)

declare get_lines.simps [simp del]

text \<open>\<open>boost::split\<close> at spaces with adjacent separators merged.\<close>

function split_spaces :: "string \<Rightarrow> string list" where
  "split_spaces s =
     (let tok = takeWhile (\<lambda>c. c \<noteq> CHR '' '') s; rest = dropWhile (\<lambda>c. c \<noteq> CHR '' '') s
      in if rest = [] then [tok] else tok # split_spaces (dropWhile (\<lambda>c. c = CHR '' '') rest))"
  by pat_completeness auto
termination
proof (relation "measure length", simp)
  fix s tok rest :: string
  assume "rest = dropWhile (\<lambda>c. c \<noteq> CHR '' '') s" "rest \<noteq> []"
  then have "dropWhile (\<lambda>c. c = CHR '' '') rest = dropWhile (\<lambda>c. c = CHR '' '') (tl rest)" "length rest \<le> length s"
    by (metis (mono_tags, lifting) dropWhile.simps(2) hd_dropWhile list.collapse, simp add: length_dropWhile_le)
  with \<open>rest \<noteq> []\<close> show "(dropWhile (\<lambda>c. c = CHR '' '') rest, s) \<in> measure length"
    using length_dropWhile_le [of "\<lambda>c. c = CHR '' ''" "tl rest"] by (cases rest) auto
qed

declare split_spaces.simps [simp del]

definition find_header_end :: "string \<Rightarrow> bool" where
  "find_header_end header =
     (ends_with header k_http_header_end \<or> ends_with header k_http_header_end_no_r)"

text \<open>One header line: the name up to the colon and the value two characters later.\<close>

definition add_header_line :: "(string, string) um \<Rightarrow> string \<Rightarrow> (string, string) um" where
  "add_header_line hs line =
     (let name = takeWhile (\<lambda>c. c \<noteq> CHR '':'') line; pos = length name
      in if pos = length line then hs
         else if length line \<le> pos + 2 then hs
         else map_insert hs name (drop (pos + 2) line))"

definition parse_header :: "string \<Rightarrow> header_values \<Rightarrow> exn + (bool \<times> header_values)" where
  "parse_header header hv =
     (case get_lines header of
        [] \<Rightarrow> Inr (False, hv)
      | first # lines \<Rightarrow>
          (case split_spaces first of
             method # uri # version # _ \<Rightarrow>
               Inr (True, \<lparr>hv_method = method, hv_uri = uri, hv_version = version,
                           hv_headers = foldl add_header_line (hv_headers hv) lines\<rparr>)
           | _ \<Rightarrow> Inl Undefined))"

definition crlf :: string where "crlf = [CHR 0x0D, CHR 0x0A]"

definition make_header_response :: "runtime \<Rightarrow> header_values \<Rightarrow> string \<times> bool" where
  "make_header_response rt hv =
     (case map_of (hv_headers hv) ''Sec-WebSocket-Key'' of
        None \<Rightarrow> ([], False)
      | Some k \<Rightarrow>
          (''HTTP/1.1 101 Switching Protocols'' @ crlf @ ''Upgrade: websocket'' @ crlf
           @ ''Connection: Upgrade'' @ crlf
           @ ''Sec-WebSocket-Accept: '' @ base64Encode (bytes_of (sha1 rt (k @ k_guid))) @ crlf @ crlf, True))"

section \<open>Frames\<close>

text \<open>
  The size fields are laid out by \<open>memcpy\<close> on a little-endian machine; \<open>htons\<close> swaps two bytes.
\<close>

definition le_bytes :: "nat \<Rightarrow> nat \<Rightarrow> byte list" where
  "le_bytes k n = map (\<lambda>i. of_nat (n div 256 ^ i)) [0..<k]"

definition htons :: "nat \<Rightarrow> nat" where
  "htons n = (n mod 256) * 256 + n div 256 mod 256"

definition create_frame :: "byte list \<Rightarrow> byte list" where
  "create_frame payload =
     (let len = length payload
      in [129] @ (if len \<le> 125 then [of_nat len]
                  else if len \<le> 65535 then 126 # le_bytes 2 (htons len)
                  else 127 # le_bytes 8 (htons (len mod 65536))) @ payload)"

record frame_length_t =
  malformed_header :: bool
  pending_bytes :: bool
  header_length :: nat
  payload_length :: "64 word"
  decoded :: "byte list"

definition pending_frame :: "nat \<Rightarrow> 64 word \<Rightarrow> frame_length_t" where
  "pending_frame h p =
     \<lparr>malformed_header = False, pending_bytes = True, header_length = h, payload_length = p, decoded = []\<rparr>"

definition be_value :: "byte list \<Rightarrow> nat" where
  "be_value bs = foldl (\<lambda>n b. 256 * n + unat b) 0 bs"

definition unmask :: "byte list \<Rightarrow> nat \<Rightarrow> nat \<Rightarrow> byte list" where
  "unmask buffer header total_len =
     map (\<lambda>i. buffer ! i XOR buffer ! (header - 4 + (i - header) mod 4)) [header..<total_len]"

text \<open>The sum of the two lengths is a 64-bit sum and wraps.\<close>

definition decode_frame :: "byte list \<Rightarrow> frame_length_t" where
  "decode_frame buffer =
     (if length buffer < 2 then pending_frame 0 0
      else
        let first_len = unat (buffer ! 1 AND 0x7F);
            len_bytes = (if first_len = 126 then 2 else if first_len = 127 then 8 else 1)
        in if length buffer - 2 < len_bytes then pending_frame 0 0
           else
             let payload = (of_nat (if len_bytes = 1 then first_len
                                    else be_value (take len_bytes (drop 2 buffer))) :: 64 word);
                 header = 1 + len_bytes + 4 + (if 1 < len_bytes then 1 else 0);
                 total = unat (of_nat header + payload)
             in if length buffer < total then pending_frame header payload
                else \<lparr>malformed_header = False, pending_bytes = False, header_length = header,
                      payload_length = payload, decoded = unmask buffer header total\<rparr>)"

section \<open>Connections\<close>

definition max_header_size :: nat where "max_header_size = 1024 * 2"

definition k_read_http_header :: "32 word" where "k_read_http_header = 0x1"
definition k_write_http_header :: "32 word" where "k_write_http_header = 0x2"
definition k_read_frame_header :: "32 word" where "k_read_frame_header = 0x4"
definition k_write_frame :: "32 word" where "k_write_frame = 0x08"

record ws_connection =
  ws_tcp :: tcp_connection
  ws_header :: header_values
  ws_state :: "32 word"

definition new_ws_connection :: "tcp_connection \<Rightarrow> ws_connection" where
  "new_ws_connection c = \<lparr>ws_tcp = c, ws_header = no_header, ws_state = k_read_http_header\<rparr>"

definition close_ws :: "ws_connection \<Rightarrow> ws_connection" where
  "close_ws c = c\<lparr>ws_tcp := (ws_tcp c)\<lparr>close_connection := True\<rparr>\<rparr>"

definition ws_write_cb :: "(byte list \<Rightarrow> nat option) \<Rightarrow> ws_connection \<Rightarrow> ws_connection" where
  "ws_write_cb wr c =
     (if ws_state c AND (k_write_http_header OR k_write_frame) = 0 then c
      else (case tcp_write wr (ws_tcp c) of
              (False, t) \<Rightarrow> c\<lparr>ws_tcp := t\<rparr>
            | (True, t) \<Rightarrow>
                if pending_write t then c\<lparr>ws_tcp := t\<rparr>
                else if ws_state c AND k_write_http_header \<noteq> 0
                then c\<lparr>ws_tcp := t, ws_state := k_write_frame OR k_read_frame_header\<rparr>
                else c\<lparr>ws_tcp := t\<rparr>))"

definition send_frame :: "byte list \<Rightarrow> ws_connection \<Rightarrow> bool \<times> ws_connection" where
  "send_frame payload c =
     (case queue_write (create_frame payload) (ws_tcp c) of
        (False, t) \<Rightarrow> (False, c\<lparr>ws_tcp := t\<rparr>)
      | (True, t) \<Rightarrow> (True, c\<lparr>ws_tcp := t, ws_state := ws_state c OR k_write_frame\<rparr>))"

definition read_ws_header :: "tcp_connection \<Rightarrow> string" where
  "read_ws_header t = text_of (r_buffer t)"

definition write_response_header :: "runtime \<Rightarrow> ws_connection \<Rightarrow> ws_connection" where
  "write_response_header rt c =
     (case make_header_response rt (ws_header c) of
        (response, True) \<Rightarrow>
          (case queue_write (bytes_of response) (ws_tcp c) of
             (ok, t) \<Rightarrow>
               (let c1 = c\<lparr>ws_tcp := t\<rparr>
                in (if ok then c1 else close_ws c1)\<lparr>ws_state := k_write_http_header OR k_read_frame_header\<rparr>))
      | (_, False) \<Rightarrow> close_ws c)"

definition ws_read_header :: "runtime \<Rightarrow> recv_fn \<Rightarrow> ws_connection \<Rightarrow> exn + ws_connection" where
  "ws_read_header rt recv c =
     (case tcp_read recv (ws_tcp c) of
        (False, t) \<Rightarrow> Inr (c\<lparr>ws_tcp := t\<rparr>)
      | (True, t) \<Rightarrow>
          let c1 = c\<lparr>ws_tcp := t\<rparr>
          in if max_header_size < read_bytes t then Inr (close_ws c1)
             else if \<not> find_header_end (read_ws_header t) then Inr c1
             else bind_exn (parse_header (read_ws_header t) (ws_header c1)) (\<lambda>(ok, hv).
                    let c2 = c1\<lparr>ws_header := hv\<rparr>
                    in Inr (if ok then write_response_header rt c2 else close_ws c2)))"

text \<open>\<open>read_frame\<close> returns before it does anything.\<close>

definition ws_read_frame :: "ws_connection \<Rightarrow> ws_connection" where
  "ws_read_frame c = c"

definition ws_read_cb :: "runtime \<Rightarrow> recv_fn \<Rightarrow> ws_connection \<Rightarrow> exn + ws_connection" where
  "ws_read_cb rt recv c =
     (if ws_state c OR k_read_http_header \<noteq> 0 then ws_read_header rt recv c
      else if ws_state c OR k_read_frame_header \<noteq> 0 then Inr (ws_read_frame c)
      else Inr c)"

definition ws_callback :: "runtime \<Rightarrow> recv_fn option \<Rightarrow> (byte list \<Rightarrow> nat option) option \<Rightarrow> ws_connection
    \<Rightarrow> exn + ws_connection" where
  "ws_callback rt ready_read ready_write c =
     bind_exn (case ready_read of None \<Rightarrow> Inr c | Some recv \<Rightarrow> ws_read_cb rt recv c) (\<lambda>c1.
       Inr (if close_connection (ws_tcp c1) then c1
            else (case ready_write of None \<Rightarrow> c1 | Some wr \<Rightarrow> ws_write_cb wr c1)))"

definition ws_uri :: "ws_connection \<Rightarrow> string" where "ws_uri c = hv_uri (ws_header c)"

section \<open>Frames of a client\<close>

text \<open>
  A text frame as RFC 6455 (section 5.2) has a client build it: the length in one, three or nine
  bytes with the mask bit set, the mask, and the payload combined with it.
\<close>

definition be_bytes :: "nat \<Rightarrow> nat \<Rightarrow> byte list" where
  "be_bytes k n = rev (le_bytes k n)"

definition client_size :: "nat \<Rightarrow> byte list" where
  "client_size n =
     (if n \<le> 125 then [of_nat (128 + n)]
      else if n \<le> 65535 then 254 # be_bytes 2 n else 255 # be_bytes 8 n)"

definition masked :: "byte list \<Rightarrow> byte list \<Rightarrow> byte list" where
  "masked key p = map (\<lambda>i. p ! i XOR key ! (i mod 4)) [0..<length p]"

definition client_frame :: "byte list \<Rightarrow> byte list \<Rightarrow> byte list" where
  "client_frame key p = [129] @ client_size (length p) @ key @ masked key p"

lemma length_le_bytes [simp]: "length (le_bytes k n) = k" "length (be_bytes k n) = k"
  by (simp_all add: le_bytes_def be_bytes_def)

lemma be_value_snoc [simp]: "be_value (xs @ [b]) = 256 * be_value xs + unat b"
  by (simp add: be_value_def)

lemma le_bytes_Suc: "le_bytes (Suc k) n = of_nat n # le_bytes k (n div 256)"
proof -
  have "le_bytes (Suc k) n = of_nat n # map (\<lambda>i. of_nat (n div 256 ^ Suc i)) [0..<k]"
    unfolding le_bytes_def by (simp only: upt_conv_Cons map_Suc_upt [symmetric] map_map comp_def) simp
  then show ?thesis by (simp add: le_bytes_def div_mult2_eq)
qed

lemma be_value_be_bytes: "n < 256 ^ k \<Longrightarrow> be_value (be_bytes k n) = n"
proof (induction k arbitrary: n)
  case 0
  then show ?case by (simp add: be_bytes_def le_bytes_def be_value_def)
next
  case (Suc k)
  have "n div 256 < 256 ^ k" using Suc.prems by (simp add: less_mult_imp_div_less mult.commute)
  with Suc.IH have "be_value (rev (le_bytes k (n div 256))) = n div 256" by (simp add: be_bytes_def)
  then show ?case by (simp add: be_bytes_def le_bytes_Suc unat_of_nat)
qed

lemma unat_low7: "unat (w AND 0x7F) = unat (w :: byte) mod 128"
proof -
  have "w AND 0x7F = take_bit 7 w" by (simp add: take_bit_eq_mask mask_numeral)
  then show ?thesis by (simp add: unsigned_take_bit_eq take_bit_nat_def)
qed

lemma client_size_first:
  "unat (client_size n ! 0 AND 0x7F) = (if n \<le> 125 then n else if n \<le> 65535 then 126 else 127)"
proof (cases "n \<le> 125")
  case True
  then have "unat (of_nat (128 + n) :: byte) = 128 + n" by (subst unat_of_nat) simp
  with True show ?thesis unfolding client_size_def unat_low7 by simp
qed (simp add: client_size_def unat_low7)

lemma unat_total: "n < 2 ^ 63 \<Longrightarrow> unat (of_nat h + of_nat n :: 64 word) = h + n" if "h \<le> 14"
  using that by (simp flip: of_nat_add add: unat_of_nat)

lemma decode_frame_sized:
  assumes "take (1 + length (client_size n)) b = 129 # client_size n" "n < 2 ^ 63" "3 \<le> length b"
  defines "h \<equiv> 5 + length (client_size n)"
  shows "decode_frame b =
     (if length b < h + n then pending_frame h (of_nat n)
      else \<lparr>malformed_header = False, pending_bytes = False, header_length = h,
            payload_length = of_nat n, decoded = unmask b h (h + n)\<rparr>)"
proof -
  have "b ! 1 = client_size n ! 0"
    using arg_cong [OF assms(1), of "\<lambda>xs. xs ! 1"] by (simp add: client_size_def split: if_splits)
  then have first: "unat (b ! 1 AND 0x7F) = (if n \<le> 125 then n else if n \<le> 65535 then 126 else 127)"
    using client_size_first [of n] by simp
  have len: "1 + length (client_size n) \<le> length b"
    using arg_cong [OF assms(1), of length] by simp
  have nonempty: "0 < length (client_size n)" by (simp add: client_size_def)
  have size: "take (length (client_size n) - 1) (drop 2 b) = tl (client_size n)"
    using arg_cong [OF assms(1), of "drop 2"] nonempty by (simp add: take_drop add.commute drop_Suc)
  consider "n \<le> 125" | "125 < n" "n \<le> 65535" | "65535 < n" by linarith
  then show ?thesis
  proof cases
    case 1
    then have "length (client_size n) = 1" by (simp add: client_size_def)
    with 1 assms(2,3) unat_total [of 6 n] show ?thesis
      unfolding decode_frame_def Let_def first h_def by simp
  next
    case 2
    then have "length (client_size n) = 3" "be_value (tl (client_size n)) = n"
      using be_value_be_bytes [of n 2] by (simp_all add: client_size_def)
    with 2 assms(2,3) len size unat_total [of 8 n] show ?thesis
      unfolding decode_frame_def Let_def first h_def by simp
  next
    case 3
    then have "length (client_size n) = 9" "be_value (tl (client_size n)) = n"
      using be_value_be_bytes [of n 8] assms(2) by (simp_all add: client_size_def)
    with 3 assms(2,3) len size unat_total [of 14 n] show ?thesis
      unfolding decode_frame_def Let_def first h_def by simp
  qed
qed

lemma unmask_masked:
  assumes "length key = 4"
  shows "unmask (pre @ key @ masked key p @ rest) (length pre + 4) (length pre + 4 + length p) = p"
proof (rule nth_equalityI)
  show "length (unmask (pre @ key @ masked key p @ rest) (length pre + 4) (length pre + 4 + length p)) = length p"
    by (simp add: unmask_def)
next
  fix i assume "i < length (unmask (pre @ key @ masked key p @ rest) (length pre + 4) (length pre + 4 + length p))"
  then have i: "i < length p" by (simp add: unmask_def)
  let ?b = "pre @ key @ masked key p @ rest"
  have "?b ! (length pre + 4 + i) = p ! i XOR key ! (i mod 4)"
    using assms i by (simp add: nth_append masked_def)
  moreover have "?b ! (length pre + i mod 4) = key ! (i mod 4)"
    using assms by (simp add: nth_append)
  ultimately show "unmask ?b (length pre + 4) (length pre + 4 + length p) ! i = p ! i"
    using i by (simp add: unmask_def xor.assoc)
qed

lemma decode_frame_short:
  assumes "length b < 1 + length (client_size n) \<or> length b < 3" "n < 2 ^ 63"
    and "b = take (length b) (129 # client_size n @ xs)" 
  shows "pending_bytes (decode_frame b)"
proof (cases "length b < 2")
  case True
  then show ?thesis by (simp add: decode_frame_def pending_frame_def)
next
  case False
  then have "b ! 1 = client_size n ! 0"
    using arg_cong [OF assms(3), of "\<lambda>xs. xs ! 1"] by (simp add: client_size_def split: if_splits)
  then have first: "unat (b ! 1 AND 0x7F) = (if n \<le> 125 then n else if n \<le> 65535 then 126 else 127)"
    using client_size_first [of n] by simp
  have "length b - 2 < (if n \<le> 125 then 1 else if n \<le> 65535 then 2 else 8)"
    using assms(1) False by (auto simp: client_size_def split: if_splits)
  then show ?thesis
    unfolding decode_frame_def Let_def first by (auto simp: pending_frame_def split: if_splits)
qed

text \<open>
  C34. \<open>decode_frame\<close> inverts the framing of a client: on a buffer that starts with a frame it reports
  the exact extent of that frame and returns its payload unmasked, whatever follows in the buffer,
  and on every proper prefix of a frame it asks for more bytes.
\<close>

theorem decode_client_frame:
  assumes "length key = 4" "length p < 2 ^ 63"
  shows "decode_frame (client_frame key p @ rest) =
       \<lparr>malformed_header = False, pending_bytes = False,
        header_length = length (client_frame key p) - length p,
        payload_length = of_nat (length p), decoded = p\<rparr>
     \<and> (k < length (client_frame key p) \<longrightarrow> pending_bytes (decode_frame (take k (client_frame key p))))"
proof (intro conjI impI)
  let ?s = "client_size (length p)" and ?f = "client_frame key p"
  have f: "?f = (129 # ?s) @ key @ masked key p" by (simp add: client_frame_def)
  have len: "length ?f = 5 + length ?s + length p" using assms(1) by (simp add: f masked_def)
  have "3 \<le> length (?f @ rest)" using len by simp
  from decode_frame_sized [OF _ assms(2) this] len
  show "decode_frame (?f @ rest) =
       \<lparr>malformed_header = False, pending_bytes = False,
        header_length = length ?f - length p, payload_length = of_nat (length p), decoded = p\<rparr>"
    using unmask_masked [OF assms(1), of "129 # ?s" p rest] by (simp add: f)
  assume k: "k < length ?f"
  show "pending_bytes (decode_frame (take k ?f))"
  proof (cases "k < 1 + length ?s \<or> k < 3")
    case True
    with k assms(2) show ?thesis
      by (intro decode_frame_short [of _ "length p" "key @ masked key p"]) (auto simp: f min_def)
  next
    case False
    then have "take (1 + length ?s) (take k ?f) = 129 # ?s" by (simp add: f min_def)
    from decode_frame_sized [OF this assms(2)] False k len show ?thesis by (simp add: pending_frame_def)
  qed
qed

theorem decode_client_frame_witness:
  "pending_bytes (decode_frame (take 7 (client_frame [1, 2, 3, 4] [104, 105])))
   \<and> decoded (decode_frame (client_frame [1, 2, 3, 4] [104, 105] @ [129])) = [104, 105]"
  using decode_client_frame [of "[1, 2, 3, 4]" "[104, 105]" "[129]" 7]
  by (simp add: client_frame_def client_size_def masked_def)

section \<open>Frames of the server\<close>

text \<open>
  A client's reading of an unmasked frame (RFC 6455): the payload length and the payload.
\<close>

definition client_reads :: "byte list \<Rightarrow> (nat \<times> byte list) option" where
  "client_reads b =
     (if length b < 2 then None
      else let n = unat (b ! 1);
               (size, rest) = (if n \<le> 125 then (n, drop 2 b)
                               else if n = 126 then (be_value (take 2 (drop 2 b)), drop 4 b)
                               else (be_value (take 8 (drop 2 b)), drop 10 b))
           in if length rest < size then None else Some (size, take size rest))"

lemma of_nat_byte_eq: "a mod 256 = b mod 256 \<Longrightarrow> (of_nat a :: byte) = of_nat b"
  by (simp add: word_unat_eq_iff unat_of_nat)

lemma le_bytes_htons: "n < 65536 \<Longrightarrow> le_bytes 2 (htons n) = be_bytes 2 n"
proof -
  assume n: "n < 65536"
  then have "n div 256 < 256" by (simp add: less_mult_imp_div_less)
  then have "(of_nat (htons n) :: byte) = of_nat (n div 256)" "(of_nat (htons n div 256) :: byte) = of_nat n"
    unfolding htons_def by - (rule of_nat_byte_eq, simp)+
  then show ?thesis by (simp add: le_bytes_def be_bytes_def numeral_2_eq_2)
qed

lemma be_value_append: "be_value (xs @ ys) = be_value xs * 256 ^ length ys + be_value ys"
proof (induction ys rule: rev_induct)
  case (snoc y ys)
  then show ?case by (simp add: be_value_snoc [of "xs @ ys", simplified] algebra_simps)
qed (simp add: be_value_def)

lemma be_value_long_size: "n < 65536 \<Longrightarrow> be_value (le_bytes 8 (htons n)) = n * 256 ^ 6"
proof -
  assume n: "n < 65536"
  have h: "htons n < 65536"
    using n mod_less_divisor [of 256 n] mod_less_divisor [of 256 "n div 256"] unfolding htons_def by linarith
  have upt: "[0..<8] = [0, 1, 2, 3, 4, 5, 6, 7 :: nat]" "[0..<2] = [0, 1 :: nat]" by (simp_all add: upt_rec)
  have "le_bytes 8 (htons n) = le_bytes 2 (htons n) @ [0, 0, 0, 0, 0, 0]"
    using h upt by (simp add: le_bytes_def)
  with n show ?thesis
    using be_value_be_bytes [of n 2] by (simp add: be_value_append le_bytes_htons) (simp add: be_value_def)
qed



section \<open>What a connection reads\<close>

text \<open>A client's bytes arrive in chunks; a connection that closed reads no more.\<close>

fun ws_feed :: "runtime \<Rightarrow> byte list list \<Rightarrow> ws_connection \<Rightarrow> exn + ws_connection" where
  "ws_feed rt [] c = Inr c"
| "ws_feed rt (b # bs) c =
     (if close_connection (ws_tcp c) then Inr c
      else bind_exn (ws_read_cb rt (\<lambda>_. Received b) c) (ws_feed rt bs))"

lemma or_bit_nonzero: "(w :: 32 word) OR 1 \<noteq> 0"
  by (metis bit_0_eq bit_1_0 bit_or_iff bot_apply bot_bool_def)

lemma ws_read_cb_buffer:
  assumes "ws_read_cb rt (\<lambda>_. Received b) c = Inr c'" "\<not> close_connection (ws_tcp c')"
    and "length (r_buffer (ws_tcp c)) < r_capacity (ws_tcp c)"
  shows "r_buffer (ws_tcp c') = r_buffer (ws_tcp c) @ b \<and> r_capacity (ws_tcp c') = r_capacity (ws_tcp c)
     \<and> length (r_buffer (ws_tcp c')) \<le> max_header_size"
proof -
  have "ws_state c OR k_read_http_header \<noteq> 0" by (simp add: k_read_http_header_def or_bit_nonzero)
  with assms show ?thesis
    by (auto simp: ws_read_cb_def ws_read_header_def tcp_read_def read_from_fd_def r_reserve_def read_bytes_def
        Let_def close_ws_def write_response_header_def queue_write_def bind_exn_def
        split: if_splits sum.splits prod.splits bool.splits)
qed

lemma ws_feed_open:
  assumes "ws_feed rt bs c0 = Inr c" "\<not> close_connection (ws_tcp c)"
    and "length (r_buffer (ws_tcp c0)) \<le> max_header_size" "r_capacity (ws_tcp c0) = k_default_buffer_size"
  shows "r_buffer (ws_tcp c) = r_buffer (ws_tcp c0) @ concat bs \<and> length (r_buffer (ws_tcp c)) \<le> max_header_size"
  using assms(1,3,4)
proof (induction bs arbitrary: c0)
  case (Cons b bs)
  have "\<not> close_connection (ws_tcp c0)" using Cons.prems(1) assms(2) by auto
  with Cons.prems(1) obtain c1 where
    c1: "ws_read_cb rt (\<lambda>_. Received b) c0 = Inr c1" "ws_feed rt bs c1 = Inr c"
    by (auto simp: bind_exn_Inr_iff)
  have "\<not> close_connection (ws_tcp c1)" using c1(2) assms(2) by (cases bs) auto
  moreover have "length (r_buffer (ws_tcp c0)) < r_capacity (ws_tcp c0)"
    using Cons.prems(2,3) by (simp add: max_header_size_def k_default_buffer_size_def)
  ultimately have
    "r_buffer (ws_tcp c1) = r_buffer (ws_tcp c0) @ b" "r_capacity (ws_tcp c1) = k_default_buffer_size"
    "length (r_buffer (ws_tcp c1)) \<le> max_header_size"
    using ws_read_cb_buffer [OF c1(1)] Cons.prems(3) by auto
  with Cons.IH [OF c1(2)] show ?case by auto
qed simp

text \<open>
  C36. The input of a websocket connection is never consumed: every read goes to the handshake
  parser, also after the handshake, and a connection that is still open has received at most
  2048 bytes since it was accepted, all of which are still in its buffer.
\<close>

theorem ws_open_input_bounded:
  assumes "ws_feed rt bs (new_ws_connection new_connection) = Inr c" "\<not> close_connection (ws_tcp c)"
  shows "r_buffer (ws_tcp c) = concat bs \<and> length (concat bs) \<le> max_header_size"
  using ws_feed_open [OF assms] by (auto simp: new_ws_connection_def new_connection_def)

theorem ws_open_input_bounded_witness:
  "\<exists>c. ws_feed (rt_at 0) [[71], [69, 84]] (new_ws_connection new_connection) = Inr c
     \<and> r_buffer (ws_tcp c) = [71, 69, 84]"
proof -
  have "\<exists>c. ws_feed (rt_at 0) [[71], [69, 84]] (new_ws_connection new_connection) = Inr c
      \<and> \<not> close_connection (ws_tcp c)"
    by (simp add: ws_read_cb_def k_read_http_header_def or_bit_nonzero ws_read_header_def tcp_read_def
        read_from_fd_def r_reserve_def new_ws_connection_def new_connection_def k_default_buffer_size_def
        read_bytes_def max_header_size_def find_header_end_def ends_with_def k_http_header_end_def
        k_http_header_end_no_r_def read_ws_header_def text_of_def Let_def char_of_def)
  then obtain c where "ws_feed (rt_at 0) [[71], [69, 84]] (new_ws_connection new_connection) = Inr c"
    "\<not> close_connection (ws_tcp c)" by blast
  with ws_open_input_bounded [OF this] show ?thesis by simp
qed

end
