(* ===== verification/Scheduler.thy ===== *)
theory Scheduler
  imports Priority_Queue Floats
begin

text \<open>
  The schedulers (\<open>scheduler/mock_scheduler.cpp\<close>, \<open>scheduler/real_scheduler.cpp\<close>) and the timers of an
  event loop (\<open>async/real_async_loop.cpp\<close>): which tasks run when the clock of the rule tester moves,
  which run in a timer callback, and how the tasks of a library are taken out of all loops before it
  is unloaded.
\<close>

section \<open>The scheduler of the rule tester\<close>

text \<open>A task is due at a time, with an interval when it is periodic and zero when it runs once.\<close>

record 'a task =
  due :: int
  interval :: int
  job :: 'a

record 'a mock_scheduler =
  clock :: int
  tasks :: "'a task pq"

definition new_mock_scheduler :: "'a mock_scheduler" where
  "new_mock_scheduler = \<lparr>clock = 0, tasks = []\<rparr>"

definition add_periodic_task :: "'a \<Rightarrow> fp \<Rightarrow> 'a mock_scheduler \<Rightarrow> exn + 'a mock_scheduler" where
  "add_periodic_task f t s =
     bind_exn (int64_of_fp t) (\<lambda>p.
       Inr (s\<lparr>tasks := pq_push due \<lparr>due = clock s + p, interval = p, job = f\<rparr> (tasks s)\<rparr>))"

definition add_once_task :: "'a \<Rightarrow> fp \<Rightarrow> 'a mock_scheduler \<Rightarrow> exn + 'a mock_scheduler" where
  "add_once_task f dt s =
     bind_exn (int64_of_fp dt) (\<lambda>p.
       Inr (s\<lparr>tasks := pq_push due \<lparr>due = clock s + p, interval = 0, job = f\<rparr> (tasks s)\<rparr>))"

definition set_forward_time :: "int \<Rightarrow> 'a mock_scheduler \<Rightarrow> 'a mock_scheduler" where
  "set_forward_time t s = (if clock s < t then s\<lparr>clock := t\<rparr> else s)"

text \<open>
  The loop of \<open>set_time\<close>: the jobs it runs, with the clock at that moment, and the scheduler after it.
  \<open>run\<close> is what a job does to the scheduler when it is called; it may add tasks. With a negative
  interval the loop would not end.
\<close>

partial_function (option) run_due ::
  "('a \<Rightarrow> 'a mock_scheduler \<Rightarrow> 'a mock_scheduler) \<Rightarrow> int \<Rightarrow> 'a mock_scheduler
     \<Rightarrow> ((int \<times> 'a) list \<times> 'a mock_scheduler) option"
where
  "run_due run event_time s =
     (if pq_empty (tasks s) then Some ([], s)
      else let t = pq_top (tasks s)
           in if event_time < due t then Some ([], s)
              else let s1 = set_forward_time (due t) s;
                       s2 = run (job t) (s1\<lparr>tasks := pq_pop (tasks s1)\<rparr>);
                       s3 = (if interval t \<noteq> 0
                             then s2\<lparr>tasks := pq_push due \<lparr>due = clock s2 + interval t, interval = interval t,
                                                          job = job t\<rparr> (tasks s2)\<rparr>
                             else s2)
                   in Option.bind (run_due run event_time s3)
                        (\<lambda>(fired, s4). Some ((clock s1, job t) # fired, s4)))"

definition sched_set_time ::
  "('a \<Rightarrow> 'a mock_scheduler \<Rightarrow> 'a mock_scheduler) \<Rightarrow> int \<Rightarrow> 'a mock_scheduler
     \<Rightarrow> ((int \<times> 'a) list \<times> 'a mock_scheduler) option"
where
  "sched_set_time run event_time s =
     Option.bind (run_due run event_time s) (\<lambda>(fired, s1). Some (fired, set_forward_time event_time s1))"

definition clear_tasks :: "'a mock_scheduler \<Rightarrow> 'a mock_scheduler" where
  "clear_tasks s = \<lparr>clock = 0, tasks = []\<rparr>"

section \<open>When tasks run\<close>

definition due_times :: "int \<Rightarrow> 'a task \<Rightarrow> int list" where
  "due_times T t =
     (if T < due t then []
      else if interval t = 0 then [due t]
      else map (\<lambda>k. due t + int k * interval t) [0..<Suc (nat ((T - due t) div interval t))])"

definition firings :: "int \<Rightarrow> 'a task \<Rightarrow> (int \<times> 'a) list" where
  "firings T t = map (\<lambda>d. (d, job t)) (due_times T t)"

definition sched_inv :: "'a mock_scheduler \<Rightarrow> bool" where
  "sched_inv s \<longleftrightarrow> pq_inv due (tasks s) \<and> list_all (\<lambda>t. clock s \<le> due t \<and> 0 \<le> interval t) (tasks s)"

definition next_run :: "'a task \<Rightarrow> 'a task" where
  "next_run t = \<lparr>due = due t + interval t, interval = interval t, job = job t\<rparr>"

lemma due_times_step:
  assumes "due t \<le> T" "0 < interval t"
  shows "due_times T t = due t # due_times T (next_run t)"
proof -
  let ?p = "interval t" and ?k = "(T - due t) div interval t"
  have next_k: "(T - (due t + ?p)) div ?p = ?k - 1"
    using assms(2) div_add_self2 [of ?p "T - (due t + ?p)"] by (simp add: algebra_simps)
  show ?thesis
  proof (cases "T < due t + ?p")
    case True
    then have "?k = 0" using assms by (simp add: div_pos_pos_trivial)
    with True assms show ?thesis by (simp add: due_times_def next_run_def)
  next
    case False
    then have "0 \<le> ?k - 1"
      unfolding next_k [symmetric] using assms(2) by (simp add: pos_imp_zdiv_nonneg_iff)
    then have "nat ?k = Suc (nat (?k - 1))" by simp
    moreover have "[0..<Suc n] = 0 # map Suc [0..<n]" for n
      by (simp add: map_Suc_upt upt_conv_Cons del: upt_Suc)
    ultimately have "[0..<Suc (nat ?k)] = 0 # map Suc [0..<Suc (nat (?k - 1))]" by metis
    then have "due_times T t = due t # map (\<lambda>k. due t + int (Suc k) * ?p) [0..<Suc (nat (?k - 1))]"
      using assms by (simp only: due_times_def list.map map_map comp_def) simp
    also have "\<dots> = due t # due_times T (next_run t)"
      using False assms by (simp add: due_times_def next_run_def next_k distrib_right add.assoc del: upt_Suc)
    finally show ?thesis .
  qed
qed

lemma firings_step:
  "due t \<le> T \<Longrightarrow> 0 < interval t \<Longrightarrow> firings T t = (due t, job t) # firings T (next_run t)"
  by (simp add: firings_def due_times_step) (simp add: next_run_def)

text \<open>What is still to run; every round of the loop makes it smaller.\<close>

definition backlog :: "int \<Rightarrow> 'a task multiset \<Rightarrow> nat" where
  "backlog T ts = (\<Sum>t\<in>#ts. nat (T + 1 - due t))"

definition all_firings :: "int \<Rightarrow> 'a task multiset \<Rightarrow> (int \<times> 'a) multiset" where
  "all_firings T ts = (\<Sum>t\<in>#ts. mset (firings T t))"

lemma all_firings_add [simp]: "all_firings T (add_mset t ts) = mset (firings T t) + all_firings T ts"
  by (simp add: all_firings_def)

lemma backlog_add [simp]: "backlog T (add_mset t ts) = nat (T + 1 - due t) + backlog T ts"
  by (simp add: backlog_def)

lemma all_firings_none: "(\<And>t. t \<in># ts \<Longrightarrow> T < due t) \<Longrightarrow> all_firings T ts = {#}"
  by (induction ts) (auto simp: firings_def due_times_def all_firings_def)

lemma run_due_correct:
  assumes "sched_inv s"
  shows "\<exists>fired s1. run_due (\<lambda>_ s. s) T s = Some (fired, s1) \<and> mset fired = all_firings T (mset (tasks s))
     \<and> sorted (map fst fired) \<and> list_all (\<lambda>x. clock s \<le> fst x) fired
     \<and> sched_inv s1 \<and> list_all (\<lambda>t. T < due t) (tasks s1) \<and> clock s \<le> clock s1 \<and> clock s1 \<le> max (clock s) T"
  using assms
proof (induction "backlog T (mset (tasks s))" arbitrary: s rule: less_induct)
  case less
  have inv: "pq_inv due (tasks s)" using less.prems by (simp add: sched_inv_def)
  show ?case
  proof (cases "tasks s = [] \<or> T < due (pq_top (tasks s))")
    case True
    then have later: "T < due t" if "t \<in> set (tasks s)" for t
      using that pq.top_least [OF inv, of t] by auto
    then have "all_firings T (mset (tasks s)) = {#}" by (intro all_firings_none) simp
    with less.prems True later show ?thesis
      by (intro exI [of _ "[]"] exI [of _ s]) (auto simp: run_due.simps [of _ T s] pq_empty_def list_all_iff)
  next
    case False
    then obtain t ts where ts: "tasks s = t # ts" and t: "due t \<le> T"
      by (cases "tasks s") (auto simp: pq_top_def)
    from less.prems have c: "clock s \<le> due t" "0 \<le> interval t"
      and rest: "list_all (\<lambda>u. due t \<le> due u \<and> 0 \<le> interval u) ts" "pq_inv due ts"
      by (auto simp: sched_inv_def pq_inv_def ts list_all_iff)
    have fwd: "clock (set_forward_time (due t) s) = due t" "tasks (set_forward_time (due t) s) = t # ts"
      using c(1) by (auto simp: set_forward_time_def ts)
    let ?q = "if interval t \<noteq> 0 then pq_push due (next_run t) ts else ts"
    let ?s = "(set_forward_time (due t) s)\<lparr>tasks := ?q\<rparr>"
    have s: "sched_inv ?s" "clock ?s = due t"
      using c rest fwd by (auto simp: sched_inv_def pq_inv_push list_all_iff set_pq_push next_run_def)
    have fir: "mset (firings T t) + all_firings T (mset ts) = add_mset (due t, job t) (all_firings T (mset ?q))"
      using t c(2) by (auto simp: mset_pq_push firings_step) (simp add: firings_def due_times_def)
    have "backlog T (mset ?q) < backlog T (mset (tasks s))"
      using t c(2) by (auto simp: ts mset_pq_push next_run_def)
    from less.hyps [of ?s] this s(1) obtain fired s1 where
      r: "run_due (\<lambda>_ s. s) T ?s = Some (fired, s1)" "mset fired = all_firings T (mset ?q)" "sorted (map fst fired)"
        "list_all (\<lambda>x. due t \<le> fst x) fired" "sched_inv s1" "list_all (\<lambda>t. T < due t) (tasks s1)"
        "due t \<le> clock s1" "clock s1 \<le> max (due t) T"
      using s(2) by auto
    have "run_due (\<lambda>_ s. s) T s = Some ((due t, job t) # fired, s1)"
      using r(1) t fwd
      by (subst run_due.simps)
         (cases "interval t = 0"; simp add: ts pq_empty_def pq_top_def pq_pop_def Let_def next_run_def)
    with r fir c(1) t show ?thesis
      by (intro exI [of _ "(due t, job t) # fired"] exI [of _ s1]) (auto simp: ts list_all_iff)
  qed
qed

lemma sched_inv_add:
  assumes "sched_inv s" "int64_of_fp t = Inr p" "0 \<le> p"
  shows "\<exists>s1. add_periodic_task f t s = Inr s1 \<and> sched_inv s1" "\<exists>s1. add_once_task f t s = Inr s1 \<and> sched_inv s1"
  using assms
  by (auto simp: add_periodic_task_def add_once_task_def sched_inv_def pq_inv_push list_all_iff set_pq_push)



section \<open>The timers of an event loop\<close>

text \<open>A task in the queue of a loop; its id is unique within the loop and times are milliseconds.\<close>

record 'a sched_task_t =
  lib_namespace :: string
  sched_job :: 'a
  timer_id :: nat
  interval_ms :: int
  time_ms :: int

record 'a timer_loop =
  loop_tasks :: "'a sched_task_t pq"
  next_timer_id :: nat

definition task_ms :: "fp \<Rightarrow> exn + int" where
  "task_ms t =
     bind_exn (int64_of_fp (float_of_double (fp_mul t (Fin 1000)))) (\<lambda>i. if i < 0 then Inl Undefined else Inr i)"

definition loop_add_task :: "int \<Rightarrow> string \<Rightarrow> 'a \<Rightarrow> bool \<Rightarrow> fp \<Rightarrow> 'a timer_loop \<Rightarrow> exn + (nat \<times> 'a timer_loop)" where
  "loop_add_task now ns f once t l =
     bind_exn (task_ms t) (\<lambda>t_ms.
       Inr (next_timer_id l,
            \<lparr>loop_tasks = pq_push time_ms
               \<lparr>lib_namespace = ns, sched_job = f, timer_id = next_timer_id l,
                interval_ms = (if once then 0 else t_ms), time_ms = now + t_ms\<rparr> (loop_tasks l),
             next_timer_id = next_timer_id l + 1\<rparr>))"

text \<open>The delay to which \<open>sched_next_task\<close> sets the timer, none when it stops it.\<close>

definition sched_next_task :: "int \<Rightarrow> 'a timer_loop \<Rightarrow> fp option" where
  "sched_next_task now l =
     (if pq_empty (loop_tasks l) then None
      else let next_time = time_ms (pq_top (loop_tasks l))
           in Some (if next_time < now then Fin 0
                    else float_of_double (fp_div (double_of_int (next_time - now)) (Fin 1000))))"

text \<open>
  One iteration of the loop of \<open>timer_callback\<close> on a task that is due, and the loop with the tasks it
  runs. \<open>run\<close> is what a job does to the queue of its loop; the entry is popped only when the job has
  left it on top. \<open>clk\<close> gives the successive readings of the clock, two for an iteration.
\<close>

definition timer_round ::
  "('a \<Rightarrow> 'a sched_task_t pq \<Rightarrow> 'a sched_task_t pq) \<Rightarrow> int \<Rightarrow> 'a sched_task_t pq \<Rightarrow> 'a sched_task_t pq"
where
  "timer_round run now q =
     (let t = pq_top q; q1 = run (sched_job t) q
      in if pq_empty q1 then q1
         else if timer_id (pq_top q1) \<noteq> timer_id t then q1
         else if 0 < interval_ms t then pq_push time_ms (t\<lparr>time_ms := now + interval_ms t\<rparr>) (pq_pop q1)
         else pq_pop q1)"

partial_function (option) timer_callback ::
  "('a \<Rightarrow> 'a sched_task_t pq \<Rightarrow> 'a sched_task_t pq) \<Rightarrow> (nat \<Rightarrow> int) \<Rightarrow> nat \<Rightarrow> 'a sched_task_t pq
     \<Rightarrow> ('a sched_task_t list \<times> 'a sched_task_t pq) option"
where
  "timer_callback run clk i q =
     (if pq_empty q then Some ([], q)
      else if clk i < time_ms (pq_top q) then Some ([], q)
      else Option.bind (timer_callback run clk (i + 2) (timer_round run (clk (i + 1)) q))
             (\<lambda>(ts, r). Some (pq_top q # ts, r)))"

text \<open>\<open>remove_task\<close> rebuilds the queue without the tasks that match; it always reports false.\<close>

fun rebuild_queue :: "('a sched_task_t \<Rightarrow> bool) \<Rightarrow> 'a sched_task_t list \<Rightarrow> 'a sched_task_t pq \<Rightarrow> 'a sched_task_t pq" where
  "rebuild_queue p [] q = q"
| "rebuild_queue p (t # ts) q = rebuild_queue p ts (if p t then q else pq_push time_ms t q)"

definition remove_task :: "('a sched_task_t \<Rightarrow> bool) \<Rightarrow> 'a timer_loop \<Rightarrow> bool \<times> 'a timer_loop" where
  "remove_task p l = (False, l\<lparr>loop_tasks := rebuild_queue p (fst (pop_while (\<lambda>_. True) (loop_tasks l))) []\<rparr>)"

definition remove_task_id :: "nat \<Rightarrow> 'a timer_loop \<Rightarrow> bool \<times> 'a timer_loop" where
  "remove_task_id i = remove_task (\<lambda>t. timer_id t = i)"

definition remove_task_lib_namespace :: "string \<Rightarrow> 'a timer_loop \<Rightarrow> 'a timer_loop" where
  "remove_task_lib_namespace ns l = snd (remove_task (\<lambda>t. lib_namespace t = ns) l)"

lemma set_rebuild_queue: "set (rebuild_queue p ts q) = {t \<in> set ts. \<not> p t} \<union> set q"
  by (induction ts arbitrary: q) (auto simp: set_pq_push)

lemma remove_task_tasks:
  "set (loop_tasks (snd (remove_task p l))) = {t \<in> set (loop_tasks l). \<not> p t}"
  by (simp add: remove_task_def set_rebuild_queue pop_while_eq takeWhile_eq_all_conv [THEN iffD2])

text \<open>With the clock still during the callback and jobs that leave the queue alone, every task that is
  due runs, once and in order.\<close>

lemma timer_callback_still:
  assumes "pq_inv time_ms q"
  shows "\<exists>ts r. timer_callback (\<lambda>_ q. q) (\<lambda>_. n) i q = Some (ts, r)
     \<and> mset ts = filter_mset (\<lambda>t. time_ms t \<le> n) (mset q) \<and> sorted (map time_ms ts)
     \<and> list_all (\<lambda>t. n < time_ms t) r"
  using assms
proof (induction "size (filter_mset (\<lambda>t. time_ms t \<le> n) (mset q))" arbitrary: q i rule: less_induct)
  case less
  show ?case
  proof (cases "q = [] \<or> n < time_ms (pq_top q)")
    case True
    then have later: "n < time_ms t" if "t \<in> set q" for t
      using that pq.top_least [OF less.prems, of t] by auto
    then have "filter_mset (\<lambda>t. time_ms t \<le> n) (mset q) = {#}" by (auto simp: filter_mset_eq_conv not_le)
    with True later show ?thesis
      by (intro exI [of _ "[]"] exI [of _ q], subst timer_callback.simps) (auto simp: pq_empty_def list_all_iff)
  next
    case False
    then obtain t q1 where q: "q = t # q1" and t: "time_ms t \<le> n"
      by (cases q) (auto simp: pq_top_def)
    let ?q = "if 0 < interval_ms t then pq_push time_ms (t\<lparr>time_ms := n + interval_ms t\<rparr>) q1 else q1"
    have "pq_inv time_ms q1" using less.prems by (simp add: q pq_inv_def)
    then have inv: "pq_inv time_ms ?q" by (simp add: pq_inv_push)
    have f: "filter_mset (\<lambda>t. time_ms t \<le> n) (mset ?q) = filter_mset (\<lambda>t. time_ms t \<le> n) (mset q1)"
      by (auto simp: mset_pq_push)
    then have "size (filter_mset (\<lambda>t. time_ms t \<le> n) (mset ?q)) < size (filter_mset (\<lambda>t. time_ms t \<le> n) (mset q))"
      using t by (simp add: q)
    from less.hyps [OF this inv, of "i + 2"] f obtain ts r where
      r: "timer_callback (\<lambda>_ q. q) (\<lambda>_. n) (i + 2) ?q = Some (ts, r)" "mset ts = filter_mset (\<lambda>t. time_ms t \<le> n) (mset q1)"
        "sorted (map time_ms ts)" "list_all (\<lambda>t. n < time_ms t) r"
      by auto
    have "timer_callback (\<lambda>_ q. q) (\<lambda>_. n) i q = Some (t # ts, r)"
      using r(1) t
      by (subst timer_callback.simps)
         (cases "0 < interval_ms t"; simp add: q timer_round_def pq_empty_def pq_top_def pq_pop_def Let_def)
    moreover have "time_ms t \<le> time_ms u" if "u \<in> set ts" for u
    proof -
      from that have "u \<in># mset ts" by simp
      then have "u \<in> set q1" unfolding r(2) by simp
      then show ?thesis using less.prems by (auto simp: q pq_inv_def)
    qed
    ultimately show ?thesis using r t by (intro exI [of _ "t # ts"] exI [of _ r]) (auto simp: q)
  qed
qed

section \<open>Removing the tasks of a library\<close>

text \<open>
  \<open>real_scheduler\<close> over its loops. Tasks and requests reach a loop through bounded queues that the
  loop's thread empties in \<open>async_callback\<close>: \<open>add_tasks\<close> first, then \<open>remove_ns_tasks\<close>, one entry per
  iteration. The entries of one request share a counter, and the loop that brings it to zero fulfils
  the promise that \<open>close_library\<close> waits for.
\<close>

record 'a task_promise_t =
  tp_task :: 'a
  tp_interval :: fp
  tp_once :: bool
  tp_nm :: string

text \<open>
  A request: \<open>ns_promise_t\<close> with the promise and the counter that its copies share, and the next loop
  to which the caller has still to push it. The queues hold the number of the request.
\<close>

record ns_promise_t =
  ns_value :: "bool option"
  ns_loops :: nat
  ns_nm :: string
  ns_next :: nat

text \<open>Where the thread of a loop is: outside \<open>async_callback\<close>, or in the first or second of its loops.\<close>

datatype phase = Waiting | Adding | Removing

record 'a sched_loop =
  task_promises :: "'a task_promise_t list"
  ns_promises :: "nat list"
  timers :: "'a timer_loop"
  phase :: phase

record 'a real_scheduler =
  sched_loops :: "'a sched_loop list"
  requests :: "ns_promise_t list"

definition k_max_queue_size :: nat where
  "k_max_queue_size = 2000"

definition try_push :: "'b \<Rightarrow> 'b list \<Rightarrow> 'b list option" where
  "try_push x q = (if length q < k_max_queue_size then Some (q @ [x]) else None)"

definition set_value :: "bool \<Rightarrow> ns_promise_t \<Rightarrow> exn + ns_promise_t" where
  "set_value v p = (if ns_value p = None then Inr (p\<lparr>ns_value := Some v\<rparr>) else Inl Future_error)"

abbreviation set_loop :: "nat \<Rightarrow> 'a sched_loop \<Rightarrow> 'a real_scheduler \<Rightarrow> 'a real_scheduler" where
  "set_loop i lp s \<equiv> s\<lparr>sched_loops := (sched_loops s)[i := lp]\<rparr>"

text \<open>\<open>add_task\<close>, for the loop \<open>i\<close> that \<open>next_thread\<close> picks: a full queue drops the task.\<close>

definition add_task :: "nat \<Rightarrow> 'a task_promise_t \<Rightarrow> 'a real_scheduler \<Rightarrow> 'a real_scheduler" where
  "add_task i tp s =
     (case try_push tp (task_promises (sched_loops s ! i)) of
        Some q \<Rightarrow> set_loop i ((sched_loops s ! i)\<lparr>task_promises := q\<rparr>) s
      | None \<Rightarrow> s)"

text \<open>\<open>remove_ns_tasks\<close>: the promise and its counter, and one iteration of the loop that pushes them.\<close>

definition remove_ns_tasks :: "string \<Rightarrow> 'a real_scheduler \<Rightarrow> 'a real_scheduler" where
  "remove_ns_tasks nm s =
     s\<lparr>requests := requests s @ [\<lparr>ns_value = None, ns_loops = length (sched_loops s), ns_nm = nm, ns_next = 0\<rparr>]\<rparr>"

definition push_ns_promise :: "nat \<Rightarrow> 'a real_scheduler \<Rightarrow> exn + 'a real_scheduler" where
  "push_ns_promise r s =
     (let p = requests s ! r; i = ns_next p; lp = sched_loops s ! i
      in case try_push r (ns_promises lp) of
           Some q \<Rightarrow> Inr (set_loop i (lp\<lparr>ns_promises := q\<rparr>) (s\<lparr>requests := (requests s)[r := p\<lparr>ns_next := i + 1\<rparr>]\<rparr>))
         | None \<Rightarrow> bind_exn (set_value False p) (\<lambda>p1.
                     Inr (s\<lparr>requests := (requests s)[r := p1\<lparr>ns_next := i + 1\<rparr>]\<rparr>)))"

text \<open>One iteration of \<open>add_tasks\<close> and of \<open>remove_ns_tasks\<close> in the thread of loop \<open>i\<close>.\<close>

definition add_tasks :: "int \<Rightarrow> nat \<Rightarrow> 'a real_scheduler \<Rightarrow> exn + 'a real_scheduler" where
  "add_tasks now i s =
     (let lp = sched_loops s ! i
      in case task_promises lp of
           [] \<Rightarrow> Inr (set_loop i (lp\<lparr>phase := Removing\<rparr>) s)
         | tp # q \<Rightarrow>
             bind_exn (loop_add_task now (tp_nm tp) (tp_task tp) (tp_once tp) (tp_interval tp) (timers lp))
               (\<lambda>(_, l). Inr (set_loop i (lp\<lparr>task_promises := q, timers := l\<rparr>) s)))"

definition remove_ns_tasks_loop :: "nat \<Rightarrow> 'a real_scheduler \<Rightarrow> exn + 'a real_scheduler" where
  "remove_ns_tasks_loop i s =
     (let lp = sched_loops s ! i
      in case ns_promises lp of
           [] \<Rightarrow> Inr (set_loop i (lp\<lparr>phase := Waiting\<rparr>) s)
         | r # q \<Rightarrow>
             let p = requests s ! r;
                 l = remove_task_lib_namespace (ns_nm p) (timers lp);
                 p1 = p\<lparr>ns_loops := ns_loops p - 1\<rparr>
             in bind_exn (if ns_loops p = 1 then set_value True p1 else Inr p1) (\<lambda>p2.
                  Inr (set_loop i (lp\<lparr>ns_promises := q, timers := l\<rparr>) (s\<lparr>requests := (requests s)[r := p2]\<rparr>))))"

definition async_callback :: "nat \<Rightarrow> 'a real_scheduler \<Rightarrow> 'a real_scheduler" where
  "async_callback i s = set_loop i ((sched_loops s ! i)\<lparr>phase := Adding\<rparr>) s"

definition run_timers :: "int \<Rightarrow> nat \<Rightarrow> 'a real_scheduler \<Rightarrow> 'a real_scheduler" where
  "run_timers now i s =
     (let lp = sched_loops s ! i
      in set_loop i (lp\<lparr>timers := (timers lp)\<lparr>loop_tasks := timer_round (\<lambda>_ q. q) now (loop_tasks (timers lp))\<rparr>\<rparr>) s)"

text \<open>
  The steps of the threads while library \<open>nm\<close> is closed: any thread adds tasks, except that once the
  removal is requested nobody runs the library and no task of it is added (\<open>close_library\<close> asks only
  when its counter is zero); loops serve their queues and their timers.
\<close>

inductive sched_step :: "string \<Rightarrow> 'a real_scheduler \<Rightarrow> 'a real_scheduler \<Rightarrow> bool" for nm where
  add: "i < length (sched_loops s) \<Longrightarrow> tp_nm tp = nm \<longrightarrow> nm \<notin> ns_nm ` set (requests s)
     \<Longrightarrow> sched_step nm s (add_task i tp s)"
| request: "sched_step nm s (remove_ns_tasks ns s)"
| push: "r < length (requests s) \<Longrightarrow> ns_next (requests s ! r) < length (sched_loops s)
     \<Longrightarrow> push_ns_promise r s = Inr s1 \<Longrightarrow> sched_step nm s s1"
| wake: "i < length (sched_loops s) \<Longrightarrow> phase (sched_loops s ! i) = Waiting \<Longrightarrow> sched_step nm s (async_callback i s)"
| adding: "i < length (sched_loops s) \<Longrightarrow> phase (sched_loops s ! i) = Adding
     \<Longrightarrow> add_tasks now i s = Inr s1 \<Longrightarrow> sched_step nm s s1"
| removing: "i < length (sched_loops s) \<Longrightarrow> phase (sched_loops s ! i) = Removing
     \<Longrightarrow> remove_ns_tasks_loop i s = Inr s1 \<Longrightarrow> sched_step nm s s1"
| timer: "i < length (sched_loops s) \<Longrightarrow> phase (sched_loops s ! i) = Waiting
     \<Longrightarrow> loop_tasks (timers (sched_loops s ! i)) \<noteq> [] \<Longrightarrow> sched_step nm s (run_timers now i s)"

definition k_scheduler_threads :: nat where
  "k_scheduler_threads = 2"

definition new_real_scheduler :: "'a real_scheduler" where
  "new_real_scheduler =
     \<lparr>sched_loops = replicate k_scheduler_threads \<lparr>task_promises = [], ns_promises = [],
                                timers = \<lparr>loop_tasks = [], next_timer_id = 0\<rparr>, phase = Waiting\<rparr>,
      requests = []\<rparr>"

section \<open>What a kept promise means\<close>

definition clean :: "string \<Rightarrow> 'a sched_loop \<Rightarrow> bool" where
  "clean nm lp \<longleftrightarrow>
     nm \<notin> tp_nm ` set (task_promises lp) \<union> lib_namespace ` set (loop_tasks (timers lp))"

text \<open>
  A loop that has left \<open>add_tasks\<close> and finds a request in its second loop, while a task of the library
  that was added in between still waits in its queue.
\<close>

definition overtaken :: "string \<Rightarrow> 'a real_scheduler \<Rightarrow> bool" where
  "overtaken nm s \<longleftrightarrow>
     list_ex (\<lambda>lp. phase lp = Removing \<and> list_ex (\<lambda>r. ns_nm (requests s ! r) = nm) (ns_promises lp)
                   \<and> list_ex (\<lambda>tp. tp_nm tp = nm) (task_promises lp)) (sched_loops s)"

text \<open>Request \<open>r\<close> of \<open>nm\<close>, with \<open>J\<close> the loops that have not served it.\<close>

definition served :: "string \<Rightarrow> nat \<Rightarrow> nat set \<Rightarrow> 'a sched_loop list \<Rightarrow> ns_promise_t \<Rightarrow> bool" where
  "served nm r J lps p \<longleftrightarrow>
     J \<subseteq> {..<length lps} \<and> ns_loops p = card J \<and> (ns_value p = Some True \<longrightarrow> J = {})
     \<and> (\<forall>i < length lps. (i \<notin> J \<longrightarrow> clean nm (lps ! i)) \<and> (ns_next p \<le> i \<longrightarrow> i \<in> J)
          \<and> count_list (ns_promises (lps ! i)) r \<le> 1 \<and> (r \<in> set (ns_promises (lps ! i)) \<longrightarrow> i \<in> J \<and> i < ns_next p))"

definition removal_inv :: "string \<Rightarrow> 'a real_scheduler \<Rightarrow> bool" where
  "removal_inv nm s \<longleftrightarrow>
     (\<forall>i < length (sched_loops s). set (ns_promises (sched_loops s ! i)) \<subseteq> {..<length (requests s)})
     \<and> (\<forall>r < length (requests s). ns_nm (requests s ! r) = nm \<longrightarrow>
          (\<exists>J. served nm r J (sched_loops s) (requests s ! r)))"

lemma served_update:
  assumes "served nm r J lps p" "i < length lps" "i \<notin> J \<Longrightarrow> clean nm lp"
    "count_list (ns_promises lp) r = count_list (ns_promises (lps ! i)) r"
  shows "served nm r J (lps[i := lp]) p"
proof -
  have "r \<in> set (ns_promises lp) \<longleftrightarrow> r \<in> set (ns_promises (lps ! i))"
    using assms(4) by (metis count_list_0_iff)
  with assms show ?thesis by (auto simp: served_def nth_list_update)
qed

lemma removal_inv_served:
  "removal_inv nm s \<Longrightarrow> r < length (requests s) \<Longrightarrow> ns_nm (requests s ! r) = nm
     \<Longrightarrow> \<exists>J. served nm r J (sched_loops s) (requests s ! r)"
  by (simp add: removal_inv_def)

lemma removal_inv_queued:
  "removal_inv nm s \<Longrightarrow> i < length (sched_loops s) \<Longrightarrow> set (ns_promises (sched_loops s ! i)) \<subseteq> {..<length (requests s)}"
  by (simp add: removal_inv_def)

text \<open>Steps that leave the requests of a loop alone and bring no task of the library into a clean loop.\<close>

lemma removal_inv_set_loop:
  assumes "removal_inv nm s" "i < length (sched_loops s)" "ns_promises lp = ns_promises (sched_loops s ! i)"
    "nm \<in> ns_nm ` set (requests s) \<Longrightarrow> clean nm (sched_loops s ! i) \<Longrightarrow> clean nm lp"
  shows "removal_inv nm (set_loop i lp s)"
proof -
  have "\<exists>J. served nm r J ((sched_loops s)[i := lp]) (requests s ! r)"
    if r: "r < length (requests s)" "ns_nm (requests s ! r) = nm" for r
  proof -
    obtain J where J: "served nm r J (sched_loops s) (requests s ! r)"
      using removal_inv_served [OF assms(1) r] by blast
    have "nm \<in> ns_nm ` set (requests s)" using r by (metis image_eqI nth_mem)
    then have "i \<notin> J \<Longrightarrow> clean nm lp" using J assms(2,4) by (simp add: served_def)
    with served_update [OF J assms(2), of lp] assms(3) have "served nm r J ((sched_loops s)[i := lp]) (requests s ! r)"
      by simp
    then show ?thesis ..
  qed
  then show ?thesis
    using assms(1,2,3) removal_inv_queued [OF assms(1,2)]
    by (simp add: removal_inv_def nth_list_update subset_iff)
qed

lemma loop_add_task_namespaces:
  "loop_add_task now ns f once t l = Inr (i, l1) \<Longrightarrow>
     lib_namespace ` set (loop_tasks l1) = insert ns (lib_namespace ` set (loop_tasks l))"
  by (auto simp: loop_add_task_def bind_exn_Inr_iff set_pq_push)

lemma timer_round_namespaces:
  "q \<noteq> [] \<Longrightarrow> lib_namespace ` set (timer_round (\<lambda>_ q. q) now q) \<subseteq> lib_namespace ` set q"
  by (cases q) (auto simp: timer_round_def Let_def pq_empty_def pq_top_def pq_pop_def set_pq_push)

lemma clean_timers:
  "clean nm lp \<Longrightarrow> loop_tasks (timers lp) \<noteq> [] \<Longrightarrow>
     clean nm (lp\<lparr>timers := (timers lp)\<lparr>loop_tasks := timer_round (\<lambda>_ q. q) now (loop_tasks (timers lp))\<rparr>\<rparr>)"
  using timer_round_namespaces [of "loop_tasks (timers lp)" now] by (auto simp: clean_def)

lemma clean_append: "clean nm lp \<Longrightarrow> tp_nm tp \<noteq> nm \<Longrightarrow> clean nm (lp\<lparr>task_promises := task_promises lp @ [tp]\<rparr>)"
  by (auto simp: clean_def)

lemma clean_added:
  assumes "clean nm lp" "task_promises lp = tp # q"
    "loop_add_task now (tp_nm tp) f once t (timers lp) = Inr (i, l)"
  shows "clean nm (lp\<lparr>task_promises := q, timers := l\<rparr>)"
  using assms(1,2) loop_add_task_namespaces [OF assms(3)] by (auto simp: clean_def)

lemma clean_removed: 
  "clean nm lp \<Longrightarrow> clean nm (lp\<lparr>ns_promises := q, timers := remove_task_lib_namespace ns (timers lp)\<rparr>)"
  "nm \<notin> tp_nm ` set (task_promises lp) \<Longrightarrow>
     clean nm (lp\<lparr>ns_promises := q, timers := remove_task_lib_namespace nm (timers lp)\<rparr>)"
  by (auto simp: clean_def remove_task_lib_namespace_def remove_task_tasks)

lemma clean_ns_promises [simp]: "clean nm (lp\<lparr>ns_promises := q\<rparr>) = clean nm lp"
  by (simp add: clean_def)

text \<open>A request that the caller pushes, and one that a loop serves.\<close>

lemma served_pushed:
  assumes "served nm r J lps p" "ns_next p < length lps" "ns_value p1 \<noteq> Some True"
    "ns_loops p1 = ns_loops p" "ns_next p1 = ns_next p + 1"
  shows "served nm r J (lps[ns_next p := (lps ! ns_next p)\<lparr>ns_promises := ns_promises (lps ! ns_next p) @ [r]\<rparr>]) p1"
    "served nm r J lps p1"
proof -
  have "ns_next p \<in> J \<and> r \<notin> set (ns_promises (lps ! ns_next p))"
    using assms(1,2) unfolding served_def by blast
  then have k: "ns_next p \<in> J" "count_list (ns_promises (lps ! ns_next p)) r = 0"
    by (simp_all add: count_list_0_iff)
  show "served nm r J (lps[ns_next p := (lps ! ns_next p)\<lparr>ns_promises := ns_promises (lps ! ns_next p) @ [r]\<rparr>]) p1"
    using assms k by (simp add: served_def nth_list_update less_Suc_eq)
  show "served nm r J lps p1" using assms k by (simp add: served_def less_Suc_eq)
qed

lemma served_popped:
  assumes "served nm r J lps p" "i < length lps" "ns_promises (lps ! i) = r # q" "clean nm lp" "ns_promises lp = q"
    "ns_loops p1 = ns_loops p - 1" "ns_next p1 = ns_next p" "ns_value p1 = Some True \<longrightarrow> ns_value p = Some True \<or> ns_loops p = 1"
  shows "served nm r (J - {i}) (lps[i := lp]) p1"
proof -
  have i: "i \<in> J" "i < ns_next p" "r \<notin> set q"
    using assms(1-3) by (auto simp: served_def count_list_0_iff [symmetric] dest!: spec [of _ i])
  have "finite J" using assms(1) finite_subset by (auto simp: served_def)
  then have "ns_loops p1 = card (J - {i})" using i(1) assms(1,6) by (simp add: served_def card_Diff_singleton)
  moreover have "J - {i} = {}" if "ns_value p1 = Some True"
  proof -
    from that assms(1,8) i(1) have "card J = 1" by (auto simp: served_def)
    with i(1) show ?thesis by (auto simp: card_1_singleton_iff)
  qed
  ultimately show ?thesis
    using i assms(1,2,4,5,7) by (auto simp: served_def nth_list_update count_list_0_iff)
qed


lemma removal_inv_request: "removal_inv nm s \<Longrightarrow> removal_inv nm (remove_ns_tasks ns s)"
proof -
  assume inv: "removal_inv nm s"
  have fresh: "length (requests s) \<notin> set (ns_promises (sched_loops s ! i))" if "i < length (sched_loops s)" for i
    using removal_inv_queued [OF inv that] by auto
  have "served nm (length (requests s)) {..<length (sched_loops s)} (sched_loops s)
      \<lparr>ns_value = None, ns_loops = length (sched_loops s), ns_nm = ns, ns_next = 0\<rparr>"
    using fresh by (simp add: served_def)
  then show ?thesis
    using inv by (fastforce simp: removal_inv_def remove_ns_tasks_def nth_append less_Suc_eq)
qed

lemma removal_inv_push:
  assumes inv: "removal_inv nm s" and r: "r < length (requests s)" "ns_next (requests s ! r) < length (sched_loops s)"
    and s1: "push_ns_promise r s = Inr s1"
  shows "removal_inv nm s1"
proof -
  let ?p = "requests s ! r" and ?lps = "sched_loops s"
  let ?lp = "(?lps ! ns_next ?p)\<lparr>ns_promises := ns_promises (?lps ! ns_next ?p) @ [r]\<rparr>"
  have other: "served nm k J (?lps[ns_next ?p := ?lp]) q" if "served nm k J ?lps q" "k \<noteq> r" for k J q
    by (rule served_update [OF that(1) r(2)]) (use that r(2) in \<open>auto simp: served_def clean_def\<close>)
  define p1 where "p1 = requests s1 ! r"
  have p1: "ns_value p1 \<noteq> Some True \<or> ns_value p1 = ns_value ?p" "ns_loops p1 = ns_loops ?p" "ns_nm p1 = ns_nm ?p"
      "ns_next p1 = ns_next ?p + 1" "requests s1 = (requests s)[r := p1]"
    and lps: "sched_loops s1 = ?lps[ns_next ?p := ?lp] \<or> sched_loops s1 = ?lps"
    using s1 r(1) by (auto simp: p1_def push_ns_promise_def set_value_def try_push_def Let_def bind_exn_def split: if_splits)
  have "\<exists>J. served nm k J (sched_loops s1) (requests s1 ! k)"
    if k: "k < length (requests s)" "ns_nm (requests s1 ! k) = nm" for k
  proof -
    from k have "ns_nm (requests s ! k) = nm" using p1 r by (cases "k = r") auto
    then obtain J where J: "served nm k J ?lps (requests s ! k)" using removal_inv_served [OF inv] k by blast
    show ?thesis
    proof (cases "k = r")
      case True
      from J True r(2) have "ns_value ?p \<noteq> Some True" by (auto simp: served_def)
      with p1 have "ns_value p1 \<noteq> Some True" by auto
      from served_pushed [OF _ r(2) this p1(2,4), of nm r J] J True lps p1(5) r show ?thesis by auto
    next
      case False
      with J other [OF J] lps p1(5) show ?thesis by auto
    qed
  qed
  moreover have "set (ns_promises (sched_loops s1 ! i)) \<subseteq> {..<length (requests s)}" if "i < length ?lps" for i
    using lps removal_inv_queued [OF inv that] r by (cases "ns_next ?p = i") auto
  moreover have "length (requests s1) = length (requests s)" "length (sched_loops s1) = length ?lps"
    using lps p1(5) by auto
  ultimately show ?thesis by (simp add: removal_inv_def)
qed

lemma removal_inv_pop:
  assumes inv: "removal_inv nm s" and i: "i < length (sched_loops s)" "phase (sched_loops s ! i) = Removing"
    and s1: "remove_ns_tasks_loop i s = Inr s1" and quiet: "\<not> overtaken nm s"
  shows "removal_inv nm s1"
proof (cases "ns_promises (sched_loops s ! i)")
  case Nil
  then show ?thesis
    using s1 removal_inv_set_loop [OF inv i(1)] by (auto simp: remove_ns_tasks_loop_def clean_def)
next
  case (Cons r q)
  let ?lps = "sched_loops s" and ?p = "requests s ! r"
  let ?lp = "(?lps ! i)\<lparr>ns_promises := q, timers := remove_task_lib_namespace (ns_nm ?p) (timers (?lps ! i))\<rparr>"
  have r: "r < length (requests s)" using removal_inv_queued [OF inv i(1)] Cons by simp
  define p1 where "p1 = requests s1 ! r"
  have p1: "ns_value p1 = Some True \<longrightarrow> ns_value ?p = Some True \<or> ns_loops ?p = 1"
      "ns_loops p1 = ns_loops ?p - 1" "ns_nm p1 = ns_nm ?p" "ns_next p1 = ns_next ?p"
      "requests s1 = (requests s)[r := p1]" "sched_loops s1 = ?lps[i := ?lp]"
    using s1 r by (auto simp: p1_def remove_ns_tasks_loop_def Cons set_value_def Let_def bind_exn_def split: if_splits)
  have keep: "clean nm (?lps ! i) \<Longrightarrow> clean nm ?lp" by (simp add: clean_removed)
  have "\<exists>J. served nm k J (sched_loops s1) (requests s1 ! k)"
    if k: "k < length (requests s)" "ns_nm (requests s1 ! k) = nm" for k
  proof -
    from k have nm: "ns_nm (requests s ! k) = nm" using p1(3,5) r by (cases "k = r") auto
    then obtain J where J: "served nm k J ?lps (requests s ! k)" using removal_inv_served [OF inv] k by blast
    show ?thesis
    proof (cases "k = r")
      case True
      have "nm \<notin> tp_nm ` set (task_promises (?lps ! i))"
        using quiet i Cons nm True by (auto simp: overtaken_def list_ex_iff dest!: bspec [OF _ nth_mem [OF i(1)]])
      then have "clean nm ?lp" using clean_removed(2) nm True by blast
      from served_popped [OF _ i(1) Cons this _ p1(2,4,1), of J] J True r p1(5,6) show ?thesis by auto
    next
      case False
      have "served nm k J (?lps[i := ?lp]) (requests s ! k)"
        by (rule served_update [OF J i(1)]) (use J i False Cons keep in \<open>auto simp: served_def\<close>)
      with False p1(5,6) show ?thesis by auto
    qed
  qed
  moreover have "set (ns_promises (sched_loops s1 ! j)) \<subseteq> {..<length (requests s)}" if "j < length ?lps" for j
    using removal_inv_queued [OF inv that] Cons p1(6) that by (cases "i = j") auto
  moreover have "length (requests s1) = length (requests s)" "length (sched_loops s1) = length ?lps"
    using p1(5,6) by auto
  ultimately show ?thesis by (simp add: removal_inv_def)
qed

lemma sched_step_inv:
  assumes "sched_step nm s s1" "removal_inv nm s" "\<not> overtaken nm s"
  shows "removal_inv nm s1"
  using assms(1)
proof cases
  case (add i tp)
  have "clean nm (sched_loops s ! i) \<Longrightarrow> nm \<in> ns_nm ` set (requests s) \<Longrightarrow>
      clean nm ((sched_loops s ! i)\<lparr>task_promises := task_promises (sched_loops s ! i) @ [tp]\<rparr>)"
    using add(3) clean_append by blast
  then show ?thesis
    using add assms(2) removal_inv_set_loop [OF assms(2) add(2)]
    by (simp add: add_task_def try_push_def)
next
  case (request ns)
  then show ?thesis using removal_inv_request [OF assms(2)] by simp
next
  case (push r)
  then show ?thesis using removal_inv_push [OF assms(2)] by blast
next
  case (wake i)
  then show ?thesis
    using removal_inv_set_loop [OF assms(2) wake(2)] by (simp add: async_callback_def clean_def)
next
  case (adding i now)
  show ?thesis
  proof (cases "task_promises (sched_loops s ! i)")
    case Nil
    with adding show ?thesis
      using removal_inv_set_loop [OF assms(2) adding(1)] by (auto simp: add_tasks_def clean_def)
  next
    case (Cons tp q)
    with adding(3) obtain j l where l: "loop_add_task now (tp_nm tp) (tp_task tp) (tp_once tp) (tp_interval tp)
        (timers (sched_loops s ! i)) = Inr (j, l)"
      "s1 = set_loop i ((sched_loops s ! i)\<lparr>task_promises := q, timers := l\<rparr>) s"
      by (auto simp: add_tasks_def Let_def bind_exn_Inr_iff)
    then show ?thesis
      using removal_inv_set_loop [OF assms(2) adding(1)] clean_added [OF _ Cons l(1)] by simp
  qed
next
  case (removing i)
  then show ?thesis using removal_inv_pop [OF assms(2) removing assms(3)] by simp
next
  case (timer i now)
  then show ?thesis
    using removal_inv_set_loop [OF assms(2) timer(2)] clean_timers [OF _ timer(4)] by (simp add: run_timers_def Let_def)
qed

text \<open>The rounds of two loops that both serve the first request.\<close>

abbreviation two_loops ::
  "'a task_promise_t list \<Rightarrow> nat list \<Rightarrow> phase \<Rightarrow> nat list \<Rightarrow> phase \<Rightarrow> ns_promise_t list \<Rightarrow> 'a real_scheduler"
where
  "two_loops tps rs ph rs1 ph1 ps \<equiv>
     \<lparr>sched_loops =
        [\<lparr>task_promises = tps, ns_promises = rs, timers = \<lparr>loop_tasks = [], next_timer_id = 0\<rparr>, phase = ph\<rparr>,
         \<lparr>task_promises = [], ns_promises = rs1, timers = \<lparr>loop_tasks = [], next_timer_id = 0\<rparr>, phase = ph1\<rparr>],
      requests = ps\<rparr>"

abbreviation request_of :: "string \<Rightarrow> bool option \<Rightarrow> nat \<Rightarrow> nat \<Rightarrow> ns_promise_t" where
  "request_of nm v n k \<equiv> \<lparr>ns_value = v, ns_loops = n, ns_nm = nm, ns_next = k\<rparr>"

lemma two_loops_requested:
  "sched_step nm (two_loops tps [] ph [] Waiting []) (two_loops tps [] ph [] Waiting [request_of nm None 2 0])"
  "sched_step nm (two_loops tps [] ph [] Waiting [request_of nm None 2 0])
     (two_loops tps [0] ph [] Waiting [request_of nm None 2 1])"
  "sched_step nm (two_loops tps [0] ph [] Waiting [request_of nm None 2 1])
     (two_loops tps [0] ph [0] Waiting [request_of nm None 2 2])"
  using sched_step.request [of nm "two_loops tps [] ph [] Waiting []" nm]
    sched_step.push [of 0 "two_loops tps [] ph [] Waiting [request_of nm None 2 0]" _ nm]
    sched_step.push [of 0 "two_loops tps [0] ph [] Waiting [request_of nm None 2 1]" _ nm]
  by (simp_all add: remove_ns_tasks_def push_ns_promise_def try_push_def k_max_queue_size_def
        numeral_2_eq_2)

lemma two_loops_served:
  "sched_step nm (two_loops tps [0] Removing [0] Waiting [request_of nm None 2 2])
     (two_loops tps [] Removing [0] Waiting [request_of nm None 1 2])"
  "sched_step nm (two_loops tps [] Removing [0] Waiting [request_of nm None 1 2])
     (two_loops tps [] Removing [0] Adding [request_of nm None 1 2])"
  "sched_step nm (two_loops tps [] Removing [0] Adding [request_of nm None 1 2])
     (two_loops tps [] Removing [0] Removing [request_of nm None 1 2])"
  "sched_step nm (two_loops tps [] Removing [0] Removing [request_of nm None 1 2])
     (two_loops tps [] Removing [] Removing [request_of nm (Some True) 0 2])"
  using sched_step.removing [of 0 "two_loops tps [0] Removing [0] Waiting [request_of nm None 2 2]" _ nm]
    sched_step.wake [of 1 "two_loops tps [] Removing [0] Waiting [request_of nm None 1 2]" nm]
    sched_step.adding [of 1 "two_loops tps [] Removing [0] Adding [request_of nm None 1 2]" _ _ nm]
    sched_step.removing [of 1 "two_loops tps [] Removing [0] Removing [request_of nm None 1 2]" _ nm]
  by (simp_all add: remove_ns_tasks_loop_def async_callback_def add_tasks_def set_value_def Let_def
        remove_task_lib_namespace_def remove_task_def pop_while_eq numeral_2_eq_2)

lemma two_loops_start:
  "new_real_scheduler = two_loops [] [] Waiting [] Waiting []"
  "sched_step nm (two_loops [] [] Waiting [] Waiting []) (two_loops [] [] Adding [] Waiting [])"
  "sched_step nm (two_loops [] [] Adding [] Waiting []) (two_loops [] [] Removing [] Waiting [])"
  using sched_step.wake [of 0 "two_loops [] [] Waiting [] Waiting []" nm]
    sched_step.adding [of 0 "two_loops [] [] Adding [] Waiting []" _ _ nm]
  by (simp_all add: new_real_scheduler_def k_scheduler_threads_def numeral_2_eq_2 async_callback_def add_tasks_def)

text \<open>
  The exception is real: a thread that still runs the library may push a task to a loop that has left
  \<open>add_tasks\<close>; if the library is then closed before that loop looks for requests, the promise is kept
  while the task is still queued.
\<close>

theorem removal_overtakes_task:
  "\<exists>s. (sched_step ''lib'')\<^sup>*\<^sup>* new_real_scheduler s \<and> ns_nm (requests s ! 0) = ''lib''
     \<and> ns_value (requests s ! 0) = Some True \<and> \<not> list_all (clean ''lib'') (sched_loops (s :: 'a real_scheduler))"
proof -
  define tp :: "'a task_promise_t" where
    "tp = \<lparr>tp_task = undefined, tp_interval = Fin 1, tp_once = False, tp_nm = ''lib''\<rparr>"
  have "sched_step ''lib'' (two_loops [] [] Removing [] Waiting []) (two_loops [tp] [] Removing [] Waiting [])"
    using sched_step.add [of 0 "two_loops [] [] Removing [] Waiting []" tp "''lib''"]
    by (simp add: add_task_def try_push_def k_max_queue_size_def)
  with two_loops_start(2,3) [of "''lib''"]
  have "(sched_step ''lib'')\<^sup>*\<^sup>* new_real_scheduler (two_loops [tp] [] Removing [] Waiting [])"
    unfolding two_loops_start(1) by (meson converse_rtranclp_into_rtranclp rtranclp.rtrancl_refl)
  with two_loops_requested [of "''lib''" "[tp]" Removing] two_loops_served [of "''lib''" "[tp]"]
  have "(sched_step ''lib'')\<^sup>*\<^sup>* new_real_scheduler
      (two_loops [tp] [] Removing [] Removing [request_of ''lib'' (Some True) 0 2])"
    by (meson rtranclp.rtrancl_into_rtrancl)
  then show ?thesis by (intro exI conjI) (assumption, simp_all add: clean_def tp_def)
qed

text \<open>
  C12. When the promise of \<open>remove_ns_tasks\<close> is kept, no task of the library is left: in every
  interleaving of threads that schedule tasks and ask for removals with loops that serve their queues
  and timers, once a request for the library has the value true no loop holds or will receive a task
  of it. The one exception is a task that was pushed after its loop had left \<open>add_tasks\<close> and is
  overtaken by the request.
\<close>

theorem namespace_tasks_removed:
  assumes "(\<lambda>s s1. sched_step nm s s1 \<and> \<not> overtaken nm s1)\<^sup>*\<^sup>* new_real_scheduler s"
    "r < length (requests s)" "ns_nm (requests s ! r) = nm" "ns_value (requests s ! r) = Some True"
  shows "list_all (clean nm) (sched_loops s)"
proof -
  have "removal_inv nm s \<and> \<not> overtaken nm s"
    using assms(1)
  proof (induction rule: rtranclp_induct)
    case base
    show ?case by (simp add: removal_inv_def overtaken_def new_real_scheduler_def list_ex_iff)
  qed (auto intro: sched_step_inv)
  then obtain J where "served nm r J (sched_loops s) (requests s ! r)" using removal_inv_served assms(2,3) by blast
  with assms(4) show ?thesis by (auto simp: served_def list_all_length)
qed

theorem namespace_tasks_removed_witness:
  "list_all (clean ''lib'') (sched_loops
     (two_loops [] [] Removing [] Removing [request_of ''lib'' (Some True) 0 2] :: 'a real_scheduler))"
proof -
  let ?R = "\<lambda>s (s1 :: 'a real_scheduler). sched_step ''lib'' s s1 \<and> \<not> overtaken ''lib'' s1"
  have start: "?R (two_loops [] [] Waiting [] Waiting []) (two_loops [] [] Adding [] Waiting [])"
      "?R (two_loops [] [] Adding [] Waiting []) (two_loops [] [] Removing [] Waiting [])"
    using two_loops_start(2,3) by (simp_all add: overtaken_def)
  have req: "?R (two_loops [] [] Removing [] Waiting []) (two_loops [] [] Removing [] Waiting [request_of ''lib'' None 2 0])"
      "?R (two_loops [] [] Removing [] Waiting [request_of ''lib'' None 2 0])
        (two_loops [] [0] Removing [] Waiting [request_of ''lib'' None 2 1])"
      "?R (two_loops [] [0] Removing [] Waiting [request_of ''lib'' None 2 1])
        (two_loops [] [0] Removing [0] Waiting [request_of ''lib'' None 2 2])"
    using two_loops_requested [of "''lib''" "[]" Removing] by (simp_all add: overtaken_def)
  have serve: "?R (two_loops [] [0] Removing [0] Waiting [request_of ''lib'' None 2 2])
        (two_loops [] [] Removing [0] Waiting [request_of ''lib'' None 1 2])"
      "?R (two_loops [] [] Removing [0] Waiting [request_of ''lib'' None 1 2])
        (two_loops [] [] Removing [0] Adding [request_of ''lib'' None 1 2])"
      "?R (two_loops [] [] Removing [0] Adding [request_of ''lib'' None 1 2])
        (two_loops [] [] Removing [0] Removing [request_of ''lib'' None 1 2])"
      "?R (two_loops [] [] Removing [0] Removing [request_of ''lib'' None 1 2])
        (two_loops [] [] Removing [] Removing [request_of ''lib'' (Some True) 0 2])"
    using two_loops_served [of "''lib''" "[]"] by (simp_all add: overtaken_def)
  have "?R\<^sup>*\<^sup>* new_real_scheduler (two_loops [] [] Removing [] Removing [request_of ''lib'' (Some True) 0 2])"
    unfolding two_loops_start(1)
    by (rule converse_rtranclp_into_rtranclp [of ?R] start req serve rtranclp.rtrancl_refl [of ?R])+
  from namespace_tasks_removed [OF this, of 0] show ?thesis by simp
qed

end
