(* ===== verification/Query.thy ===== *)
theory Query
  imports Util
begin

text \<open>
  The nodes of an index query and their evaluation on an event (\<open>query/expression.cpp\<close>,
  \<open>query/expression.h\<close>), with the text-to-number functions of the standard library they call.
\<close>

section \<open>Numbers in text\<close>

text \<open>
  \<open>std::stoi\<close>, \<open>std::stod\<close>, \<open>atoi\<close> and \<open>atof\<close>. The first two skip white space, read as much of a
  number as there is and raise when there is none or it does not fit; the others return zero for no
  number and never fail.
\<close>

definition code :: "char \<Rightarrow> int" where
  "code c = of_char c"

definition is_space :: "char \<Rightarrow> bool" where
  "is_space c \<longleftrightarrow> code c = 32 \<or> 9 \<le> code c \<and> code c \<le> 13"

definition is_digit :: "char \<Rightarrow> bool" where
  "is_digit c \<longleftrightarrow> 48 \<le> code c \<and> code c \<le> 57"

definition is_xdigit :: "char \<Rightarrow> bool" where
  "is_xdigit c \<longleftrightarrow> is_digit c \<or> 97 \<le> code c \<and> code c \<le> 102 \<or> 65 \<le> code c \<and> code c \<le> 70"

definition digit_of :: "char \<Rightarrow> int" where
  "digit_of c = (if is_digit c then code c - 48 else if 97 \<le> code c then code c - 87 else code c - 55)"

definition number :: "int \<Rightarrow> string \<Rightarrow> int" where
  "number b s = foldl (\<lambda>n c. n * b + digit_of c) 0 s"

definition lower :: "char \<Rightarrow> char" where
  "lower c = (if 65 \<le> code c \<and> code c \<le> 90 then char_of (code c + 32) else c)"

definition read_sign :: "string \<Rightarrow> bool \<times> string" where
  "read_sign s =
     (case s of c # r \<Rightarrow> if c = CHR ''-'' then (True, r) else if c = CHR ''+'' then (False, r) else (False, s)
      | [] \<Rightarrow> (False, s))"

definition strtol :: "string \<Rightarrow> int option" where
  "strtol s =
     (let (neg, u) = read_sign (dropWhile is_space s); ds = takeWhile is_digit u
      in if ds = [] then None else Some (if neg then - number 10 ds else number 10 ds))"

definition int32_range :: "int \<Rightarrow> bool" where
  "int32_range i \<longleftrightarrow> - (2 ^ 31) \<le> i \<and> i < 2 ^ 31"

definition stoi :: "string \<Rightarrow> exn + int" where
  "stoi s =
     (case strtol s of None \<Rightarrow> Inl Invalid_argument
      | Some i \<Rightarrow> if int32_range i then Inr i else Inl Out_of_range)"

text \<open>\<open>atoi\<close> is \<open>strtol\<close>, which stops at the limits of \<open>long\<close>, cut down to an \<open>int\<close>.\<close>

definition atoi :: "string \<Rightarrow> int" where
  "atoi s =
     (case strtol s of None \<Rightarrow> 0
      | Some i \<Rightarrow> (max (- (2 ^ 63)) (min (2 ^ 63 - 1) i) + 2 ^ 31) mod 2 ^ 32 - 2 ^ 31)"

definition power_of :: "rat \<Rightarrow> int \<Rightarrow> rat" where
  "power_of b e = (if 0 \<le> e then b ^ nat e else 1 / b ^ nat (- e))"

text \<open>A mantissa in base \<open>b\<close> with an optional point, then an optional exponent after \<open>mark\<close>.\<close>

definition read_exponent :: "char \<Rightarrow> string \<Rightarrow> int" where
  "read_exponent mark s =
     (case s of [] \<Rightarrow> 0
      | c # r \<Rightarrow> (if lower c \<noteq> mark then 0
                  else let (neg, u) = read_sign r; ds = takeWhile is_digit u
                       in if neg then - number 10 ds else number 10 ds))"

definition read_float :: "int \<Rightarrow> (char \<Rightarrow> bool) \<Rightarrow> char \<Rightarrow> int \<Rightarrow> string \<Rightarrow> rat option" where
  "read_float b dig mark eb s =
     (let ip = takeWhile dig s; r = dropWhile dig s;
          fp = (case r of c # r1 \<Rightarrow> if c = CHR ''.'' then takeWhile dig r1 else [] | [] \<Rightarrow> []);
          r2 = (case r of c # r1 \<Rightarrow> if c = CHR ''.'' then dropWhile dig r1 else r | [] \<Rightarrow> r)
      in if ip = [] \<and> fp = [] then None
         else Some (of_int (number b (ip @ fp)) / of_int (b ^ length fp) * power_of (of_int eb) (read_exponent mark r2)))"

definition has_prefix :: "string \<Rightarrow> string \<Rightarrow> bool" where
  "has_prefix p s \<longleftrightarrow> take (length p) s = p"

definition strtod :: "string \<Rightarrow> (fp \<times> bool) option" where
  "strtod s =
     (let (neg, u) = read_sign (dropWhile is_space s);
          l = map lower u;
          hex = (if has_prefix ''0x'' l then read_float 16 is_xdigit CHR ''p'' 2 (drop 2 u) else None);
          mag = (case hex of Some q \<Rightarrow> Some q | None \<Rightarrow> read_float 10 is_digit CHR ''e'' 10 u)
      in if has_prefix ''inf'' l then Some (if neg then NInf else PInf, True)
         else if has_prefix ''nan'' l then Some (NaN, True)
         else case mag of None \<Rightarrow> None
              | Some q \<Rightarrow> let r = round64 (if neg then - q else q)
                          in Some (r, case r of Fin x \<Rightarrow> x = (if neg then - q else q) \<or> pow2 (- 1022) \<le> \<bar>x\<bar>
                                      | _ \<Rightarrow> False))"

definition stod :: "string \<Rightarrow> exn + fp" where
  "stod s =
     (case strtod s of None \<Rightarrow> Inl Invalid_argument
      | Some (x, fits) \<Rightarrow> if fits then Inr x else Inl Out_of_range)"

definition atof :: "string \<Rightarrow> fp" where
  "atof s = (case strtod s of None \<Rightarrow> Fin 0 | Some (x, _) \<Rightarrow> x)"

section \<open>The nodes of a query\<close>

text \<open>\<open>value_\<close> of a field node; a node made without a value holds a null string.\<close>

datatype query_value =
    VString "string option"
  | VInt int
  | VDouble fp

datatype query_node =
    Query_true
  | Query_tagged string
  | Query_field "string option" string query_value
  | Query_and query_node query_node
  | Query_or query_node query_node
  | Query_not query_node

type_synonym query_fn_t = "event \<Rightarrow> exn + bool"

definition query_field_string :: "string \<Rightarrow> string \<Rightarrow> string \<Rightarrow> query_node" where
  "query_field_string field v op = Query_field (Some op) field (VString (Some v))"

definition query_field_int :: "string \<Rightarrow> int \<Rightarrow> string \<Rightarrow> query_node" where
  "query_field_int field v op = Query_field (Some op) field (VInt v)"

definition query_field_double :: "string \<Rightarrow> fp \<Rightarrow> string \<Rightarrow> query_node" where
  "query_field_double field v op = Query_field (Some op) field (VDouble v)"

definition query_field_nil :: "string \<Rightarrow> query_node" where
  "query_field_nil field = Query_field None field (VString None)"

section \<open>Evaluation\<close>

definition substr :: "nat \<Rightarrow> nat \<Rightarrow> string \<Rightarrow> exn + string" where
  "substr pos n s = (if length s < pos then Inl Out_of_range else Inr (take n (drop pos s)))"

text \<open>The template \<open>compare\<close>, with the comparisons of its type, and the one on strings.\<close>

definition compare :: "('a \<Rightarrow> 'a \<Rightarrow> bool) \<Rightarrow> ('a \<Rightarrow> 'a \<Rightarrow> bool) \<Rightarrow> 'a \<Rightarrow> 'a \<Rightarrow> string \<Rightarrow> bool" where
  "compare eq lt left right op =
     (if op = ''='' then eq left right
      else if op = ''>'' then lt right left
      else if op = ''>='' then lt right left \<or> eq left right
      else if op = ''<'' then lt left right
      else if op = ''<='' then lt left right \<or> eq left right
      else False)"

definition compare_string :: "runtime \<Rightarrow> string \<Rightarrow> string \<Rightarrow> string \<Rightarrow> exn + bool" where
  "compare_string rt left right op =
     (if op = ''='' then Inr (left = right)
      else if op = ''=~'' then match_like rt left right
      else Inr False)"

definition compare_int :: "int \<Rightarrow> int \<Rightarrow> string \<Rightarrow> bool" where
  "compare_int = compare (=) (<)"

definition compare_double :: "fp \<Rightarrow> fp \<Rightarrow> string \<Rightarrow> bool" where
  "compare_double = compare fp_eq fp_lt"

text \<open>A handler for \<open>std::invalid_argument\<close> alone.\<close>

definition catch_invalid :: "exn + bool \<Rightarrow> exn + bool" where
  "catch_invalid r = (case r of Inl Invalid_argument \<Rightarrow> Inr False | _ \<Rightarrow> r)"

definition strip_value :: "string \<Rightarrow> exn + string" where
  "strip_value v = (if 2 < length v \<and> v ! 0 = CHR 0x22 then substr 1 (length v - 2) v else Inr v)"

definition evaluate_string :: "runtime \<Rightarrow> string \<Rightarrow> string \<Rightarrow> string \<Rightarrow> exn + query_fn_t" where
  "evaluate_string rt op field v =
     bind_exn (strip_value v) (\<lambda>strip_val.
       if field = ''host'' then Inr (\<lambda>e. compare_string rt (host e) strip_val op)
       else if field = ''service'' then Inr (\<lambda>e. compare_string rt (service e) strip_val op)
       else if field = ''state'' then Inr (\<lambda>e. compare_string rt (state e) strip_val op)
       else if field = ''description'' then Inr (\<lambda>e. compare_string rt (description e) strip_val op)
       else Inr (\<lambda>e. if has_attr e field then compare_string rt (attr e field) strip_val ''='' else Inr False))"

definition evaluate_int :: "string \<Rightarrow> string \<Rightarrow> int \<Rightarrow> query_fn_t" where
  "evaluate_int op field i =
     (if field = ''time'' then (\<lambda>e. Inr (compare_int (time e) i op))
      else if field = ''ttl'' then (\<lambda>e. Inr (compare_double (ttl e) (double_of_int i) op))
      else if field = ''metric''
      then (\<lambda>e. Inr (has_metric e \<and> compare_double (metric e) (double_of_int i) op))
      else (\<lambda>e. if has_attr e field
                then catch_invalid (bind_exn (stoi (attr e field)) (\<lambda>a. Inr (compare_int a i op)))
                else Inr False))"

definition evaluate_double :: "string \<Rightarrow> string \<Rightarrow> fp \<Rightarrow> query_fn_t" where
  "evaluate_double op field d =
     (if field = ''metric'' then (\<lambda>e. Inr (compare_double (metric e) d op))
      else (\<lambda>e. if has_attr e field
                then catch_invalid (bind_exn (stod (attr e field)) (\<lambda>a. Inr (compare_double a d op)))
                else Inr False))"

definition evaluate_nil :: "string \<Rightarrow> query_fn_t" where
  "evaluate_nil field = (\<lambda>e. Inr (\<not> has_field_set e field))"

definition evaluate_field :: "runtime \<Rightarrow> string option \<Rightarrow> string \<Rightarrow> query_value \<Rightarrow> exn + query_fn_t" where
  "evaluate_field rt op field v =
     (case op of
        Some op \<Rightarrow>
          (case v of
             VString (Some s) \<Rightarrow> evaluate_string rt op field s
           | VString None \<Rightarrow> Inl Undefined
           | VInt i \<Rightarrow> Inr (evaluate_int op field i)
           | VDouble d \<Rightarrow> Inr (evaluate_double op field d))
      | None \<Rightarrow> Inr (evaluate_nil field))"

text \<open>\<open>&&\<close> and \<open>||\<close> leave the right operand alone when the left one decides.\<close>

fun evaluate :: "runtime \<Rightarrow> query_node \<Rightarrow> exn + query_fn_t" where
  "evaluate rt Query_true = Inr (\<lambda>_. Inr True)"
| "evaluate rt (Query_tagged s) =
     bind_exn (substr 1 (length s - 2) s) (\<lambda>tag. Inr (\<lambda>e. Inr (has_tag e tag)))"
| "evaluate rt (Query_field op field v) = evaluate_field rt op field v"
| "evaluate rt (Query_and l r) =
     bind_exn (evaluate rt l) (\<lambda>f. bind_exn (evaluate rt r) (\<lambda>g.
       Inr (\<lambda>e. bind_exn (f e) (\<lambda>b. if b then g e else Inr False))))"
| "evaluate rt (Query_or l r) =
     bind_exn (evaluate rt l) (\<lambda>f. bind_exn (evaluate rt r) (\<lambda>g.
       Inr (\<lambda>e. bind_exn (f e) (\<lambda>b. if b then Inr True else g e))))"
| "evaluate rt (Query_not r) =
     bind_exn (evaluate rt r) (\<lambda>f. Inr (\<lambda>e. bind_exn (f e) (\<lambda>b. Inr (\<not> b))))"

text \<open>\<open>query_context\<close>: the expression, none before the first query.\<close>

definition context_evaluate :: "runtime \<Rightarrow> query_node option \<Rightarrow> exn + query_fn_t" where
  "context_evaluate rt ctx = (case ctx of Some q \<Rightarrow> evaluate rt q | None \<Rightarrow> Inl Undefined)"

end
