(* ===== verification/Query_Parser.thy ===== *)
theory Query_Parser
  imports Query
begin

text \<open>
  The query parser that bison generated from \<open>query/parser.yy\<close> (\<open>query/parser.cpp\<close>, \<open>query/parser.h\<close>): its
  tables, the loop over them, the actions, and the grammar it is meant to recognise. The lemmas read
  off the tables what they decide in every state on every symbol.
\<close>

section \<open>Tokens and semantic values\<close>

text \<open>The token numbers of \<open>token::yytokentype\<close>; a character that starts no token stands for itself.\<close>

datatype token =
    END | EOL | INTEGER | DOUBLE | STRING | EQUAL | GREATER | GREATER_EQ | LESSER | LESSER_EQ | LIKE
  | UNQUOTEDSTRING | TRUE | TAGGED | NIL | KW_OR | KW_AND | KW_NOT | CHARACTER int

fun token_number :: "token \<Rightarrow> int" where
  "token_number END = 0"
| "token_number EOL = 258"
| "token_number INTEGER = 259"
| "token_number DOUBLE = 260"
| "token_number STRING = 261"
| "token_number EQUAL = 262"
| "token_number GREATER = 263"
| "token_number GREATER_EQ = 264"
| "token_number LESSER = 265"
| "token_number LESSER_EQ = 266"
| "token_number LIKE = 267"
| "token_number UNQUOTEDSTRING = 268"
| "token_number TRUE = 269"
| "token_number TAGGED = 270"
| "token_number NIL = 271"
| "token_number KW_OR = 272"
| "token_number KW_AND = 273"
| "token_number KW_NOT = 274"
| "token_number (CHARACTER i) = i"

text \<open>The members of the union of semantic values; reading a member that was not written is undefined.\<close>

datatype semantic = NoVal | IntegerVal int | DoubleVal fp | StringVal string | Querynode query_node

type_synonym lexeme = "token \<times> semantic"

fun stringVal :: "semantic \<Rightarrow> exn + string" where
  "stringVal (StringVal s) = Inr s"
| "stringVal v = Inl Undefined"

fun integerVal :: "semantic \<Rightarrow> exn + int" where
  "integerVal (IntegerVal i) = Inr i"
| "integerVal v = Inl Undefined"

fun doubleVal :: "semantic \<Rightarrow> exn + fp" where
  "doubleVal (DoubleVal d) = Inr d"
| "doubleVal v = Inl Undefined"

fun querynode :: "semantic \<Rightarrow> exn + query_node" where
  "querynode (Querynode q) = Inr q"
| "querynode v = Inl Undefined"

section \<open>The tables\<close>

definition yypact :: "int list" where
  "yypact =
     [- 12, 18, - 13, 27, - 1, - 4, - 13, - 13, 19, 5, - 10, - 13, - 13, - 13, - 13, - 13, 16, - 13, 7, - 1,
      - 13, 17, 14, - 1, - 1, - 13, - 13, - 13, - 13, - 13, - 13, - 13, - 13, - 13, - 13]"

definition yydefact :: "int list" where
  "yydefact =
     [0, 0, 3, 0, 0, 0, 21, 20, 22, 0, 4, 6, 7, 8, 9, 5, 0, 11, 0, 0,
      19, 0, 0, 0, 0, 1, 12, 14, 15, 13, 10, 2, 16, 18, 17]"

definition yypgoto :: "int list" where
  "yypgoto =
     [- 13, - 13, - 13, - 13, 0, - 13]"

definition yydefgoto :: "int list" where
  "yydefgoto =
     [- 1, 6, 16, 7, 22, 9]"

definition yytable :: "int list" where
  "yytable =
     [8, 1, 2, 3, 20, 25, 26, 4, 5, 1, 21, 3, 1, 30, 3, 4, 19, 0, 4, 19,
      27, 28, 29, 33, 34, 10, 11, 12, 13, 14, 15, 23, 24, 17, 18, 32, 23, 24, 31]"

definition yycheck :: "int list" where
  "yycheck =
     [0, 13, 14, 15, 4, 0, 16, 19, 20, 13, 14, 15, 13, 6, 15, 19, 20, - 1, 19, 20,
      4, 5, 6, 23, 24, 7, 8, 9, 10, 11, 12, 17, 18, 6, 7, 21, 17, 18, 21]"

definition yystos :: "int list" where
  "yystos =
     [0, 13, 14, 15, 19, 20, 23, 25, 26, 27, 7, 8, 9, 10, 11, 12, 24, 6, 7, 20,
      26, 14, 26, 17, 18, 0, 16, 4, 5, 6, 6, 21, 21, 26, 26]"

definition yyr1 :: "int list" where
  "yyr1 =
     [0, 22, 23, 23, 24, 24, 24, 24, 24, 24, 25, 25, 25, 25, 25, 25, 26, 26, 26, 26,
      26, 27, 27]"

definition yyr2 :: "int list" where
  "yyr2 =
     [0, 2, 3, 1, 1, 1, 1, 1, 1, 1, 3, 2, 3, 3, 3, 3, 3, 3, 3, 2,
      1, 1, 1]"

definition yypact_ninf :: int where "yypact_ninf = - 13"

definition yytable_ninf :: int where "yytable_ninf = - 1"

definition yyeof :: int where "yyeof = 0"

definition yylast :: int where "yylast = 38"

definition yyfinal :: int where "yyfinal = 25"

definition yyterror :: int where "yyterror = 1"

definition yyntokens :: int where "yyntokens = 22"

definition translate_table :: "int list" where
  "translate_table =
     [0] @ replicate 39 2 @ [20, 21] @ replicate 214 2 @ [1, 2, 3, 4, 5, 6, 7, 8, 9, 10, 11, 12, 13, 14, 15, 16, 17,
      18, 19]"

definition yytranslate :: "int \<Rightarrow> int" where
  "yytranslate t = (if t \<le> yyeof then yyeof else if t \<le> 274 then translate_table ! nat t else 2)"

definition at_index :: "int list \<Rightarrow> int \<Rightarrow> int" where
  "at_index xs i = xs ! nat i"

definition yy_lr_goto_state :: "int \<Rightarrow> int \<Rightarrow> int" where
  "yy_lr_goto_state yystate yysym =
     (let yyr = at_index yypgoto (yysym - yyntokens) + yystate
      in if 0 \<le> yyr \<and> yyr \<le> yylast \<and> at_index yycheck yyr = yystate then at_index yytable yyr
         else at_index yydefgoto (yysym - yyntokens))"

section \<open>The parser\<close>

text \<open>
  The stack with its top first, the tokens that are still to be read (the first is the lookahead; when
  none is left the scanner returns the end of file), the error status, and the expression of the
  driver.
\<close>

record yyparser =
  yystack :: "(int \<times> semantic) list"
  yyinput :: "lexeme list"
  yyerrstatus :: nat
  expression :: "query_node option"

datatype yyresult = Running yyparser | Finished int yyparser

definition yystate_of :: "yyparser \<Rightarrow> int" where
  "yystate_of p = fst (hd (yystack p))"

definition yyla :: "yyparser \<Rightarrow> lexeme" where
  "yyla p = (case yyinput p of [] \<Rightarrow> (END, NoVal) | l # _ \<Rightarrow> l)"

definition yypush :: "int \<Rightarrow> semantic \<Rightarrow> yyparser \<Rightarrow> yyparser" where
  "yypush s v p = p\<lparr>yystack := (s, v) # yystack p\<rparr>"

text \<open>The actions of the grammar, on the values of the right-hand side, the last one first.\<close>

definition yyaction :: "int \<Rightarrow> semantic list \<Rightarrow> semantic \<Rightarrow> exn + semantic" where
  "yyaction yyn v dflt =
     (if yyn = 2 \<or> yyn = 3 then Inr (Querynode Query_true)
      else if 4 \<le> yyn \<and> yyn \<le> 9 then bind_exn (stringVal (v ! 0)) (\<lambda>s. Inr (StringVal s))
      else if yyn = 10 \<or> yyn = 11 then bind_exn (stringVal (v ! 0)) (\<lambda>s. Inr (Querynode (Query_tagged s)))
      else if yyn = 12 then bind_exn (stringVal (v ! 2)) (\<lambda>f. Inr (Querynode (query_field_nil f)))
      else if yyn = 13
      then bind_exn (stringVal (v ! 2)) (\<lambda>f. bind_exn (stringVal (v ! 0)) (\<lambda>s. bind_exn (stringVal (v ! 1)) (\<lambda>op.
             Inr (Querynode (query_field_string f s op)))))
      else if yyn = 14
      then bind_exn (stringVal (v ! 2)) (\<lambda>f. bind_exn (integerVal (v ! 0)) (\<lambda>i. bind_exn (stringVal (v ! 1)) (\<lambda>op.
             Inr (Querynode (query_field_int f i op)))))
      else if yyn = 15
      then bind_exn (stringVal (v ! 2)) (\<lambda>f. bind_exn (doubleVal (v ! 0)) (\<lambda>d. bind_exn (stringVal (v ! 1)) (\<lambda>op.
             Inr (Querynode (query_field_double f d op)))))
      else if yyn = 16 then bind_exn (querynode (v ! 1)) (\<lambda>q. Inr (Querynode q))
      else if yyn = 17
      then bind_exn (querynode (v ! 2)) (\<lambda>l. bind_exn (querynode (v ! 0)) (\<lambda>r. Inr (Querynode (Query_and l r))))
      else if yyn = 18
      then bind_exn (querynode (v ! 2)) (\<lambda>l. bind_exn (querynode (v ! 0)) (\<lambda>r. Inr (Querynode (Query_or l r))))
      else if yyn = 19 then bind_exn (querynode (v ! 0)) (\<lambda>r. Inr (Querynode (Query_not r)))
      else if yyn = 20 then bind_exn (querynode (v ! 0)) (\<lambda>q. Inr (Querynode q))
      else Inr dflt)"

definition set_expression :: "int \<Rightarrow> semantic list \<Rightarrow> query_node option \<Rightarrow> exn + query_node option" where
  "set_expression yyn v e =
     (if yyn = 21 \<or> yyn = 22 then bind_exn (querynode (v ! 0)) (\<lambda>q. Inr (Some q)) else Inr e)"

definition yyreduce :: "int \<Rightarrow> yyparser \<Rightarrow> exn + yyresult" where
  "yyreduce yyn p =
     (let yylen = nat (at_index yyr2 yyn);
          v = map snd (yystack p);
          s = yy_lr_goto_state (fst (yystack p ! yylen)) (at_index yyr1 yyn)
      in bind_exn (yyaction yyn v (if yylen = 0 then v ! 0 else v ! (yylen - 1))) (\<lambda>lhs.
         bind_exn (set_expression yyn v (expression p)) (\<lambda>e.
           Inr (Running (p\<lparr>yystack := (s, lhs) # drop yylen (yystack p), expression := e\<rparr>)))))"

text \<open>Popping states until one can shift the error token; none is left when the bottom cannot.\<close>

fun yyerrlab1 :: "(int \<times> semantic) list \<Rightarrow> (int \<times> (int \<times> semantic) list) option" where
  "yyerrlab1 [] = None"
| "yyerrlab1 ((s, v) # stk) =
     (let yyn = at_index yypact s; i = yyn + yyterror
      in if yyn \<noteq> yypact_ninf \<and> 0 \<le> i \<and> i \<le> yylast \<and> at_index yycheck i = yyterror \<and> 0 < at_index yytable i
         then Some (at_index yytable i, (s, v) # stk)
         else yyerrlab1 stk)"

definition yyerrlab :: "yyparser \<Rightarrow> yyresult" where
  "yyerrlab p =
     (let eof = yytranslate (token_number (fst (yyla p))) = yyeof;
          p1 = (if yyerrstatus p = 3 then p\<lparr>yyinput := tl (yyinput p)\<rparr> else p)
      in if yyerrstatus p = 3 \<and> eof then Finished 1 p
         else case yyerrlab1 (yystack p1) of
                None \<Rightarrow> Finished 1 p1
              | Some (yyn, stk) \<Rightarrow> Running (p1\<lparr>yystack := (yyn, NoVal) # stk, yyerrstatus := 3\<rparr>))"

definition yydefault :: "yyparser \<Rightarrow> exn + yyresult" where
  "yydefault p =
     (let yyn = at_index yydefact (yystate_of p)
      in if yyn = 0 then Inr (yyerrlab p) else yyreduce yyn p)"

definition yynewstate :: "yyparser \<Rightarrow> exn + yyresult" where
  "yynewstate p =
     (if yystate_of p = yyfinal then Inr (Finished 0 p)
      else let yyn = at_index yypact (yystate_of p)
           in if yyn = yypact_ninf then yydefault p
              else let (t, v) = yyla p; y = yytranslate (token_number t); i = yyn + y
                   in if i < 0 \<or> yylast < i \<or> at_index yycheck i \<noteq> y then yydefault p
                      else let n = at_index yytable i
                           in if n \<le> 0
                              then if n = yytable_ninf then Inr (yyerrlab p) else yyreduce (- n) p
                              else Inr (Running (yypush n v (p\<lparr>yyinput := tl (yyinput p),
                                                                 yyerrstatus := yyerrstatus p - 1\<rparr>))))"

partial_function (option) yyloop :: "yyparser \<Rightarrow> (exn + (int \<times> yyparser)) option" where
  "yyloop p =
     (case yynewstate p of
        Inl x \<Rightarrow> Some (Inl x)
      | Inr (Running p1) \<Rightarrow> yyloop p1
      | Inr (Finished r p1) \<Rightarrow> Some (Inr (r, p1)))"

definition yyparse :: "lexeme list \<Rightarrow> query_node option \<Rightarrow> (exn + (int \<times> yyparser)) option" where
  "yyparse ls e = yyloop \<lparr>yystack = [(0, NoVal)], yyinput = ls, yyerrstatus = 0, expression = e\<rparr>"

section \<open>The grammar\<close>

text \<open>
  The rules of \<open>parser.yy\<close> with the ambiguity of \<open>expr\<close> resolved as \<open>%left OR AND NOT\<close> asks: all three
  operators on one level, to the left, so that \<open>not\<close> takes the shortest operand.
\<close>

definition is_operator :: "token \<Rightarrow> bool" where
  "is_operator t \<longleftrightarrow> t \<in> {EQUAL, LIKE, GREATER, GREATER_EQ, LESSER, LESSER_EQ}"

inductive gram_action :: "lexeme list \<Rightarrow> query_node \<Rightarrow> bool" where
  tagged_equal: "gram_action [(TAGGED, u), (EQUAL, v), (STRING, StringVal s)] (Query_tagged s)"
| tagged: "gram_action [(TAGGED, u), (STRING, StringVal s)] (Query_tagged s)"
| nil: "gram_action [(UNQUOTEDSTRING, StringVal f), (EQUAL, u), (NIL, v)] (query_field_nil f)"
| string: "is_operator t \<Longrightarrow>
    gram_action [(UNQUOTEDSTRING, StringVal f), (t, StringVal op), (STRING, StringVal s)] (query_field_string f s op)"
| integer: "is_operator t \<Longrightarrow>
    gram_action [(UNQUOTEDSTRING, StringVal f), (t, StringVal op), (INTEGER, IntegerVal i)] (query_field_int f i op)"
| double: "is_operator t \<Longrightarrow>
    gram_action [(UNQUOTEDSTRING, StringVal f), (t, StringVal op), (DOUBLE, DoubleVal d)] (query_field_double f d op)"

inductive gram_unary :: "lexeme list \<Rightarrow> query_node \<Rightarrow> bool"
  and gram_expr :: "lexeme list \<Rightarrow> query_node \<Rightarrow> bool"
where
  action: "gram_action ts q \<Longrightarrow> gram_unary ts q"
| neg: "gram_unary ts q \<Longrightarrow> gram_unary ((KW_NOT, u) # ts) (Query_not q)"
| paren: "gram_expr ts q \<Longrightarrow> gram_unary ((CHARACTER 40, u) # ts @ [(CHARACTER 41, v)]) q"
| unary: "gram_unary ts q \<Longrightarrow> gram_expr ts q"
| conj: "gram_expr ts q \<Longrightarrow> gram_unary us r \<Longrightarrow> gram_expr (ts @ (KW_AND, u) # us) (Query_and q r)"
| disj: "gram_expr ts q \<Longrightarrow> gram_unary us r \<Longrightarrow> gram_expr (ts @ (KW_OR, u) # us) (Query_or q r)"

inductive gram_start :: "lexeme list \<Rightarrow> query_node \<Rightarrow> bool" where
  all: "gram_start [(TRUE, u)] Query_true"
| all_paren: "gram_start [(CHARACTER 40, u), (TRUE, v), (CHARACTER 41, w)] Query_true"
| expr: "gram_expr ts q \<Longrightarrow> gram_start ts q"

section \<open>The decisions of the tables\<close>

text \<open>
  What the tables decide in a state on a symbol: to shift to a state, to reduce by a rule (negative),
  or nothing.
\<close>

definition lr_action :: "int \<Rightarrow> int \<Rightarrow> int" where
  "lr_action s y =
     (let n = at_index yypact s; i = n + y
      in if n = yypact_ninf \<or> i < 0 \<or> yylast < i \<or> at_index yycheck i \<noteq> y then - at_index yydefact s
         else at_index yytable i)"

definition operand_table :: "int \<Rightarrow> int" where
  "operand_table y =
     (if y = 13 then 1 else if y = 15 then 3 else if y = 19 then 4 else if y = 20 then 19 else 0)"

definition lr_table :: "int \<Rightarrow> int \<Rightarrow> int" where
  "lr_table s y =
     (if s = 0 then if y = 14 then 2 else if y = 20 then 5 else operand_table y
      else if s = 1 then if 7 \<le> y \<and> y \<le> 12 then y + 3 else 0
      else if s = 2 then - 3
      else if s = 3 then if y = 6 then 17 else if y = 7 then 18 else 0
      else if s \<in> {4, 19, 23, 24} then operand_table y
      else if s = 5 then if y = 14 then 21 else operand_table y
      else if s = 6 then - 21
      else if s = 7 then - 20
      else if s = 8 then if y = 17 then 23 else if y = 18 then 24 else - 22
      else if s = 9 then if y = 0 then 25 else 0
      else if s = 10 then if y = 16 then 26 else - 4
      else if s = 11 then - 6 else if s = 12 then - 7 else if s = 13 then - 8 else if s = 14 then - 9
      else if s = 15 then - 5
      else if s = 16 then if y = 4 then 27 else if y = 5 then 28 else if y = 6 then 29 else 0
      else if s = 17 then - 11
      else if s = 18 then if y = 6 then 30 else 0
      else if s = 20 then - 19
      else if s = 21 then if y = 21 then 31 else 0
      else if s = 22 then if y = 17 then 23 else if y = 18 then 24 else if y = 21 then 32 else 0
      else if s = 25 then - 1
      else if s = 26 then - 12 else if s = 27 then - 14 else if s = 28 then - 15 else if s = 29 then - 13
      else if s = 30 then - 10 else if s = 31 then - 2 else if s = 32 then - 16 else if s = 33 then - 18
      else - 17)"

definition goto_table :: "int \<Rightarrow> int \<Rightarrow> int" where
  "goto_table s y =
     (if y = 23 then 6 else if y = 24 then 16 else if y = 25 then 7 else if y = 27 then 9
      else if s = 0 then 8 else if s = 4 then 20 else if s = 23 then 33 else if s = 24 then 34 else 22)"

lemma lr_action_table_all: "list_all (\<lambda>s. list_all (\<lambda>y. lr_action s y = lr_table s y) [0..21]) [0..34]"
  by code_simp

lemma goto_table_all:
  "list_all (\<lambda>s. list_all (\<lambda>y. yy_lr_goto_state s y = goto_table s y) [23..27]) [0..34]"
  by code_simp

lemma no_error_shift:
  "list_all (\<lambda>s. let n = at_index yypact s; i = n + yyterror in
     n = yypact_ninf \<or> i < 0 \<or> yylast < i \<or> at_index yycheck i \<noteq> yyterror) [0..34]"
  by code_simp

lemma table_entries_all:
  "list_all (\<lambda>i. 0 \<le> at_index yycheck i \<longrightarrow> 0 < at_index yytable i) [0..38]"
  "list_all (\<lambda>s. 0 \<le> at_index yydefact s) [0..34]"
  by code_simp+

lemma table_entry_positive: "0 \<le> i \<Longrightarrow> i \<le> 38 \<Longrightarrow> 0 \<le> at_index yycheck i \<Longrightarrow> 0 < at_index yytable i"
  using table_entries_all(1) unfolding list_all_iff set_upto by (meson atLeastAtMost_iff)

lemma default_nonneg: "0 \<le> s \<Longrightarrow> s \<le> 34 \<Longrightarrow> 0 \<le> at_index yydefact s"
  using table_entries_all(2) unfolding list_all_iff set_upto by (meson atLeastAtMost_iff)

lemma lr_action_table: "0 \<le> s \<Longrightarrow> s \<le> 34 \<Longrightarrow> 0 \<le> y \<Longrightarrow> y \<le> 21 \<Longrightarrow> lr_action s y = lr_table s y"
  using lr_action_table_all unfolding list_all_iff set_upto by (meson atLeastAtMost_iff)

lemma yy_lr_goto_state_table:
  "0 \<le> s \<Longrightarrow> s \<le> 34 \<Longrightarrow> 23 \<le> y \<Longrightarrow> y \<le> 27 \<Longrightarrow> yy_lr_goto_state s y = goto_table s y"
  using goto_table_all unfolding list_all_iff set_upto by (meson atLeastAtMost_iff)

lemma yyerrlab1_none: "list_all (\<lambda>x. 0 \<le> fst x \<and> fst x \<le> 34) stk \<Longrightarrow> yyerrlab1 stk = None"
proof (induction stk rule: yyerrlab1.induct)
  case (2 s v stk)
  have "s \<in> set [0..34]" using 2 by simp
  with no_error_shift 2 show ?case by (auto simp: list_all_iff Let_def)
qed simp

definition symbol_of :: "lexeme \<Rightarrow> int" where
  "symbol_of l = yytranslate (token_number (fst l))"

lemma translate_table_range: "length translate_table = 275" "list_all (\<lambda>y. 0 \<le> y \<and> y \<le> 21) translate_table"
  by code_simp+

lemma symbol_range: "0 \<le> symbol_of l \<and> symbol_of l \<le> 21"
proof (cases "0 < token_number (fst l) \<and> token_number (fst l) \<le> 274")
  case True
  then have "nat (token_number (fst l)) < length translate_table"
    unfolding translate_table_range(1) by linarith
  with True translate_table_range(2) show ?thesis
    by (auto simp: symbol_of_def yytranslate_def yyeof_def list_all_length)
qed (auto simp: symbol_of_def yytranslate_def yyeof_def)

section \<open>The parser in terms of the decisions\<close>

abbreviation parser_at :: "(int \<times> semantic) list \<Rightarrow> lexeme list \<Rightarrow> query_node option \<Rightarrow> yyparser" where
  "parser_at stk ls e \<equiv> \<lparr>yystack = stk, yyinput = ls, yyerrstatus = 0, expression = e\<rparr>"

definition lookahead :: "lexeme list \<Rightarrow> lexeme" where
  "lookahead ls = (case ls of [] \<Rightarrow> (END, NoVal) | l # _ \<Rightarrow> l)"

lemma lookahead_simps [simp]: "lookahead [] = (END, NoVal)" "lookahead (l # ls) = l"
  by (simp_all add: lookahead_def)

lemma yynewstate_decision:
  assumes "0 \<le> s" "s \<le> 34" "s \<noteq> 25" "lr_table s (symbol_of (lookahead ls)) = d"
  shows "yynewstate (parser_at ((s, v) # stk) ls e) =
    (if 0 < d then Inr (Running (parser_at ((d, snd (lookahead ls)) # (s, v) # stk) (tl ls) e))
     else if d = 0 then Inr (yyerrlab (parser_at ((s, v) # stk) ls e))
     else yyreduce (- d) (parser_at ((s, v) # stk) ls e))"
proof -
  let ?p = "parser_at ((s, v) # stk) ls e" and ?y = "symbol_of (lookahead ls)"
  have y: "lr_action s ?y = d" using assms lr_action_table symbol_range by simp
  have la: "yyla ?p = lookahead ls" by (simp add: yyla_def lookahead_def split: list.split)
  show ?thesis
  proof (cases "at_index yypact s = yypact_ninf \<or> at_index yypact s + ?y < 0 \<or> yylast < at_index yypact s + ?y
      \<or> at_index yycheck (at_index yypact s + ?y) \<noteq> ?y")
    case True
    then have d: "d = - at_index yydefact s" using y by (auto simp: lr_action_def Let_def)
    with default_nonneg [OF assms(1,2)] have "d \<le> 0" by simp
    moreover have "yynewstate ?p = yydefault ?p"
      using True assms(3)
      by (auto simp: yynewstate_def yystate_of_def yyfinal_def la Let_def symbol_of_def [symmetric] split_beta)
    ultimately show ?thesis using d by (simp add: yydefault_def yystate_of_def Let_def)
  next
    case False
    then have d: "d = at_index yytable (at_index yypact s + ?y)" using y by (auto simp: lr_action_def Let_def)
    with False table_entry_positive symbol_range have "0 < d" by (auto simp: yylast_def)
    with False d assms(3) show ?thesis
      by (auto simp: yynewstate_def yystate_of_def yyfinal_def la Let_def symbol_of_def [symmetric] split_beta yypush_def)
  qed
qed

section \<open>Lexemes\<close>

text \<open>What the scanner returns: the value fits the token, and a character is one of type \<open>char\<close>.\<close>

fun lexeme_ok :: "lexeme \<Rightarrow> bool" where
  "lexeme_ok (INTEGER, v) = (case v of IntegerVal _ \<Rightarrow> True | _ \<Rightarrow> False)"
| "lexeme_ok (DOUBLE, v) = (case v of DoubleVal _ \<Rightarrow> True | _ \<Rightarrow> False)"
| "lexeme_ok (CHARACTER i, v) = (- 128 \<le> i \<and> i \<le> 127)"
| "lexeme_ok (t, v) =
     (t \<in> {STRING, UNQUOTEDSTRING} \<or> is_operator t \<longrightarrow> (case v of StringVal _ \<Rightarrow> True | _ \<Rightarrow> False))"

lemma symbol_simps [simp]:
  "symbol_of (END, v) = 0" "symbol_of (EOL, v) = 3" "symbol_of (INTEGER, v) = 4" "symbol_of (DOUBLE, v) = 5"
  "symbol_of (STRING, v) = 6" "symbol_of (EQUAL, v) = 7" "symbol_of (GREATER, v) = 8"
  "symbol_of (GREATER_EQ, v) = 9" "symbol_of (LESSER, v) = 10" "symbol_of (LESSER_EQ, v) = 11"
  "symbol_of (LIKE, v) = 12" "symbol_of (UNQUOTEDSTRING, v) = 13" "symbol_of (TRUE, v) = 14"
  "symbol_of (TAGGED, v) = 15" "symbol_of (NIL, v) = 16" "symbol_of (KW_OR, v) = 17" "symbol_of (KW_AND, v) = 18"
  "symbol_of (KW_NOT, v) = 19"
  unfolding symbol_of_def by code_simp+

lemma symbol_character_all:
  "list_all (\<lambda>i. yytranslate i = (if i = 40 then 20 else if i = 41 then 21 else 2)) [1..127]"
  by code_simp

lemma symbol_character:
  assumes "- 128 \<le> i" "i \<le> 127"
  shows "symbol_of (CHARACTER i, v) = (if i \<le> 0 then 0 else if i = 40 then 20 else if i = 41 then 21 else 2)"
proof (cases "i \<le> 0")
  case False
  with assms have "i \<in> set [1..127]" by simp
  with symbol_character_all False show ?thesis unfolding list_all_iff by (auto simp: symbol_of_def)
qed (simp add: symbol_of_def yytranslate_def yyeof_def)

lemma symbol_inversion:
  assumes "lexeme_ok l" "symbol_of l = k"
  shows "k = 4 \<Longrightarrow> \<exists>i. l = (INTEGER, IntegerVal i)" "k = 5 \<Longrightarrow> \<exists>d. l = (DOUBLE, DoubleVal d)"
    "k = 6 \<Longrightarrow> \<exists>s. l = (STRING, StringVal s)" "k = 7 \<Longrightarrow> \<exists>s. l = (EQUAL, StringVal s)"
    "7 \<le> k \<Longrightarrow> k \<le> 12 \<Longrightarrow> \<exists>t s. l = (t, StringVal s) \<and> is_operator t"
    "k = 13 \<Longrightarrow> \<exists>s. l = (UNQUOTEDSTRING, StringVal s)" "k = 14 \<Longrightarrow> \<exists>v. l = (TRUE, v)"
    "k = 15 \<Longrightarrow> \<exists>v. l = (TAGGED, v)" "k = 16 \<Longrightarrow> \<exists>v. l = (NIL, v)" "k = 17 \<Longrightarrow> \<exists>v. l = (KW_OR, v)"
    "k = 18 \<Longrightarrow> \<exists>v. l = (KW_AND, v)" "k = 19 \<Longrightarrow> \<exists>v. l = (KW_NOT, v)" "k = 20 \<Longrightarrow> \<exists>v. l = (CHARACTER 40, v)"
    "k = 21 \<Longrightarrow> \<exists>v. l = (CHARACTER 41, v)"
  using assms
  by (cases l; cases "fst l"; auto simp: is_operator_def symbol_character split: if_splits semantic.splits)+

end
