(* ===== verification/Query_Grammar.thy ===== *)
theory Query_Grammar
  imports Query_Parser
begin

text \<open>
  The generated query parser implements its grammar. Every configuration it reaches stands for tokens
  already read (\<open>valid_stack\<close>), every step keeps that and makes the configuration lighter, so the
  parser stops and accepts only what the grammar derives; conversely it reads every derivation to its
  end.
\<close>

section \<open>The stack of the parser\<close>

text \<open>The states in which an operand may begin, and the states that lie under a state on the stack.\<close>

abbreviation operand_states :: "int set" where
  "operand_states \<equiv> {0, 4, 5, 19, 23, 24}"

definition below :: "int \<Rightarrow> int set" where
  "below s =
     (if s \<in> {1, 3, 4, 7} then operand_states
      else if s \<in> {2, 5, 6, 8, 9} then {0}
      else if s \<in> {10, 11, 12, 13, 14, 15, 16} then {1}
      else if s \<in> {17, 18} then {3}
      else if s = 19 then operand_states - {0}
      else if s = 20 then {4}
      else if s = 21 then {5}
      else if s = 22 then {5, 19}
      else if s \<in> {23, 24} then {8, 22}
      else if s = 25 then {9}
      else if s = 26 then {10}
      else if s \<in> {27, 28, 29} then {16}
      else if s = 30 then {18}
      else if s = 31 then {21}
      else if s = 32 then {22}
      else if s = 33 then {23}
      else if s = 34 then {24}
      else {})"

text \<open>The symbols an entry stands for: a token, or what a rule of the grammar was reduced from.\<close>

definition derives :: "int \<Rightarrow> semantic \<Rightarrow> lexeme list \<Rightarrow> bool" where
  "derives s v us \<longleftrightarrow>
     (if s \<in> {8, 22} then \<exists>q. v = Querynode q \<and> gram_expr us q
      else if s \<in> {20, 33, 34} then \<exists>q. v = Querynode q \<and> gram_unary us q
      else if s = 7 then \<exists>q. v = Querynode q \<and> gram_action us q
      else if s = 16 then \<exists>t op. v = StringVal op \<and> us = [(t, StringVal op)] \<and> is_operator t
      else if s \<in> {6, 9} then \<exists>q. v = Querynode q \<and> gram_start us q
      else \<exists>l. us = [l] \<and> v = snd l \<and> lexeme_ok l \<and> symbol_of l = at_index yystos s)"

inductive valid_stack :: "(int \<times> semantic) list \<Rightarrow> lexeme list \<Rightarrow> bool" where
  bottom: "valid_stack [(0, v)] []"
| push: "valid_stack ((s, v) # stk) ts \<Longrightarrow> s \<in> below s1 \<Longrightarrow> derives s1 v1 us
     \<Longrightarrow> valid_stack ((s1, v1) # (s, v) # stk) (ts @ us)"

inductive_cases valid_stackE: "valid_stack ((s, v) # stk) ts"

lemma valid_stack_state: "valid_stack ((s, v) # stk) ts \<Longrightarrow> 0 \<le> s \<and> s \<le> 34"
  by (erule valid_stackE) (auto simp: below_def split: if_splits)

lemma valid_stack_states: "valid_stack stk ts \<Longrightarrow> list_all (\<lambda>x. 0 \<le> fst x \<and> fst x \<le> 34) stk"
proof (induction rule: valid_stack.induct)
  case (push s v stk ts s1 v1 us)
  then have "valid_stack ((s1, v1) # (s, v) # stk) (ts @ us)" by (auto intro: valid_stack.push)
  with push show ?case using valid_stack_state by fastforce
qed simp

lemma yystos_simps [simp]:
  "at_index yystos 1 = 13" "at_index yystos 2 = 14" "at_index yystos 3 = 15" "at_index yystos 4 = 19"
  "at_index yystos 5 = 20" "at_index yystos 10 = 7" "at_index yystos 11 = 8" "at_index yystos 12 = 9"
  "at_index yystos 13 = 10" "at_index yystos 14 = 11" "at_index yystos 15 = 12" "at_index yystos 17 = 6"
  "at_index yystos 18 = 7" "at_index yystos 19 = 20" "at_index yystos 21 = 14" "at_index yystos 23 = 17"
  "at_index yystos 24 = 18" "at_index yystos 25 = 0" "at_index yystos 26 = 16" "at_index yystos 27 = 4"
  "at_index yystos 28 = 5" "at_index yystos 29 = 6" "at_index yystos 30 = 6" "at_index yystos 31 = 21"
  "at_index yystos 32 = 21"
  by code_simp+

lemma valid_stack_shift_all:
  "list_all (\<lambda>s. list_all (\<lambda>y. s = 25 \<or> lr_table s y \<le> 0
      \<or> s \<in> below (lr_table s y) \<and> at_index yystos (lr_table s y) = y
        \<and> lr_table s y \<notin> {6, 7, 8, 9, 16, 20, 22, 33, 34}) [0..21]) [0..34]"
  by code_simp

lemma valid_stack_pop:
  assumes "valid_stack ((s1, v1) # stk1) ts" "s1 \<noteq> 0"
  obtains s v stk ts1 us where "stk1 = (s, v) # stk" "ts = ts1 @ us" "valid_stack ((s, v) # stk) ts1"
    "s \<in> below s1" "derives s1 v1 us"
  using assms by (auto elim: valid_stackE)

lemma valid_stack_shift:
  assumes "valid_stack ((s, v) # stk) ts" "s \<noteq> 25" "0 < lr_table s (symbol_of l)" "lexeme_ok l"
  shows "valid_stack ((lr_table s (symbol_of l), snd l) # (s, v) # stk) (ts @ [l])"
proof -
  let ?d = "lr_table s (symbol_of l)"
  have "s \<in> below ?d" "at_index yystos ?d = symbol_of l" "?d \<notin> {6, 7, 8, 9, 16, 20, 22, 33, 34}"
    using valid_stack_shift_all valid_stack_state [OF assms(1)] symbol_range [of l] assms(2,3)
    unfolding list_all_iff set_upto by (meson atLeastAtMost_iff leD)+
  with assms show ?thesis by (intro valid_stack.push) (auto simp: derives_def)
qed

lemma push_operand:
  assumes "valid_stack ((s, v) # stk) ts" "s \<in> operand_states"
  shows "gram_action us q \<Longrightarrow> valid_stack ((7, Querynode q) # (s, v) # stk) (ts @ us)"
    "gram_unary us q \<Longrightarrow> valid_stack ((goto_table s 26, Querynode q) # (s, v) # stk) (ts @ us)"
    "gram_expr us q \<Longrightarrow> s \<in> {0, 5, 19} \<Longrightarrow> valid_stack ((goto_table s 26, Querynode q) # (s, v) # stk) (ts @ us)"
  by (rule valid_stack.push [OF assms(1)]; insert assms(2);
      auto simp: below_def derives_def goto_table_def intro: unary)+

lemma rule_simps [simp]:
  "at_index yyr1 2 = 23" "at_index yyr1 3 = 23" "at_index yyr1 4 = 24" "at_index yyr1 5 = 24" "at_index yyr1 6 = 24"
  "at_index yyr1 7 = 24" "at_index yyr1 8 = 24" "at_index yyr1 9 = 24" "at_index yyr1 10 = 25" "at_index yyr1 11 = 25"
  "at_index yyr1 12 = 25" "at_index yyr1 13 = 25" "at_index yyr1 14 = 25" "at_index yyr1 15 = 25"
  "at_index yyr1 16 = 26" "at_index yyr1 17 = 26" "at_index yyr1 18 = 26" "at_index yyr1 19 = 26"
  "at_index yyr1 20 = 26" "at_index yyr1 21 = 27" "at_index yyr1 22 = 27"
  "at_index yyr2 2 = 3" "at_index yyr2 3 = 1" "at_index yyr2 4 = 1" "at_index yyr2 5 = 1" "at_index yyr2 6 = 1"
  "at_index yyr2 7 = 1" "at_index yyr2 8 = 1" "at_index yyr2 9 = 1" "at_index yyr2 10 = 3" "at_index yyr2 11 = 2"
  "at_index yyr2 12 = 3" "at_index yyr2 13 = 3" "at_index yyr2 14 = 3" "at_index yyr2 15 = 3" "at_index yyr2 16 = 3"
  "at_index yyr2 17 = 3" "at_index yyr2 18 = 3" "at_index yyr2 19 = 2" "at_index yyr2 20 = 1" "at_index yyr2 21 = 1"
  "at_index yyr2 22 = 1"
  by code_simp+

lemmas yyreduce_simps = yyreduce_def yyaction_def set_expression_def Let_def yy_lr_goto_state_table

text \<open>What reducing does to the stack, rule by rule.\<close>

lemma reduce_operand:
  "0 \<le> s \<Longrightarrow> s \<le> 34 \<Longrightarrow> yyreduce 20 (parser_at ((t, Querynode q) # (s, v) # stk) ls e) =
     Inr (Running (parser_at ((goto_table s 26, Querynode q) # (s, v) # stk) ls e))"
  "0 \<le> s \<Longrightarrow> s \<le> 34 \<Longrightarrow> yyreduce 19 (parser_at ((t, Querynode q) # x # (s, v) # stk) ls e) =
     Inr (Running (parser_at ((goto_table s 26, Querynode (Query_not q)) # (s, v) # stk) ls e))"
  "0 \<le> s \<Longrightarrow> s \<le> 34 \<Longrightarrow> yyreduce 16 (parser_at (x # (t, Querynode q) # y # (s, v) # stk) ls e) =
     Inr (Running (parser_at ((goto_table s 26, Querynode q) # (s, v) # stk) ls e))"
  "0 \<le> s \<Longrightarrow> s \<le> 34 \<Longrightarrow> yyreduce 17 (parser_at ((t, Querynode r) # x # (u, Querynode q) # (s, v) # stk) ls e) =
     Inr (Running (parser_at ((goto_table s 26, Querynode (Query_and q r)) # (s, v) # stk) ls e))"
  "0 \<le> s \<Longrightarrow> s \<le> 34 \<Longrightarrow> yyreduce 18 (parser_at ((t, Querynode r) # x # (u, Querynode q) # (s, v) # stk) ls e) =
     Inr (Running (parser_at ((goto_table s 26, Querynode (Query_or q r)) # (s, v) # stk) ls e))"
  by (simp_all add: yyreduce_simps)

lemma reduce_action:
  "0 \<le> s \<Longrightarrow> s \<le> 34 \<Longrightarrow> yyreduce 10 (parser_at ((t, StringVal a) # x # y # (s, v) # stk) ls e) =
     Inr (Running (parser_at ((7, Querynode (Query_tagged a)) # (s, v) # stk) ls e))"
  "0 \<le> s \<Longrightarrow> s \<le> 34 \<Longrightarrow> yyreduce 11 (parser_at ((t, StringVal a) # x # (s, v) # stk) ls e) =
     Inr (Running (parser_at ((7, Querynode (Query_tagged a)) # (s, v) # stk) ls e))"
  "0 \<le> s \<Longrightarrow> s \<le> 34 \<Longrightarrow> yyreduce 12 (parser_at (x # y # (t, StringVal f) # (s, v) # stk) ls e) =
     Inr (Running (parser_at ((7, Querynode (query_field_nil f)) # (s, v) # stk) ls e))"
  "0 \<le> s \<Longrightarrow> s \<le> 34 \<Longrightarrow>
     yyreduce 13 (parser_at ((t, StringVal a) # (u, StringVal op) # (w, StringVal f) # (s, v) # stk) ls e) =
     Inr (Running (parser_at ((7, Querynode (query_field_string f a op)) # (s, v) # stk) ls e))"
  "0 \<le> s \<Longrightarrow> s \<le> 34 \<Longrightarrow>
     yyreduce 14 (parser_at ((t, IntegerVal i) # (u, StringVal op) # (w, StringVal f) # (s, v) # stk) ls e) =
     Inr (Running (parser_at ((7, Querynode (query_field_int f i op)) # (s, v) # stk) ls e))"
  "0 \<le> s \<Longrightarrow> s \<le> 34 \<Longrightarrow>
     yyreduce 15 (parser_at ((t, DoubleVal d) # (u, StringVal op) # (w, StringVal f) # (s, v) # stk) ls e) =
     Inr (Running (parser_at ((7, Querynode (query_field_double f d op)) # (s, v) # stk) ls e))"
  by (simp_all add: yyreduce_simps goto_table_def)

lemma reduce_operator:
  "0 \<le> s \<Longrightarrow> s \<le> 34 \<Longrightarrow> n \<in> {4, 5, 6, 7, 8, 9} \<Longrightarrow> yyreduce n (parser_at ((t, StringVal a) # (s, v) # stk) ls e) =
     Inr (Running (parser_at ((16, StringVal a) # (s, v) # stk) ls e))"
  by (elim insertE emptyE) (simp_all add: yyreduce_simps goto_table_def)

lemma reduce_start:
  "yyreduce 2 (parser_at (x # y # z # (0, v) # stk) ls e) =
     Inr (Running (parser_at ((6, Querynode Query_true) # (0, v) # stk) ls e))"
  "yyreduce 3 (parser_at (x # (0, v) # stk) ls e) =
     Inr (Running (parser_at ((6, Querynode Query_true) # (0, v) # stk) ls e))"
  "yyreduce 21 (parser_at ((t, Querynode q) # (0, v) # stk) ls e) =
     Inr (Running (parser_at ((9, Querynode q) # (0, v) # stk) ls (Some q)))"
  "yyreduce 22 (parser_at ((t, Querynode q) # (0, v) # stk) ls e) =
     Inr (Running (parser_at ((9, Querynode q) # (0, v) # stk) ls (Some q)))"
  by (simp_all add: yyreduce_simps goto_table_def)

section \<open>Every step makes progress\<close>

definition weight :: "int \<Rightarrow> nat" where
  "weight s = (if s = 0 then 0 else if s \<in> {6, 7, 16} then 3 else if s \<in> {8, 20, 22, 33, 34} then 2
     else if s = 9 then 1 else 4)"

definition stack_weight :: "(int \<times> semantic) list \<Rightarrow> nat" where
  "stack_weight stk = (\<Sum>x\<leftarrow>stk. weight (fst x))"

lemma stack_weight_Cons [simp]: "stack_weight ((s, v) # stk) = weight s + stack_weight stk"
  by (simp add: stack_weight_def)

lemma weight_goto: "weight (goto_table s 26) = 2"
  by (simp add: weight_def goto_table_def)

text \<open>The effect of a reduction: the stack still stands for the same tokens, and weighs less.\<close>

definition reduced :: "int \<Rightarrow> (int \<times> semantic) list \<Rightarrow> lexeme list \<Rightarrow> bool" where
  "reduced n stk ts \<longleftrightarrow> (\<forall>ls e. \<exists>s v stk1 e1. yyreduce n (parser_at stk ls e) = Inr (Running (parser_at ((s, v) # stk1) ls e1))
     \<and> valid_stack ((s, v) # stk1) ts \<and> stack_weight ((s, v) # stk1) < stack_weight stk \<and> s \<noteq> 25
     \<and> (s = 9 \<longrightarrow> (\<exists>q. v = Querynode q \<and> e1 = Some q)))"

lemma reducedI:
  assumes "\<And>ls e. yyreduce n (parser_at stk ls e) = Inr (Running (parser_at ((s, v) # stk1) ls e))"
    "valid_stack ((s, v) # stk1) ts" "stack_weight ((s, v) # stk1) < stack_weight stk" "s \<notin> {9, 25}"
  shows "reduced n stk ts"
  using assms by (fastforce simp: reduced_def)

lemma weight_simps [simp]:
  "weight 1 = 4" "weight 2 = 4" "weight 3 = 4" "weight 4 = 4" "weight 5 = 4" "weight 6 = 3" "weight 7 = 3" "weight 8 = 2"
  "weight 9 = 1" "weight 10 = 4" "weight 11 = 4" "weight 12 = 4" "weight 13 = 4" "weight 14 = 4" "weight 15 = 4"
  "weight 16 = 3" "weight 17 = 4" "weight 18 = 4" "weight 19 = 4" "weight 20 = 2" "weight 21 = 4" "weight 22 = 2"
  "weight 23 = 4" "weight 24 = 4" "weight 26 = 4" "weight 27 = 4" "weight 28 = 4" "weight 29 = 4" "weight 30 = 4"
  "weight 31 = 4" "weight 32 = 4" "weight 33 = 2" "weight 34 = 2"
  by code_simp+

lemma reduced_operandI:
  assumes "\<And>ls e. 0 \<le> s \<Longrightarrow> s \<le> 34 \<Longrightarrow> yyreduce n (parser_at stk0 ls e)
      = Inr (Running (parser_at ((g, Querynode q) # (s, w) # stk) ls e))"
    "valid_stack ((s, w) # stk) ts" "s \<in> operand_states" "stack_weight ((g, Querynode q) # (s, w) # stk) < stack_weight stk0"
    "g = 7 \<and> gram_action us q \<or> g = goto_table s 26 \<and> (gram_unary us q \<or> s \<in> {0, 5, 19} \<and> gram_expr us q)"
  shows "reduced n stk0 (ts @ us)"
proof (rule reducedI)
  show "yyreduce n (parser_at stk0 ls e) = Inr (Running (parser_at ((g, Querynode q) # (s, w) # stk) ls e))" for ls e
    using assms(1) valid_stack_state [OF assms(2)] by simp
  show "valid_stack ((g, Querynode q) # (s, w) # stk) (ts @ us)"
    using assms(5) push_operand [OF assms(2,3)] by blast
  show "g \<notin> {9, 25}" using assms(5) by (auto simp: goto_table_def split: if_splits)
qed (rule assms(4))

lemma derives_simps:
  "derives 7 v us \<longleftrightarrow> (\<exists>q. v = Querynode q \<and> gram_action us q)"
  "s \<in> {8, 22} \<Longrightarrow> derives s v us \<longleftrightarrow> (\<exists>q. v = Querynode q \<and> gram_expr us q)"
  "s \<in> {20, 33, 34} \<Longrightarrow> derives s v us \<longleftrightarrow> (\<exists>q. v = Querynode q \<and> gram_unary us q)"
  "derives 16 v us \<longleftrightarrow> (\<exists>t op. v = StringVal op \<and> us = [(t, StringVal op)] \<and> is_operator t)"
  "s \<in> {6, 9} \<Longrightarrow> derives s v us \<longleftrightarrow> (\<exists>q. v = Querynode q \<and> gram_start us q)"
  by (auto simp: derives_def)

lemma derives_token:
  assumes "derives s v us"
  shows "s = 1 \<Longrightarrow> \<exists>f. v = StringVal f \<and> us = [(UNQUOTEDSTRING, StringVal f)]"
    "s = 2 \<or> s = 21 \<Longrightarrow> us = [(TRUE, v)]" "s = 3 \<Longrightarrow> us = [(TAGGED, v)]" "s = 4 \<Longrightarrow> us = [(KW_NOT, v)]"
    "s = 5 \<or> s = 19 \<Longrightarrow> us = [(CHARACTER 40, v)]"
    "s = 10 \<or> s = 18 \<Longrightarrow> \<exists>a. v = StringVal a \<and> us = [(EQUAL, StringVal a)]"
    "s \<in> {10, 11, 12, 13, 14, 15} \<Longrightarrow> \<exists>t a. v = StringVal a \<and> us = [(t, StringVal a)] \<and> is_operator t"
    "s = 17 \<or> s = 29 \<or> s = 30 \<Longrightarrow> \<exists>a. v = StringVal a \<and> us = [(STRING, StringVal a)]"
    "s = 23 \<Longrightarrow> us = [(KW_OR, v)]" "s = 24 \<Longrightarrow> us = [(KW_AND, v)]" "s = 26 \<Longrightarrow> us = [(NIL, v)]"
    "s = 27 \<Longrightarrow> \<exists>i. v = IntegerVal i \<and> us = [(INTEGER, IntegerVal i)]"
    "s = 28 \<Longrightarrow> \<exists>d. v = DoubleVal d \<and> us = [(DOUBLE, DoubleVal d)]"
    "s = 31 \<or> s = 32 \<Longrightarrow> us = [(CHARACTER 41, v)]"
proof -
  have t: "\<exists>l. us = [l] \<and> v = snd l \<and> lexeme_ok l \<and> symbol_of l = at_index yystos s"
    if "s \<notin> {6, 7, 8, 9, 16, 20, 22, 33, 34}"
    using assms that by (simp add: derives_def)
  show "s \<in> {10, 11, 12, 13, 14, 15} \<Longrightarrow> \<exists>t a. v = StringVal a \<and> us = [(t, StringVal a)] \<and> is_operator t"
    using t symbol_inversion(5) by (elim insertE emptyE) fastforce+
  show "s = 10 \<or> s = 18 \<Longrightarrow> \<exists>a. v = StringVal a \<and> us = [(EQUAL, StringVal a)]"
    using t symbol_inversion(4) by (elim disjE) fastforce+
  show "s = 17 \<or> s = 29 \<or> s = 30 \<Longrightarrow> \<exists>a. v = StringVal a \<and> us = [(STRING, StringVal a)]"
    using t symbol_inversion(3) by (elim disjE) fastforce+
qed (use assms in \<open>auto simp: derives_def dest: symbol_inversion\<close>)

lemma below_simps [simp]:
  "below 1 = operand_states" "below 2 = {0}" "below 3 = operand_states" "below 4 = operand_states" "below 5 = {0}"
  "below 6 = {0}" "below 7 = operand_states" "below 8 = {0}" "below 9 = {0}" "below 10 = {1}" "below 11 = {1}"
  "below 12 = {1}" "below 13 = {1}" "below 14 = {1}" "below 15 = {1}" "below 16 = {1}" "below 17 = {3}" "below 18 = {3}"
  "below 19 = {4, 5, 19, 23, 24}" "below 20 = {4}" "below 21 = {5}" "below 22 = {5, 19}" "below 23 = {8, 22}"
  "below 24 = {8, 22}" "below 25 = {9}" "below 26 = {10}" "below 27 = {16}" "below 28 = {16}" "below 29 = {16}"
  "below 30 = {18}" "below 31 = {21}" "below 32 = {22}" "below 33 = {23}" "below 34 = {24}"
  by (auto simp: below_def)

lemma valid_stack_pop2:
  assumes "valid_stack ((s1, v1) # stk) ts" "s1 \<noteq> 0" "0 \<notin> below s1"
  obtains s2 v2 s v stk1 ts1 us2 us1 where "stk = (s2, v2) # (s, v) # stk1" "ts = ts1 @ us2 @ us1"
    "valid_stack ((s, v) # stk1) ts1" "s2 \<in> below s1" "s \<in> below s2" "derives s1 v1 us1" "derives s2 v2 us2"
proof -
  obtain s2 v2 stk2 ts2 us1 where 1: "stk = (s2, v2) # stk2" "ts = ts2 @ us1" "valid_stack ((s2, v2) # stk2) ts2"
    "s2 \<in> below s1" "derives s1 v1 us1" using assms(1,2) by (rule valid_stack_pop)
  obtain s v stk1 ts1 us2 where 2: "stk2 = (s, v) # stk1" "ts2 = ts1 @ us2" "valid_stack ((s, v) # stk1) ts1"
    "s \<in> below s2" "derives s2 v2 us2" using 1(3) by (rule valid_stack_pop) (use 1(4) assms(3) in auto)
  from 1 2 that [of s2 v2 s v stk1 ts1 us2 us1] show thesis by simp
qed

lemma valid_stack_pop3:
  assumes "valid_stack ((s1, v1) # stk) ts" "s1 \<noteq> 0" "0 \<notin> below s1" "\<And>s. s \<in> below s1 \<Longrightarrow> 0 \<notin> below s"
  obtains s2 v2 s3 v3 s v stk1 ts1 us3 us2 us1 where "stk = (s2, v2) # (s3, v3) # (s, v) # stk1"
    "ts = ts1 @ us3 @ us2 @ us1" "valid_stack ((s, v) # stk1) ts1" "s2 \<in> below s1" "s3 \<in> below s2" "s \<in> below s3"
    "derives s1 v1 us1" "derives s2 v2 us2" "derives s3 v3 us3"
proof -
  obtain s2 v2 s3 v3 stk3 ts3 us2 us1 where 1: "stk = (s2, v2) # (s3, v3) # stk3" "ts = ts3 @ us2 @ us1"
    "valid_stack ((s3, v3) # stk3) ts3" "s2 \<in> below s1" "s3 \<in> below s2" "derives s1 v1 us1" "derives s2 v2 us2"
    using assms(1,2,3) by (rule valid_stack_pop2)
  obtain s v stk1 ts1 us3 where 2: "stk3 = (s, v) # stk1" "ts3 = ts1 @ us3" "valid_stack ((s, v) # stk1) ts1"
    "s \<in> below s3" "derives s3 v3 us3" using 1(3) by (rule valid_stack_pop) (use 1(4,5) assms(4) in auto)
  from 1 2 that [of s2 v2 s3 v3 s v stk1 ts1 us3 us2 us1] show thesis by simp
qed

lemma reduced_unary_rules:
  "valid_stack ((7, v) # stk) ts \<Longrightarrow> reduced 20 ((7, v) # stk) ts"
  "valid_stack ((20, v) # stk) ts \<Longrightarrow> reduced 19 ((20, v) # stk) ts"
  "valid_stack ((32, v) # stk) ts \<Longrightarrow> reduced 16 ((32, v) # stk) ts"
proof -
  assume v: "valid_stack ((7, v) # stk) ts"
  obtain s w stk1 ts1 us where 1: "stk = (s, w) # stk1" "ts = ts1 @ us" "valid_stack ((s, w) # stk1) ts1"
    "s \<in> operand_states" "derives 7 v us" using v by (rule valid_stack_pop) simp_all
  from 1(5) obtain q where q: "v = Querynode q" "gram_action us q" by (auto simp: derives_simps)
  show "reduced 20 ((7, v) # stk) ts"
    unfolding 1 q(1) by (rule reduced_operandI [OF reduce_operand(1) 1(3,4)]) (use q in \<open>auto simp: weight_goto intro: action\<close>)
next
  assume v: "valid_stack ((20, v) # stk) ts"
  obtain w s x stk1 ts1 ws us where 1: "stk = (4, w) # (s, x) # stk1" "ts = ts1 @ ws @ us"
    "valid_stack ((s, x) # stk1) ts1" "s \<in> operand_states" "derives 20 v us" "derives 4 w ws"
    using v by (rule valid_stack_pop2) simp_all
  from 1(5) obtain q where q: "v = Querynode q" "gram_unary us q" by (auto simp: derives_simps)
  show "reduced 19 ((20, v) # stk) ts"
    unfolding 1 q(1)
    by (rule reduced_operandI [OF reduce_operand(2) 1(3,4)])
       (use q derives_token(4) [OF 1(6)] in \<open>auto simp: weight_goto intro: neg\<close>)
next
  assume v: "valid_stack ((32, v) # stk) ts"
  obtain w s x s1 y stk1 ts1 xs ws us where 1: "stk = (22, w) # (s, x) # (s1, y) # stk1" "ts = ts1 @ xs @ ws @ us"
    "valid_stack ((s1, y) # stk1) ts1" "s \<in> {5, 19}" "s1 \<in> below s" "derives 32 v us" "derives 22 w ws" "derives s x xs"
    using v by (rule valid_stack_pop3) simp_all
  from 1(7) obtain q where q: "w = Querynode q" "gram_expr ws q" by (auto simp: derives_simps)
  have s1: "s1 \<in> operand_states" using 1(4,5) by auto
  show "reduced 16 ((32, v) # stk) ts"
    unfolding 1(1,2) q(1)
    by (rule reduced_operandI [OF reduce_operand(3) 1(3) s1])
       (use q derives_token(14) [OF 1(6)] derives_token(5) [OF 1(8)] 1(4) in \<open>auto simp: weight_goto intro: paren\<close>)
qed

lemma reduced_expr_rules:
  "valid_stack ((34, v) # stk) ts \<Longrightarrow> reduced 17 ((34, v) # stk) ts"
  "valid_stack ((33, v) # stk) ts \<Longrightarrow> reduced 18 ((33, v) # stk) ts"
proof -
  assume v: "valid_stack ((34, v) # stk) ts"
  obtain w s x s1 y stk1 ts1 xs ws us where 1: "stk = (24, w) # (s, x) # (s1, y) # stk1" "ts = ts1 @ xs @ ws @ us"
    "valid_stack ((s1, y) # stk1) ts1" "s \<in> {8, 22}" "s1 \<in> below s" "derives 34 v us" "derives 24 w ws" "derives s x xs"
    using v by (rule valid_stack_pop3) auto
  from 1(4,6,8) obtain q r where q: "v = Querynode r" "gram_unary us r" "x = Querynode q" "gram_expr xs q"
    by (auto simp: derives_simps)
  have s1: "s1 \<in> operand_states" "s1 \<in> {0, 5, 19}" using 1(4,5) by auto
  show "reduced 17 ((34, v) # stk) ts"
    unfolding 1(1,2) q(1,3)
    by (rule reduced_operandI [OF reduce_operand(4) 1(3) s1(1)])
       (use q derives_token(10) [OF 1(7)] 1(4) s1(2) in \<open>auto simp: weight_goto intro: conj\<close>)
next
  assume v: "valid_stack ((33, v) # stk) ts"
  obtain w s x s1 y stk1 ts1 xs ws us where 1: "stk = (23, w) # (s, x) # (s1, y) # stk1" "ts = ts1 @ xs @ ws @ us"
    "valid_stack ((s1, y) # stk1) ts1" "s \<in> {8, 22}" "s1 \<in> below s" "derives 33 v us" "derives 23 w ws" "derives s x xs"
    using v by (rule valid_stack_pop3) auto
  from 1(4,6,8) obtain q r where q: "v = Querynode r" "gram_unary us r" "x = Querynode q" "gram_expr xs q"
    by (auto simp: derives_simps)
  have s1: "s1 \<in> operand_states" "s1 \<in> {0, 5, 19}" using 1(4,5) by auto
  show "reduced 18 ((33, v) # stk) ts"
    unfolding 1(1,2) q(1,3)
    by (rule reduced_operandI [OF reduce_operand(5) 1(3) s1(1)])
       (use q derives_token(9) [OF 1(7)] 1(4) s1(2) in \<open>auto simp: weight_goto intro: disj\<close>)
qed

lemma reduced_tagged_rules:
  "valid_stack ((17, v) # stk) ts \<Longrightarrow> reduced 11 ((17, v) # stk) ts"
  "valid_stack ((30, v) # stk) ts \<Longrightarrow> reduced 10 ((30, v) # stk) ts"
proof -
  assume v: "valid_stack ((17, v) # stk) ts"
  obtain w s x stk1 ts1 ws us where 1: "stk = (3, w) # (s, x) # stk1" "ts = ts1 @ ws @ us"
    "valid_stack ((s, x) # stk1) ts1" "s \<in> operand_states" "derives 17 v us" "derives 3 w ws"
    using v by (rule valid_stack_pop2) simp_all
  from derives_token(8) [OF 1(5)] obtain a where a: "v = StringVal a" "us = [(STRING, StringVal a)]" by auto
  show "reduced 11 ((17, v) # stk) ts"
    unfolding 1 a(1)
    by (rule reduced_operandI [OF reduce_action(2) 1(3,4)]) (use a derives_token(3) [OF 1(6)] in \<open>auto intro: tagged\<close>)
next
  assume v: "valid_stack ((30, v) # stk) ts"
  obtain w x s y stk1 ts1 xs ws us where 1: "stk = (18, w) # (3, x) # (s, y) # stk1" "ts = ts1 @ xs @ ws @ us"
    "valid_stack ((s, y) # stk1) ts1" "s \<in> operand_states" "derives 30 v us" "derives 18 w ws" "derives 3 x xs"
    using v by (rule valid_stack_pop3) auto
  from derives_token(8) [OF 1(5)] derives_token(6) [OF 1(6)]
  obtain a b where a: "v = StringVal a" "us = [(STRING, StringVal a)]" "ws = [(EQUAL, StringVal b)]" by auto
  show "reduced 10 ((30, v) # stk) ts"
    unfolding 1 a(1)
    by (rule reduced_operandI [OF reduce_action(1) 1(3,4)])
       (use a derives_token(3) [OF 1(7)] in \<open>auto intro: tagged_equal\<close>)
qed

lemma field_stack:
  assumes "valid_stack ((n, v) # stk) ts" "n \<in> {27, 28, 29}"
  obtains op f s y stk1 ts1 t us where "stk = (16, StringVal op) # (1, StringVal f) # (s, y) # stk1"
    "ts = ts1 @ [(UNQUOTEDSTRING, StringVal f), (t, StringVal op)] @ us" "valid_stack ((s, y) # stk1) ts1"
    "s \<in> operand_states" "derives n v us" "is_operator t"
proof -
  obtain w x s y stk1 ts1 xs ws us where 1: "stk = (16, w) # (1, x) # (s, y) # stk1" "ts = ts1 @ xs @ ws @ us"
    "valid_stack ((s, y) # stk1) ts1" "s \<in> operand_states" "derives n v us" "derives 16 w ws" "derives 1 x xs"
    using assms(1) by (rule valid_stack_pop3) (use assms(2) in auto)
  from derives_token(1) [OF 1(7)] obtain f where f: "x = StringVal f" "xs = [(UNQUOTEDSTRING, StringVal f)]" by auto
  from 1(6) obtain t op where "w = StringVal op" "ws = [(t, StringVal op)]" "is_operator t" by (auto simp: derives_simps)
  with f 1 that [of op f s y stk1 ts1 t us] show thesis by simp
qed

lemma reduced_field_rules:
  "valid_stack ((26, v) # stk) ts \<Longrightarrow> reduced 12 ((26, v) # stk) ts"
  "valid_stack ((29, v) # stk) ts \<Longrightarrow> reduced 13 ((29, v) # stk) ts"
  "valid_stack ((27, v) # stk) ts \<Longrightarrow> reduced 14 ((27, v) # stk) ts"
  "valid_stack ((28, v) # stk) ts \<Longrightarrow> reduced 15 ((28, v) # stk) ts"
proof -
  assume v: "valid_stack ((26, v) # stk) ts"
  obtain w x s y stk1 ts1 xs ws us where 1: "stk = (10, w) # (1, x) # (s, y) # stk1" "ts = ts1 @ xs @ ws @ us"
    "valid_stack ((s, y) # stk1) ts1" "s \<in> operand_states" "derives 26 v us" "derives 10 w ws" "derives 1 x xs"
    using v by (rule valid_stack_pop3) auto
  from derives_token(6) [OF 1(6)] derives_token(1) [OF 1(7)]
  obtain b f where a: "ws = [(EQUAL, StringVal b)]" "x = StringVal f" "xs = [(UNQUOTEDSTRING, StringVal f)]" by auto
  show "reduced 12 ((26, v) # stk) ts"
    unfolding 1 a(2)
    by (rule reduced_operandI [OF reduce_action(3) 1(3,4)])
       (use a derives_token(11) [OF 1(5)] in \<open>auto intro: nil\<close>)
next
  assume v: "valid_stack ((29, v) # stk) ts"
  obtain op f s y stk1 ts1 t us where 1: "stk = (16, StringVal op) # (1, StringVal f) # (s, y) # stk1"
    "ts = ts1 @ [(UNQUOTEDSTRING, StringVal f), (t, StringVal op)] @ us" "valid_stack ((s, y) # stk1) ts1"
    "s \<in> operand_states" "derives 29 v us" "is_operator t" using v by (rule field_stack) simp_all
  from derives_token(8) [OF 1(5)] obtain a where a: "v = StringVal a" "us = [(STRING, StringVal a)]" by auto
  show "reduced 13 ((29, v) # stk) ts"
    unfolding 1 a(1)
    by (rule reduced_operandI [OF reduce_action(4) 1(3,4)]) (use a 1(6) in \<open>auto intro: string\<close>)
next
  assume v: "valid_stack ((27, v) # stk) ts"
  obtain op f s y stk1 ts1 t us where 1: "stk = (16, StringVal op) # (1, StringVal f) # (s, y) # stk1"
    "ts = ts1 @ [(UNQUOTEDSTRING, StringVal f), (t, StringVal op)] @ us" "valid_stack ((s, y) # stk1) ts1"
    "s \<in> operand_states" "derives 27 v us" "is_operator t" using v by (rule field_stack) simp_all
  from derives_token(12) [OF 1(5)] obtain a where a: "v = IntegerVal a" "us = [(INTEGER, IntegerVal a)]" by auto
  show "reduced 14 ((27, v) # stk) ts"
    unfolding 1 a(1)
    by (rule reduced_operandI [OF reduce_action(5) 1(3,4)]) (use a 1(6) in \<open>auto intro: integer\<close>)
next
  assume v: "valid_stack ((28, v) # stk) ts"
  obtain op f s y stk1 ts1 t us where 1: "stk = (16, StringVal op) # (1, StringVal f) # (s, y) # stk1"
    "ts = ts1 @ [(UNQUOTEDSTRING, StringVal f), (t, StringVal op)] @ us" "valid_stack ((s, y) # stk1) ts1"
    "s \<in> operand_states" "derives 28 v us" "is_operator t" using v by (rule field_stack) simp_all
  from derives_token(13) [OF 1(5)] obtain a where a: "v = DoubleVal a" "us = [(DOUBLE, DoubleVal a)]" by auto
  show "reduced 15 ((28, v) # stk) ts"
    unfolding 1 a(1)
    by (rule reduced_operandI [OF reduce_action(6) 1(3,4)]) (use a 1(6) in \<open>auto intro: double\<close>)
qed

lemma reduced_operator_rules:
  assumes "valid_stack ((s, v) # stk) ts" "s \<in> {10, 11, 12, 13, 14, 15}" "n \<in> {4, 5, 6, 7, 8, 9}"
  shows "reduced n ((s, v) # stk) ts"
proof -
  obtain w stk1 ts1 us where 1: "stk = (1, w) # stk1" "ts = ts1 @ us" "valid_stack ((1, w) # stk1) ts1" "derives s v us"
    using assms(1) by (rule valid_stack_pop) (use assms(2) in auto)
  from derives_token(7) [OF 1(4) assms(2)] obtain t a where a: "v = StringVal a" "us = [(t, StringVal a)]" "is_operator t"
    by auto
  show ?thesis
    unfolding 1 a(1)
  proof (rule reducedI)
    show "yyreduce n (parser_at ((s, StringVal a) # (1, w) # stk1) ls e) =
        Inr (Running (parser_at ((16, StringVal a) # (1, w) # stk1) ls e))" for ls e
      by (rule reduce_operator) (use assms(3) in auto)
    show "valid_stack ((16, StringVal a) # (1, w) # stk1) (ts1 @ us)"
      by (rule valid_stack.push [OF 1(3)]) (use a in \<open>auto simp: derives_simps\<close>)
  qed (use assms(2) in auto)
qed

lemma reduced_start_rules:
  "valid_stack ((2, v) # stk) ts \<Longrightarrow> reduced 3 ((2, v) # stk) ts"
  "valid_stack ((31, v) # stk) ts \<Longrightarrow> reduced 2 ((31, v) # stk) ts"
  "valid_stack ((6, v) # stk) ts \<Longrightarrow> reduced 21 ((6, v) # stk) ts"
  "valid_stack ((8, v) # stk) ts \<Longrightarrow> reduced 22 ((8, v) # stk) ts"
proof -
  assume v: "valid_stack ((2, v) # stk) ts"
  obtain w stk1 ts1 us where 1: "stk = (0, w) # stk1" "ts = ts1 @ us" "valid_stack ((0, w) # stk1) ts1" "derives 2 v us"
    using v by (rule valid_stack_pop) simp_all
  have "valid_stack ((6, Querynode Query_true) # (0, w) # stk1) (ts1 @ us)"
    by (rule valid_stack.push [OF 1(3)]) (use derives_token(2) [OF 1(4)] in \<open>auto simp: derives_simps intro: all\<close>)
  with 1 show "reduced 3 ((2, v) # stk) ts" by (auto intro: reducedI [OF reduce_start(2)])
next
  assume v: "valid_stack ((31, v) # stk) ts"
  obtain w x y stk1 ts1 xs ws us where 1: "stk = (21, w) # (5, x) # (0, y) # stk1" "ts = ts1 @ xs @ ws @ us"
    "valid_stack ((0, y) # stk1) ts1" "derives 31 v us" "derives 21 w ws" "derives 5 x xs"
    using v by (rule valid_stack_pop3) auto
  have "valid_stack ((6, Querynode Query_true) # (0, y) # stk1) (ts1 @ xs @ ws @ us)"
    by (rule valid_stack.push [OF 1(3)])
       (use derives_token(14) [OF 1(4)] derives_token(2) [OF 1(5)] derives_token(5) [OF 1(6)] in
          \<open>auto simp: derives_simps intro: all_paren\<close>)
  with 1 show "reduced 2 ((31, v) # stk) ts" by (auto intro: reducedI [OF reduce_start(1)])
next
  have start: "\<exists>q w stk1. v = Querynode q \<and> stk = (0, w) # stk1 \<and> valid_stack ((9, Querynode q) # (0, w) # stk1) ts"
    if v: "valid_stack ((s, v) # stk) ts" and s: "s \<in> {6, 8}" for s
  proof -
    obtain w stk1 ts1 us where 1: "stk = (0, w) # stk1" "ts = ts1 @ us" "valid_stack ((0, w) # stk1) ts1" "derives s v us"
      using v by (rule valid_stack_pop) (use s in auto)
    from 1(4) s obtain q where q: "v = Querynode q" "gram_start us q \<or> gram_expr us q" by (auto simp: derives_simps)
    have "gram_start us q" using q(2) by (auto intro: gram_start.intros)
    with 1 q(1) show ?thesis by (auto simp: derives_simps intro!: valid_stack.push)
  qed
  show "valid_stack ((6, v) # stk) ts \<Longrightarrow> reduced 21 ((6, v) # stk) ts"
    using start [of 6] by (auto simp: reduced_def reduce_start)
  show "valid_stack ((8, v) # stk) ts \<Longrightarrow> reduced 22 ((8, v) # stk) ts"
    using start [of 8] by (auto simp: reduced_def reduce_start)
qed

lemma lr_table_shift_simps:
  "lr_table 0 y = (if y = 14 then 2 else if y = 20 then 5 else operand_table y)"
  "lr_table 1 y = (if 7 \<le> y \<and> y \<le> 12 then y + 3 else 0)"
  "lr_table 3 y = (if y = 6 then 17 else if y = 7 then 18 else 0)"
  "lr_table 4 y = operand_table y" "lr_table 19 y = operand_table y" "lr_table 23 y = operand_table y"
  "lr_table 24 y = operand_table y" "lr_table 5 y = (if y = 14 then 21 else operand_table y)"
  "lr_table 9 y = (if y = 0 then 25 else 0)"
  "lr_table 16 y = (if y = 4 then 27 else if y = 5 then 28 else if y = 6 then 29 else 0)"
  "lr_table 18 y = (if y = 6 then 30 else 0)" "lr_table 21 y = (if y = 21 then 31 else 0)"
  "lr_table 22 y = (if y = 17 then 23 else if y = 18 then 24 else if y = 21 then 32 else 0)"
  by (simp_all add: lr_table_def)

lemma lr_table_reduce_simps:
  "lr_table 2 y = - 3" "lr_table 6 y = - 21" "lr_table 7 y = - 20"
  "lr_table 8 y = (if y = 17 then 23 else if y = 18 then 24 else - 22)"
  "lr_table 10 y = (if y = 16 then 26 else - 4)" "lr_table 11 y = - 6" "lr_table 12 y = - 7" "lr_table 13 y = - 8"
  "lr_table 14 y = - 9" "lr_table 15 y = - 5" "lr_table 17 y = - 11" "lr_table 20 y = - 19" "lr_table 26 y = - 12"
  "lr_table 27 y = - 14" "lr_table 28 y = - 15" "lr_table 29 y = - 13" "lr_table 30 y = - 10" "lr_table 31 y = - 2"
  "lr_table 32 y = - 16" "lr_table 33 y = - 18" "lr_table 34 y = - 17"
  by (simp_all add: lr_table_def)

lemma reduced_by_table:
  assumes "valid_stack ((s, v) # stk) ts" "lr_table s y < 0" "s \<noteq> 25"
  shows "reduced (- lr_table s y) ((s, v) # stk) ts"
proof -
  have "s \<in> set [0..34]" using valid_stack_state [OF assms(1)] by simp
  then consider "s \<in> {0, 1, 3, 4, 5, 9, 16, 18, 19, 21, 22, 23, 24, 25}" | "s \<in> {2, 6, 8, 31}"
    | "s \<in> {10, 11, 12, 13, 14, 15}" | "s \<in> {7, 20, 32, 33, 34}" | "s \<in> {17, 26, 27, 28, 29, 30}"
    by (simp add: upto_rec1) blast
  then show ?thesis
  proof cases
    case 1
    then have "0 \<le> lr_table s y \<or> s = 25"
      by (elim insertE emptyE) (simp_all add: lr_table_shift_simps operand_table_def)
    with assms(2,3) show ?thesis by simp
  next
    case 2
    with assms(1,2) reduced_start_rules show ?thesis
      by (elim insertE emptyE) (simp_all add: lr_table_reduce_simps split: if_splits)
  next
    case 3
    with assms(2) have "- lr_table s y \<in> {4, 5, 6, 7, 8, 9}"
      by (elim insertE emptyE) (simp_all add: lr_table_reduce_simps split: if_splits)
    with 3 assms(1) show ?thesis by (intro reduced_operator_rules)
  next
    case 4
    with assms(1) reduced_unary_rules reduced_expr_rules show ?thesis
      by (elim insertE emptyE) (simp_all add: lr_table_reduce_simps)
  next
    case 5
    with assms(1) reduced_tagged_rules reduced_field_rules show ?thesis
      by (elim insertE emptyE) (simp_all add: lr_table_reduce_simps)
  qed
qed

section \<open>The parser accepts only what the grammar derives\<close>

text \<open>A query is read up to the end of the input, or up to a character that the parser takes for it.\<close>

definition accepted :: "lexeme list \<Rightarrow> query_node \<Rightarrow> bool" where
  "accepted ls q \<longleftrightarrow> (\<exists>ts rest. ls = ts @ rest \<and> gram_start ts q \<and> symbol_of (lookahead rest) = 0)"

lemma yyerrlab_aborts:
  "valid_stack stk ts \<Longrightarrow> yyerrlab (parser_at stk ls e) = Finished 1 (parser_at stk ls e)"
  using yyerrlab1_none [OF valid_stack_states] by (simp add: yyerrlab_def Let_def)

lemma final_stack:
  assumes "valid_stack ((9, v) # stk) ts"
  shows "\<exists>q. v = Querynode q \<and> gram_start ts q"
proof -
  obtain w stk1 ts1 us where 1: "stk = (0, w) # stk1" "ts = ts1 @ us" "valid_stack ((0, w) # stk1) ts1" "derives 9 v us"
    using assms by (rule valid_stack_pop) simp_all
  have "ts1 = []" using 1(3) by (rule valid_stackE) (auto simp: below_def)
  with 1 show ?thesis by (simp add: derives_simps)
qed

lemma shift_cases_all:
  "list_all (\<lambda>s. list_all (\<lambda>y. s = 25 \<or> lr_table s y \<le> 0 \<or> (y = 0 \<longleftrightarrow> s = 9)
    \<and> (lr_table s y = 25 \<longleftrightarrow> s = 9) \<and> lr_table s y \<noteq> 9 \<and> weight (lr_table s y) = 4) [0..21]) [0..34]"
  by code_simp

lemma shift_cases:
  assumes "valid_stack ((s, v) # stk) ts" "s \<noteq> 25" "0 < lr_table s (symbol_of l)"
  shows "(symbol_of l = 0 \<longleftrightarrow> s = 9) \<and> (lr_table s (symbol_of l) = 25 \<longleftrightarrow> s = 9) \<and> lr_table s (symbol_of l) \<noteq> 9
    \<and> weight (lr_table s (symbol_of l)) = 4"
proof -
  have "s \<in> {0..34}" "symbol_of l \<in> {0..21}" using valid_stack_state [OF assms(1)] symbol_range by simp_all
  with shift_cases_all assms(2,3) show ?thesis unfolding list_all_iff set_upto by (metis not_less)
qed

lemma yyloop_sound:
  assumes "valid_stack ((s, v) # stk) ts" "s \<noteq> 25" "s = 9 \<Longrightarrow> \<exists>q. v = Querynode q \<and> e = Some q" "list_all lexeme_ok ls"
  shows "\<exists>r p. yyloop (parser_at ((s, v) # stk) ls e) = Some (Inr (r, p))
    \<and> (r = 1 \<or> r = 0 \<and> (\<exists>q. expression p = Some q \<and> accepted (ts @ ls) q))"
  using assms
proof (induction "5 * length ls + stack_weight ((s, v) # stk)" arbitrary: s v stk ts ls e rule: less_induct)
  case less
  let ?p = "parser_at ((s, v) # stk) ls e" and ?y = "symbol_of (lookahead ls)"
  have "0 \<le> s" "s \<le> 34" using valid_stack_state [OF less.prems(1)] by simp_all
  note decision = yynewstate_decision [OF this less.prems(2) refl, where ls = ls and v = v and stk = stk and e = e]
  consider "lr_table s ?y = 0" | "lr_table s ?y < 0" | "0 < lr_table s ?y" "s = 9" | "0 < lr_table s ?y" "s \<noteq> 9"
    by linarith
  then show ?case
  proof cases
    case 1
    then have "yynewstate ?p = Inr (Finished 1 ?p)" using decision yyerrlab_aborts [OF less.prems(1)] by simp
    then show ?thesis by (subst yyloop.simps) simp
  next
    case 2
    from reduced_by_table [OF less.prems(1) 2 less.prems(2)] obtain s1 v1 stk1 e1 where
      r: "yyreduce (- lr_table s ?y) ?p = Inr (Running (parser_at ((s1, v1) # stk1) ls e1))"
        "valid_stack ((s1, v1) # stk1) ts" "stack_weight ((s1, v1) # stk1) < stack_weight ((s, v) # stk)"
        "s1 \<noteq> 25" "s1 = 9 \<longrightarrow> (\<exists>q. v1 = Querynode q \<and> e1 = Some q)"
      unfolding reduced_def by blast
    then have "yyloop ?p = yyloop (parser_at ((s1, v1) # stk1) ls e1)"
      using decision 2 by (subst yyloop.simps) simp
    with less.hyps [OF _ r(2,4)] r(3,5) less.prems(4) show ?thesis by auto
  next
    case 3
    obtain q where q: "v = Querynode q" "e = Some q" "gram_start ts q"
      using final_stack less.prems(1,3) 3(2) by blast
    let ?p1 = "parser_at ((25, snd (lookahead ls)) # (s, v) # stk) (tl ls) e"
    have "?y = 0" "lr_table s ?y = 25" using shift_cases [OF less.prems(1,2) 3(1)] 3(2) by auto
    then have "yynewstate ?p = Inr (Running ?p1)" using decision by simp
    moreover have "yynewstate ?p1 = Inr (Finished 0 ?p1)" by (simp add: yynewstate_def yystate_of_def yyfinal_def)
    ultimately have "yyloop ?p = Some (Inr (0, ?p1))" by (simp add: yyloop.simps)
    moreover have "accepted (ts @ ls) q" using q(3) \<open>?y = 0\<close> by (auto simp: accepted_def)
    ultimately show ?thesis using q(2) by auto
  next
    case 4
    note sc = shift_cases [OF less.prems(1,2) 4(1)]
    from sc 4(2) have "ls \<noteq> []" by auto
    then obtain l ls1 where ls: "ls = l # ls1" by (cases ls) auto
    let ?d = "lr_table s (symbol_of l)"
    have v: "valid_stack ((?d, snd l) # (s, v) # stk) (ts @ [l])"
      using valid_stack_shift [OF less.prems(1,2), of l] 4(1) less.prems(4) by (simp add: ls)
    have "yyloop ?p = yyloop (parser_at ((?d, snd l) # (s, v) # stk) ls1 e)"
      using decision 4(1) by (subst yyloop.simps) (simp add: ls)
    with less.hyps [OF _ v] sc 4(2) less.prems(4) show ?thesis by (simp add: ls)
  qed
qed

section \<open>The parser accepts all that the grammar derives\<close>

lemma run_shift:
  assumes "lr_table s (symbol_of l) = d" "0 < d" "0 \<le> s" "s \<le> 34" "s \<noteq> 25"
  shows "yyloop (parser_at ((s, v) # stk) (l # ls) e) = yyloop (parser_at ((d, snd l) # (s, v) # stk) ls e)"
  by (subst yyloop.simps) (use yynewstate_decision [OF assms(3-5), of "l # ls" d v stk e] assms(1,2) in simp)

lemma run_reduce:
  assumes "yyreduce n (parser_at ((s, v) # stk) ls e) = Inr (Running p)" "lr_table s (symbol_of (lookahead ls)) = - n"
    "0 < n" "0 \<le> s" "s \<le> 34" "s \<noteq> 25"
  shows "yyloop (parser_at ((s, v) # stk) ls e) = yyloop p"
  by (subst yyloop.simps) (use yynewstate_decision [OF assms(4-6,2), of v stk e] assms(1,3) in simp)

lemmas lr_simps = lr_table_shift_simps lr_table_reduce_simps operand_table_def

lemma operand_state_range: "s \<in> operand_states \<Longrightarrow> 0 \<le> s \<and> s \<le> 34 \<and> s \<noteq> 25"
  by auto

lemma operand_state_shifts:
  "s \<in> operand_states \<Longrightarrow> lr_table s 13 = 1" "s \<in> operand_states \<Longrightarrow> lr_table s 15 = 3"
  "s \<in> operand_states \<Longrightarrow> lr_table s 19 = 4" "s \<in> operand_states \<Longrightarrow> lr_table s 20 = (if s = 0 then 5 else 19)"
  by (elim insertE emptyE; simp add: lr_simps)+

lemma operator_symbol:
  "is_operator t \<Longrightarrow> 7 \<le> symbol_of (t, v) \<and> symbol_of (t, v) \<le> 12"
  by (auto simp: is_operator_def)

lemma run_operator:
  assumes "is_operator t" "symbol_of (lookahead ls) \<noteq> 16"
  shows "yyloop (parser_at ((1, v) # stk) ((t, StringVal op) # ls) e) = yyloop (parser_at ((16, StringVal op) # (1, v) # stk) ls e)"
proof -
  let ?y = "symbol_of (t, StringVal op)"
  have y: "7 \<le> ?y" "?y \<le> 12" using operator_symbol [OF assms(1)] by auto
  have 1: "yyloop (parser_at ((1, v) # stk) ((t, StringVal op) # ls) e)
      = yyloop (parser_at ((?y + 3, StringVal op) # (1, v) # stk) ls e)"
    using run_shift [of 1 "(t, StringVal op)" "?y + 3" v stk ls e] y by (simp add: lr_simps)
  have "?y \<in> {7, 8, 9, 10, 11, 12}" using assms(1) by (auto simp: is_operator_def)
  then obtain n where n: "n \<in> {4, 5, 6, 7, 8, 9}" "lr_table (?y + 3) (symbol_of (lookahead ls)) = - n"
    using assms(2) by (elim insertE emptyE) (simp_all add: lr_simps)
  have "yyloop (parser_at ((?y + 3, StringVal op) # (1, v) # stk) ls e)
      = yyloop (parser_at ((16, StringVal op) # (1, v) # stk) ls e)"
    by (rule run_reduce [OF reduce_operator n(2)]) (use n y in auto)
  with 1 show ?thesis by simp
qed

lemma run_action:
  assumes "gram_action ts q" "s \<in> operand_states"
  shows "yyloop (parser_at ((s, v) # stk) (ts @ ls) e) = yyloop (parser_at ((7, Querynode q) # (s, v) # stk) ls e)"
  using assms(1)
proof cases
  case (tagged_equal u w a)
  then show ?thesis
    using operand_state_range [OF assms(2)] operand_state_shifts(2) [OF assms(2)]
    by (simp add: run_shift [where d = 3] run_shift [where d = 18] run_shift [where d = 30] lr_simps
        run_reduce [OF reduce_action(1)])
next
  case (tagged u a)
  then show ?thesis
    using operand_state_range [OF assms(2)] operand_state_shifts(2) [OF assms(2)]
    by (simp add: run_shift [where d = 3] run_shift [where d = 17] lr_simps run_reduce [OF reduce_action(2)])
next
  case (nil f u w)
  then show ?thesis
    using operand_state_range [OF assms(2)] operand_state_shifts(1) [OF assms(2)]
    by (simp add: run_shift [where d = 1] run_shift [where d = 10] run_shift [where d = 26] lr_simps
        run_reduce [OF reduce_action(3)])
next
  case (string t f op a)
  then show ?thesis
    using operand_state_range [OF assms(2)] operand_state_shifts(1) [OF assms(2)]
    by (simp add: run_shift [where d = 1] run_operator run_shift [where d = 29] lr_simps run_reduce [OF reduce_action(4)])
next
  case (integer t f op a)
  then show ?thesis
    using operand_state_range [OF assms(2)] operand_state_shifts(1) [OF assms(2)]
    by (simp add: run_shift [where d = 1] run_operator run_shift [where d = 27] lr_simps run_reduce [OF reduce_action(5)])
next
  case (double t f op a)
  then show ?thesis
    using operand_state_range [OF assms(2)] operand_state_shifts(1) [OF assms(2)]
    by (simp add: run_shift [where d = 1] run_operator run_shift [where d = 28] lr_simps run_reduce [OF reduce_action(6)])
qed

lemma run_operand:
  "gram_unary ts q \<Longrightarrow> s \<in> operand_states \<Longrightarrow> yyloop (parser_at ((s, v) # stk) (ts @ ls) e)
     = yyloop (parser_at ((goto_table s 26, Querynode q) # (s, v) # stk) ls e)"
  "gram_expr ts q \<Longrightarrow> s \<in> {0, 5, 19} \<Longrightarrow> yyloop (parser_at ((s, v) # stk) (ts @ ls) e)
     = yyloop (parser_at ((goto_table s 26, Querynode q) # (s, v) # stk) ls e)"
proof (induction arbitrary: s v stk ls and s v stk ls rule: gram_unary_gram_expr.inducts)
  case (action ts q)
  then show ?case
    using operand_state_range [OF action(2)]
    by (simp add: run_action run_reduce [OF reduce_operand(1)] lr_simps)
next
  case (neg ts q u)
  then show ?case
    using operand_state_range [OF neg(3)] operand_state_shifts(3) [OF neg(3)]
    by (simp add: run_shift [where d = 4] goto_table_def [of 4] run_reduce [OF reduce_operand(2)] lr_simps)
next
  case (paren ts q u w)
  let ?d = "if s = 0 then 5 else 19"
  have d: "?d \<in> {0, 5, 19}" "goto_table ?d 26 = 22" by (simp_all add: goto_table_def)
  have "yyloop (parser_at ((s, v) # stk) (((CHARACTER 40, u) # ts @ [(CHARACTER 41, w)]) @ ls) e)
      = yyloop (parser_at ((22, Querynode q) # (?d, u) # (s, v) # stk) ((CHARACTER 41, w) # ls) e)"
    using operand_state_range [OF paren(3)] operand_state_shifts(4) [OF paren(3)] paren(2) [OF d(1)] d(2)
    by (simp add: run_shift [where d = ?d] symbol_character)
  also have "\<dots> = yyloop (parser_at ((goto_table s 26, Querynode q) # (s, v) # stk) ls e)"
    using operand_state_range [OF paren(3)]
    by (simp add: run_shift [where d = 32] symbol_character run_reduce [OF reduce_operand(3)] lr_simps)
  finally show ?case .
next
  case (unary ts q)
  then show ?case by auto
next
  case (conj ts q us r u)
  let ?g = "goto_table s 26"
  have g: "?g \<in> {8, 22}" using conj(5) by (auto simp: goto_table_def)
  have "yyloop (parser_at ((s, v) # stk) ((ts @ (KW_AND, u) # us) @ ls) e)
      = yyloop (parser_at ((34, Querynode r) # (24, u) # (?g, Querynode q) # (s, v) # stk) ls e)"
    using g conj(3) [OF conj(5)] conj(4) [of 24]
    by (auto simp: run_shift [where d = 24] lr_simps goto_table_def [of 24])
  also have "\<dots> = yyloop (parser_at ((?g, Querynode (Query_and q r)) # (s, v) # stk) ls e)"
    using conj(5) by (auto simp: run_reduce [OF reduce_operand(4)] lr_simps)
  finally show ?case .
next
  case (disj ts q us r u)
  let ?g = "goto_table s 26"
  have g: "?g \<in> {8, 22}" using disj(5) by (auto simp: goto_table_def)
  have "yyloop (parser_at ((s, v) # stk) ((ts @ (KW_OR, u) # us) @ ls) e)
      = yyloop (parser_at ((33, Querynode r) # (23, u) # (?g, Querynode q) # (s, v) # stk) ls e)"
    using g disj(3) [OF disj(5)] disj(4) [of 23]
    by (auto simp: run_shift [where d = 23] lr_simps goto_table_def [of 23])
  also have "\<dots> = yyloop (parser_at ((?g, Querynode (Query_or q r)) # (s, v) # stk) ls e)"
    using disj(5) by (auto simp: run_reduce [OF reduce_operand(5)] lr_simps)
  finally show ?case .
qed

lemma run_end:
  assumes "s \<in> {6, 8}" "symbol_of (lookahead ls) = 0"
  shows "\<exists>p. yyloop (parser_at [(s, Querynode q), (0, v)] ls e) = Some (Inr (0, p)) \<and> expression p = Some q"
proof -
  let ?p = "parser_at [(25, snd (lookahead ls)), (9, Querynode q), (0, v)] (tl ls) (Some q)"
  have "yyloop (parser_at [(s, Querynode q), (0, v)] ls e) = yyloop (parser_at [(9, Querynode q), (0, v)] ls (Some q))"
    using assms by (auto simp: run_reduce [OF reduce_start(3)] run_reduce [OF reduce_start(4)] lr_simps)
  also have "\<dots> = yyloop ?p"
    using yynewstate_decision [of 9 ls 25 "Querynode q" "[(0, v)]" "Some q"] assms(2)
    by (subst yyloop.simps) (simp add: lr_simps)
  also have "\<dots> = Some (Inr (0, ?p))"
    by (subst yyloop.simps) (simp add: yynewstate_def yystate_of_def yyfinal_def)
  finally show ?thesis by simp
qed

lemma yyloop_complete:
  assumes "gram_start ts q" "symbol_of (lookahead ls) = 0"
  shows "\<exists>p. yyloop (parser_at [(0, v)] (ts @ ls) e) = Some (Inr (0, p)) \<and> expression p = Some q"
  using assms(1)
proof cases
  case (all u)
  then have "yyloop (parser_at [(0, v)] (ts @ ls) e) = yyloop (parser_at [(6, Querynode q), (0, v)] ls e)"
    by (simp add: run_shift [where d = 2] run_reduce [OF reduce_start(2)] lr_simps)
  with run_end assms(2) show ?thesis by simp
next
  case (all_paren u w x)
  then have "yyloop (parser_at [(0, v)] (ts @ ls) e) = yyloop (parser_at [(6, Querynode q), (0, v)] ls e)"
    by (simp add: run_shift [where d = 5] run_shift [where d = 21] run_shift [where d = 31] symbol_character
        run_reduce [OF reduce_start(1)] lr_simps)
  with run_end assms(2) show ?thesis by simp
next
  case expr
  then have "yyloop (parser_at [(0, v)] (ts @ ls) e) = yyloop (parser_at [(8, Querynode q), (0, v)] ls e)"
    by (simp add: run_operand(2) goto_table_def)
  with run_end assms(2) show ?thesis by simp
qed

text \<open>
  The parser ends on every list of lexemes the scanner can return. It succeeds exactly when a prefix up
  to the end of the file derives from the grammar, and then with the node of the derivation.
\<close>

lemma yyparse_accepts:
  assumes "list_all lexeme_ok ls"
  shows "\<exists>r p. yyparse ls e = Some (Inr (r, p)) \<and> (r = 0 \<longleftrightarrow> (\<exists>q. accepted ls q))
    \<and> (\<forall>q. r = 0 \<and> expression p = Some q \<longleftrightarrow> accepted ls q)"
proof -
  obtain r p where r: "yyparse ls e = Some (Inr (r, p))" "r = 1 \<or> r = 0 \<and> (\<exists>q. expression p = Some q \<and> accepted ls q)"
    using yyloop_sound [OF bottom _ _ assms, of NoVal e] by (auto simp: yyparse_def)
  have complete: "r = 0 \<and> expression p = Some q" if "accepted ls q" for q
  proof -
    from that obtain ts rest where "ls = ts @ rest" "gram_start ts q" "symbol_of (lookahead rest) = 0"
      by (auto simp: accepted_def)
    with yyloop_complete [of ts q rest NoVal e] r(1) show ?thesis by (auto simp: yyparse_def)
  qed
  have "r = 0 \<and> expression p = Some q \<longleftrightarrow> accepted ls q" for q
    using complete r(2) by (metis option.inject zero_neq_one)
  moreover have "r = 0 \<longleftrightarrow> (\<exists>q. accepted ls q)" using complete r(2) by auto
  ultimately show ?thesis using r(1) by blast
qed

end
