(* ===== verification/Query_Scanner.thy ===== *)
theory Query_Scanner
  imports Query_Grammar
begin

text \<open>
  The query scanner that flex generated from \<open>query/scanner.ll\<close> (\<open>query/scanner.cpp\<close>) and the driver that
  runs it with the parser (\<open>query/driver.cpp\<close>): the compressed tables, the matching loop, the actions of
  the rules. The lemmas unfold the tables into the automaton they encode.
\<close>

section \<open>The tables\<close>

definition yy_accept :: "int list" where
  "yy_accept =
     [0, 0, 0, 21, 19, 17, 18, 19, 13, 5, 1, 3, 16, 16, 16, 16, 16, 17, 0, 15, 0, 14, 13, 16,
      6, 2, 4, 16, 16, 16, 8, 16, 16, 0, 15, 0, 14, 7, 11, 9, 16, 16, 16, 12, 16, 10, 0]"

definition yy_ec :: "int list" where
  "yy_ec =
     [0, 1, 1, 1, 1, 1, 1, 1, 1, 2, 3, 1, 1, 2, 1, 1, 1, 1, 1, 1, 1, 1, 1, 1,
      1, 1, 1, 1, 1, 1, 1, 1, 2, 1, 4, 1, 1, 1, 1, 1, 1, 1, 1, 1, 1, 1, 5, 1,
      6, 6, 6, 6, 6, 6, 6, 6, 6, 6, 1, 1, 7, 8, 9, 1, 1, 10, 10, 10, 10, 10, 10, 10,
      10, 10, 10, 10, 10, 10, 10, 10, 10, 10, 10, 10, 10, 10, 10, 10, 10, 10, 10, 1, 11, 1, 1, 1,
      1, 12, 10, 10, 13, 14, 10, 15, 10, 16, 10, 10, 17, 10, 18, 19, 10, 10, 20, 10, 21, 22, 10, 10,
      10, 10, 10, 1, 1, 1, 23]
      @ replicate 129 1"

definition yy_meta :: "int list" where
  "yy_meta =
     [0, 1, 1, 1, 1, 2, 2, 1, 1, 1, 2, 1, 2, 2, 2, 2, 2, 2, 2, 2, 2, 2, 2, 1]"

definition yy_base :: "int list" where
  "yy_base =
     [0, 0, 0, 90, 91, 87, 91, 20, 20, 80, 64, 78, 80, 22, 23, 24, 25, 82, 30, 91, 32, 77, 27, 77,
      91, 91, 91, 33, 42, 43, 70, 45, 44, 47, 50, 52, 67, 67, 66, 65, 47, 60, 62, 63, 64, 52, 91, 77,
      51, 79]"

definition yy_def :: "int list" where
  "yy_def =
     [0, 46, 1, 46, 46, 46, 46, 47, 48, 46, 46, 46, 48, 48, 48, 48, 48, 46, 47, 46, 49, 46, 48, 48,
      46, 46, 46, 48, 48, 48, 48, 48, 48, 47, 47, 49, 46, 48, 48, 48, 48, 48, 48, 48, 48, 48, 0, 46,
      46, 46]"

definition yy_nxt :: "int list" where
  "yy_nxt =
     [0, 4, 5, 6, 7, 4, 8, 9, 10, 11, 12, 4, 13, 12, 12, 12, 12, 12, 14, 15, 12, 16, 12, 4,
      19, 21, 22, 46, 46, 46, 46, 20, 21, 22, 19, 18, 34, 31, 46, 28, 27, 20, 29, 35, 30, 32, 37, 46,
      46, 46, 46, 19, 46, 23, 19, 18, 34, 46, 20, 38, 40, 20, 42, 35, 39, 46, 41, 46, 46, 46, 46, 46,
      46, 36, 43, 46, 44, 45, 18, 18, 33, 33, 46, 36, 17, 46, 26, 25, 24, 17, 46, 3, 46, 46, 46, 46,
      46, 46, 46, 46, 46, 46, 46, 46, 46, 46, 46, 46, 46, 46, 46, 46, 46, 46, 46]"

definition yy_chk :: "int list" where
  "yy_chk =
     [0, 1, 1, 1, 1, 1, 1, 1, 1, 1, 1, 1, 1, 1, 1, 1, 1, 1, 1, 1, 1, 1, 1, 1,
      7, 8, 8, 13, 14, 15, 16, 7, 22, 22, 18, 20, 20, 16, 27, 14, 13, 18, 14, 20, 15, 16, 27, 28,
      29, 32, 31, 33, 40, 48, 34, 35, 35, 45, 33, 28, 31, 34, 40, 35, 29, 41, 32, 42, 43, 44, 39, 38,
      37, 36, 41, 30, 42, 44, 47, 47, 49, 49, 23, 21, 17, 12, 11, 10, 9, 5, 3, 46, 46, 46, 46, 46,
      46, 46, 46, 46, 46, 46, 46, 46, 46, 46, 46, 46, 46, 46, 46, 46, 46, 46, 46]"

section \<open>Matching\<close>

text \<open>The class of a character; the scanner gives a null character the class of the other ones.\<close>

definition yy_class :: "char \<Rightarrow> int" where
  "yy_class ch = (if code ch = 0 then 1 else at_index yy_ec (code ch))"

partial_function (option) yy_next :: "int \<Rightarrow> int \<Rightarrow> int option" where
  "yy_next s yc =
     (if at_index yy_chk (at_index yy_base s + yc) = s then Some (at_index yy_nxt (at_index yy_base s + yc))
      else let s1 = at_index yy_def s in yy_next s1 (if 47 \<le> s1 then at_index yy_meta yc else yc))"

declare yy_next.simps [code]

text \<open>
  The loop at \<open>yy_match\<close> from a state, with the number of characters read and the last accepting state
  and position. At the end of the input the scanner returns to its last state and finds the action
  there.
\<close>

fun yy_match :: "int \<Rightarrow> nat \<Rightarrow> int \<times> nat \<Rightarrow> string \<Rightarrow> (int \<times> nat) option" where
  "yy_match s n acc [] = Some (if at_index yy_accept s \<noteq> 0 then (s, n) else acc)"
| "yy_match s n acc (ch # cs) =
     (let acc1 = (if at_index yy_accept s \<noteq> 0 then (s, n) else acc)
      in case yy_next s (yy_class ch) of
           None \<Rightarrow> None
         | Some s1 \<Rightarrow> if s1 = 46 then Some acc1 else yy_match s1 (n + 1) acc1 cs)"

text \<open>The action of a rule on the text it matched; none is returned for white space.\<close>

definition signed_char :: "char \<Rightarrow> int" where
  "signed_char ch = (if code ch < 128 then code ch else code ch - 256)"

definition yy_action :: "int \<Rightarrow> string \<Rightarrow> lexeme option" where
  "yy_action yy_act yytext =
     (if yy_act = 1 then Some (EQUAL, StringVal ''='')
      else if yy_act = 2 then Some (LIKE, StringVal ''=~'')
      else if yy_act = 3 then Some (GREATER, StringVal ''>'')
      else if yy_act = 4 then Some (GREATER_EQ, StringVal ''>='')
      else if yy_act = 5 then Some (LESSER, StringVal ''<'')
      else if yy_act = 6 then Some (LESSER_EQ, StringVal ''<='')
      else if yy_act = 7 then Some (KW_AND, NoVal)
      else if yy_act = 8 then Some (KW_OR, NoVal)
      else if yy_act = 9 then Some (KW_NOT, NoVal)
      else if yy_act = 10 then Some (TAGGED, NoVal)
      else if yy_act = 11 then Some (NIL, NoVal)
      else if yy_act = 12 then Some (TRUE, NoVal)
      else if yy_act = 13 then Some (INTEGER, IntegerVal (atoi yytext))
      else if yy_act = 14 then Some (DOUBLE, DoubleVal (atof yytext))
      else if yy_act = 15 then Some (STRING, StringVal yytext)
      else if yy_act = 16 then Some (UNQUOTEDSTRING, StringVal yytext)
      else if yy_act = 17 then None
      else if yy_act = 18 then Some (EOL, NoVal)
      else Some (CHARACTER (signed_char (hd yytext)), NoVal))"

text \<open>All the tokens of an input, in the order in which calls of \<open>yylex\<close> return them.\<close>

partial_function (option) yylex_all :: "string \<Rightarrow> lexeme list option" where
  "yylex_all cs =
     (if cs = [] then Some []
      else case yy_match 1 0 (0, 0) cs of
             None \<Rightarrow> None
           | Some (s, n) \<Rightarrow>
               Option.bind (yylex_all (drop n cs)) (\<lambda>ls.
                 Some ((case yy_action (at_index yy_accept s) (take n cs) of None \<Rightarrow> [] | Some l \<Rightarrow> [l]) @ ls)))"

text \<open>\<open>driver::parse_string\<close>: whether the parse succeeded, and the expression afterwards.\<close>

definition parse_string :: "string \<Rightarrow> query_node option \<Rightarrow> (exn + (bool \<times> query_node option)) option" where
  "parse_string input e =
     Option.bind (yylex_all input) (\<lambda>ls. Option.bind (yyparse ls e) (\<lambda>r.
       Some (bind_exn r (\<lambda>(n, p). Inr (n = 0, expression p)))))"

section \<open>The automaton of the tables\<close>

definition word_class :: "int \<Rightarrow> bool" where
  "word_class yc \<longleftrightarrow> yc \<in> {6, 10, 12, 13, 14, 15, 16, 17, 18, 19, 20, 21, 22}"

text \<open>The branches of the keywords: from a state on a class to a state.\<close>

definition keyword_branches :: "((int \<times> int) \<times> int) list" where
  "keyword_branches =
     [((13, 18), 27), ((14, 16), 28), ((14, 19), 29), ((15, 20), 30), ((16, 12), 31), ((16, 20), 32), ((27, 13), 37),
      ((28, 17), 38), ((29, 21), 39), ((31, 15), 40), ((32, 22), 41), ((40, 15), 42), ((41, 14), 43), ((42, 14), 44),
      ((44, 13), 45)]"

definition word_states :: "int list" where
  "word_states = [12, 13, 14, 15, 16, 23, 27, 28, 29, 30, 31, 32, 37, 38, 39, 40, 41, 42, 43, 44, 45]"

definition dfa :: "int \<Rightarrow> int \<Rightarrow> int" where
  "dfa s yc =
     (if s = 1
      then (if yc \<in> {1, 5, 11, 23} then 4 else if yc = 2 then 5 else if yc = 3 then 6 else if yc = 4 then 7
            else if yc = 6 then 8 else if yc = 7 then 9 else if yc = 8 then 10 else if yc = 9 then 11
            else if yc = 12 then 13 else if yc = 18 then 14 else if yc = 19 then 15 else if yc = 21 then 16 else 12)
      else if s = 5 \<or> s = 17 then (if yc = 2 then 17 else 46)
      else if s \<in> {7, 18, 33, 34} then (if yc = 4 then 19 else if yc = 11 then 20 else 18)
      else if s = 20 \<or> s = 35 then (if yc = 3 then 18 else if yc = 4 then 34 else if yc = 11 then 35 else 33)
      else if s = 8 \<or> s = 22 then (if yc = 5 then 21 else if yc = 6 then 22 else if word_class yc then 23 else 46)
      else if s = 21 \<or> s = 36 then (if yc = 6 then 36 else 46)
      else if s = 9 then (if yc = 8 then 24 else 46)
      else if s = 10 then (if yc = 23 then 25 else 46)
      else if s = 11 then (if yc = 8 then 26 else 46)
      else if s \<in> set word_states
      then (if word_class yc then (case map_of keyword_branches (s, yc) of Some s1 \<Rightarrow> s1 | None \<Rightarrow> 23) else 46)
      else 46)"

lemma yy_next_dfa_all:
  "list_all (\<lambda>s. list_all (\<lambda>yc. yy_next s yc = Some (dfa s yc)) [1..23]) (1 # [4..46])"
  by code_simp

lemma dfa_range: "3 < dfa s yc \<and> dfa s yc < 47"
proof -
  have select: "3 < (if b then x else y) \<and> (if b then x else y) < 47"
    if "3 < x \<and> x < 47" "3 < y \<and> y < 47" for b and x y :: int
    using that by simp
  have branch: "3 < (case map_of keyword_branches x of Some s1 \<Rightarrow> s1 | None \<Rightarrow> 23)
      \<and> (case map_of keyword_branches x of Some s1 \<Rightarrow> s1 | None \<Rightarrow> 23) < 47" for x
    using map_of_SomeD [of keyword_branches x] by (auto simp: keyword_branches_def split: option.split)
  show ?thesis
    unfolding dfa_def by (intro select branch) simp_all
qed

lemma code_range: "0 \<le> code ch \<and> code ch \<le> 255"
proof -
  have "code ch = int (of_char ch)" by (simp only: code_def of_nat_of_char)
  moreover have "of_char ch < (256 :: nat)" by (rule nat_of_char_less_256)
  ultimately show ?thesis by linarith
qed

text \<open>The kinds of characters, and the classes they have.\<close>

definition is_alpha :: "char \<Rightarrow> bool" where
  "is_alpha ch \<longleftrightarrow> 65 \<le> code ch \<and> code ch \<le> 90 \<or> 97 \<le> code ch \<and> code ch \<le> 122"

definition is_alnum :: "char \<Rightarrow> bool" where
  "is_alnum ch \<longleftrightarrow> is_alpha ch \<or> is_digit ch"

definition is_blank :: "char \<Rightarrow> bool" where
  "is_blank ch \<longleftrightarrow> code ch = 32 \<or> code ch = 9 \<or> code ch = 13"

definition class_code :: "int \<Rightarrow> int" where
  "class_code i =
     (if 97 \<le> i \<and> i \<le> 122
      then (if i = 97 then 12 else if i = 100 then 13 else if i = 101 then 14 else if i = 103 then 15
            else if i = 105 then 16 else if i = 108 then 17 else if i = 110 then 18 else if i = 111 then 19
            else if i = 114 then 20 else if i = 116 then 21 else if i = 117 then 22 else 10)
      else if 65 \<le> i \<and> i \<le> 90 then 10
      else if 48 \<le> i \<and> i \<le> 57 then 6
      else if i = 32 \<or> i = 9 \<or> i = 13 then 2
      else if i = 10 then 3 else if i = 34 then 4 else if i = 46 then 5 else if i = 60 then 7 else if i = 61 then 8
      else if i = 62 then 9 else if i = 92 then 11 else if i = 126 then 23 else 1)"

definition class_of :: "char \<Rightarrow> int" where
  "class_of ch = class_code (code ch)"

lemma class_code_all: "map class_code [0..255] = 1 # tl yy_ec"
  by code_simp

lemma yy_class_eq: "yy_class ch = class_of ch"
proof -
  let ?i = "nat (code ch)"
  have i: "?i < 256" "code ch = int ?i" using code_range [of ch] by auto
  have "map class_code [0..255] ! ?i = class_code ([0..255] ! ?i)"
    using i(1) by (subst nth_map) simp_all
  also have "\<dots> = class_of ch" using i by (simp add: class_of_def)
  finally have "class_of ch = (1 # tl yy_ec) ! ?i" unfolding class_code_all by simp
  then show ?thesis
    using i by (cases ?i) (auto simp: yy_class_def at_index_def yy_ec_def)
qed

lemma yy_class_range: "1 \<le> yy_class ch \<and> yy_class ch < 24"
proof -
  have select: "1 \<le> (if b then x else y) \<and> (if b then x else y) < 24"
    if "1 \<le> x \<and> x < 24" "1 \<le> y \<and> y < 24" for b and x y :: int
    using that by simp
  show ?thesis unfolding yy_class_eq class_of_def class_code_def by (intro select) simp_all
qed

lemma yy_next_dfa:
  assumes "s = 1 \<or> 3 < s \<and> s < 47"
  shows "yy_next s (yy_class ch) = Some (dfa s (yy_class ch)) \<and> 3 < dfa s (yy_class ch) \<and> dfa s (yy_class ch) < 47"
proof -
  have "s \<in> set (1 # [4..46])" "yy_class ch \<in> set [1..23]"
    unfolding list.set set_upto insert_iff atLeastAtMost_iff using assms yy_class_range [of ch] by linarith+
  with yy_next_dfa_all dfa_range show ?thesis unfolding list_all_iff by blast
qed

end
