(* ===== verification/Query_Rules.thy ===== *)
theory Query_Rules
  imports Query_Scanner
begin

text \<open>
  The rules of \<open>query/scanner.ll\<close> as predicates on texts, and that the automaton in the tables of
  \<open>query/scanner.cpp\<close> accepts a text with the first rule that matches it.
\<close>


section \<open>The rules\<close>

text \<open>
  The regular expressions of \<open>scanner.ll\<close>, and the number of the first one that matches a text; zero
  when none does.
\<close>

definition quote :: char where "quote = CHR 0x22"

definition backslash :: char where "backslash = CHR 0x5C"

definition newline :: char where "newline = CHR 0x0A"

inductive quoted_body :: "string \<Rightarrow> bool" where
  empty: "quoted_body []"
| escaped: "ch \<noteq> newline \<Longrightarrow> quoted_body cs \<Longrightarrow> quoted_body (backslash # ch # cs)"
| plain: "ch \<noteq> quote \<Longrightarrow> quoted_body cs \<Longrightarrow> quoted_body (ch # cs)"

definition is_quoted :: "string \<Rightarrow> bool" where
  "is_quoted cs \<longleftrightarrow> (\<exists>b. cs = quote # b @ [quote] \<and> quoted_body b)"

definition is_decimal :: "string \<Rightarrow> bool" where
  "is_decimal cs \<longleftrightarrow> (\<exists>d f. cs = d @ CHR ''.'' # f \<and> d \<noteq> [] \<and> list_all is_digit d \<and> list_all is_digit f)"

definition literal_rules :: "(string \<times> int) list" where
  "literal_rules =
     [(''='', 1), (''=~'', 2), (''>'', 3), (''>='', 4), (''<'', 5), (''<='', 6), (''and'', 7), (''or'', 8), (''not'', 9),
      (''tagged'', 10), (''nil'', 11), (''true'', 12)]"

definition rule_of :: "string \<Rightarrow> int" where
  "rule_of cs =
     (if cs = [] then 0
      else case map_of literal_rules cs of
        Some r \<Rightarrow> r
      | None \<Rightarrow>
          (if list_all is_digit cs then 13
           else if is_decimal cs then 14
           else if is_quoted cs then 15
           else if list_all is_alnum cs then 16
           else if list_all is_blank cs then 17
           else if cs = [newline] then 18
           else if length cs = 1 then 19
           else 0))"

section \<open>The automaton recognises the rules\<close>

definition dfa_run :: "int \<Rightarrow> string \<Rightarrow> int" where
  "dfa_run s cs = foldl (\<lambda>s ch. dfa s (class_of ch)) s cs"

lemma dfa_run_simps [simp]:
  "dfa_run s [] = s" "dfa_run s (ch # cs) = dfa_run (dfa s (class_of ch)) cs"
  "dfa_run s (cs @ ds) = dfa_run (dfa_run s cs) ds"
  by (simp_all add: dfa_run_def)

lemma dfa_simps:
  "dfa 4 y = 46" "dfa 5 y = (if y = 2 then 17 else 46)" "dfa 17 y = (if y = 2 then 17 else 46)" "dfa 6 y = 46"
  "dfa 7 y = (if y = 4 then 19 else if y = 11 then 20 else 18)" "dfa 18 y = (if y = 4 then 19 else if y = 11 then 20 else 18)"
  "dfa 33 y = (if y = 4 then 19 else if y = 11 then 20 else 18)" "dfa 34 y = (if y = 4 then 19 else if y = 11 then 20 else 18)"
  "dfa 20 y = (if y = 3 then 18 else if y = 4 then 34 else if y = 11 then 35 else 33)"
  "dfa 35 y = (if y = 3 then 18 else if y = 4 then 34 else if y = 11 then 35 else 33)"
  "dfa 8 y = (if y = 5 then 21 else if y = 6 then 22 else if word_class y then 23 else 46)"
  "dfa 22 y = (if y = 5 then 21 else if y = 6 then 22 else if word_class y then 23 else 46)"
  "dfa 21 y = (if y = 6 then 36 else 46)" "dfa 36 y = (if y = 6 then 36 else 46)" "dfa 9 y = (if y = 8 then 24 else 46)"
  "dfa 10 y = (if y = 23 then 25 else 46)" "dfa 11 y = (if y = 8 then 26 else 46)" "dfa 19 y = 46" "dfa 24 y = 46"
  "dfa 25 y = 46" "dfa 26 y = 46" "dfa 46 y = 46"
  by (simp_all add: dfa_def word_states_def)

lemma dfa_word:
  "s \<in> set word_states \<Longrightarrow> dfa s y =
     (if word_class y then (case map_of keyword_branches (s, y) of Some s1 \<Rightarrow> s1 | None \<Rightarrow> 23) else 46)"
  by (simp add: word_states_def) (elim disjE; simp add: dfa_def word_states_def)

lemma dfa_run_dead [simp]: "dfa_run 46 cs = 46"
  by (induction cs) (simp_all add: dfa_simps)

text \<open>The classes of the kinds of characters.\<close>

lemma code_inject: "ch = ch1 \<longleftrightarrow> code ch = code ch1"
  by (simp add: code_def)

lemma class_code_word: "word_class (class_code i) \<longleftrightarrow> 97 \<le> i \<and> i \<le> 122 \<or> 65 \<le> i \<and> i \<le> 90 \<or> 48 \<le> i \<and> i \<le> 57"
  by (simp add: class_code_def word_class_def)

lemma class_code_iff:
  "class_code i = 2 \<longleftrightarrow> i = 32 \<or> i = 9 \<or> i = 13" "class_code i = 3 \<longleftrightarrow> i = 10" "class_code i = 4 \<longleftrightarrow> i = 34"
  "class_code i = 5 \<longleftrightarrow> i = 46" "class_code i = 6 \<longleftrightarrow> 48 \<le> i \<and> i \<le> 57" "class_code i = 7 \<longleftrightarrow> i = 60"
  "class_code i = 8 \<longleftrightarrow> i = 61" "class_code i = 9 \<longleftrightarrow> i = 62" "class_code i = 11 \<longleftrightarrow> i = 92" "class_code i = 23 \<longleftrightarrow> i = 126"
  by (auto simp: class_code_def)

lemma class_facts:
  "class_of ch = 2 \<longleftrightarrow> is_blank ch" "class_of ch = 3 \<longleftrightarrow> ch = newline" "class_of ch = 4 \<longleftrightarrow> ch = quote"
  "class_of ch = 5 \<longleftrightarrow> ch = CHR ''.''" "class_of ch = 6 \<longleftrightarrow> is_digit ch" "class_of ch = 11 \<longleftrightarrow> ch = backslash"
  "word_class (class_of ch) \<longleftrightarrow> is_alnum ch" "class_of ch = 7 \<longleftrightarrow> ch = CHR ''<''" "class_of ch = 8 \<longleftrightarrow> ch = CHR ''=''"
  "class_of ch = 9 \<longleftrightarrow> ch = CHR ''>''" "class_of ch = 23 \<longleftrightarrow> ch = CHR ''~''"
proof -
  note defs = class_of_def class_code_iff class_code_word is_blank_def is_digit_def is_alnum_def is_alpha_def
    newline_def quote_def backslash_def code_inject [of ch]
  have codes: "code CHR 0x0A = 10" "code CHR 0x22 = 34" "code CHR ''.'' = 46" "code CHR 0x5C = 92" "code CHR ''<'' = 60"
    "code CHR ''='' = 61" "code CHR ''>'' = 62" "code CHR ''~'' = 126" by code_simp+
  show "class_of ch = 2 \<longleftrightarrow> is_blank ch" "class_of ch = 3 \<longleftrightarrow> ch = newline" "class_of ch = 4 \<longleftrightarrow> ch = quote"
    "class_of ch = 5 \<longleftrightarrow> ch = CHR ''.''" "class_of ch = 6 \<longleftrightarrow> is_digit ch" "class_of ch = 11 \<longleftrightarrow> ch = backslash"
    "word_class (class_of ch) \<longleftrightarrow> is_alnum ch" "class_of ch = 7 \<longleftrightarrow> ch = CHR ''<''" "class_of ch = 8 \<longleftrightarrow> ch = CHR ''=''"
    "class_of ch = 9 \<longleftrightarrow> ch = CHR ''>''" "class_of ch = 23 \<longleftrightarrow> ch = CHR ''~''"
    unfolding defs codes by auto
qed


lemma accept_simps [simp]:
  "at_index yy_accept 1 = 0" "at_index yy_accept 4 = 19" "at_index yy_accept 5 = 17" "at_index yy_accept 6 = 18"
  "at_index yy_accept 7 = 19" "at_index yy_accept 8 = 13" "at_index yy_accept 9 = 5" "at_index yy_accept 10 = 1"
  "at_index yy_accept 11 = 3" "at_index yy_accept 17 = 17" "at_index yy_accept 18 = 0" "at_index yy_accept 19 = 15"
  "at_index yy_accept 20 = 0" "at_index yy_accept 21 = 14" "at_index yy_accept 22 = 13" "at_index yy_accept 24 = 6"
  "at_index yy_accept 25 = 2" "at_index yy_accept 26 = 4" "at_index yy_accept 33 = 0" "at_index yy_accept 34 = 15"
  "at_index yy_accept 35 = 0" "at_index yy_accept 36 = 14" "at_index yy_accept 46 = 0"
  by (simp_all add: at_index_def yy_accept_def)

text \<open>From each state: the rule that the rest of a text completes.\<close>

lemma run_blanks:
  "at_index yy_accept (dfa_run 5 cs) = (if list_all is_blank cs then 17 else 0) \<and>
   at_index yy_accept (dfa_run 17 cs) = (if list_all is_blank cs then 17 else 0)"
  by (induction cs) (simp_all add: dfa_simps class_facts)

lemma run_single:
  "at_index yy_accept (dfa_run 4 cs) = (if cs = [] then 19 else 0)"
  "at_index yy_accept (dfa_run 6 cs) = (if cs = [] then 18 else 0)"
  "at_index yy_accept (dfa_run 19 cs) = (if cs = [] then 15 else 0)"
  "at_index yy_accept (dfa_run 24 cs) = (if cs = [] then 6 else 0)"
  "at_index yy_accept (dfa_run 25 cs) = (if cs = [] then 2 else 0)"
  "at_index yy_accept (dfa_run 26 cs) = (if cs = [] then 4 else 0)"
  by (cases cs; simp add: dfa_simps)+

lemma run_operators:
  "at_index yy_accept (dfa_run 9 cs) = (if cs = [] then 5 else if cs = ''='' then 6 else 0)"
  "at_index yy_accept (dfa_run 10 cs) = (if cs = [] then 1 else if cs = ''~'' then 2 else 0)"
  "at_index yy_accept (dfa_run 11 cs) = (if cs = [] then 3 else if cs = ''='' then 4 else 0)"
  by (cases cs; simp add: dfa_simps class_facts run_single)+

definition rest_decimal :: "string \<Rightarrow> bool" where
  "rest_decimal cs \<longleftrightarrow> (\<exists>d f. cs = d @ CHR ''.'' # f \<and> list_all is_digit d \<and> list_all is_digit f)"

lemma digit_dot: "\<not> is_digit CHR ''.''" "is_digit ch \<Longrightarrow> is_alnum ch" "\<not> is_alnum CHR ''.''"
  using class_facts(5,7) [of "CHR ''.''"] class_facts(4) [of "CHR ''.''"] by (simp_all add: is_alnum_def word_class_def)

lemma rest_decimal_simps:
  "\<not> rest_decimal []"
  "rest_decimal (ch # cs) \<longleftrightarrow> ch = CHR ''.'' \<and> list_all is_digit cs \<or> is_digit ch \<and> rest_decimal cs"
proof -
  show "\<not> rest_decimal []" by (simp add: rest_decimal_def)
  show "rest_decimal (ch # cs) \<longleftrightarrow> ch = CHR ''.'' \<and> list_all is_digit cs \<or> is_digit ch \<and> rest_decimal cs"
  proof
    assume "rest_decimal (ch # cs)"
    then obtain d f where "ch # cs = d @ CHR ''.'' # f" "list_all is_digit d" "list_all is_digit f"
      unfolding rest_decimal_def by blast
    then show "ch = CHR ''.'' \<and> list_all is_digit cs \<or> is_digit ch \<and> rest_decimal cs"
      by (cases d) (auto simp: rest_decimal_def)
  next
    assume "ch = CHR ''.'' \<and> list_all is_digit cs \<or> is_digit ch \<and> rest_decimal cs"
    then show "rest_decimal (ch # cs)"
    proof
      assume "ch = CHR ''.'' \<and> list_all is_digit cs"
      then show ?thesis unfolding rest_decimal_def by (intro exI [of _ "[]"] exI [of _ cs]) simp
    next
      assume "is_digit ch \<and> rest_decimal cs"
      then obtain d f where "is_digit ch" "cs = d @ CHR ''.'' # f" "list_all is_digit d" "list_all is_digit f"
        unfolding rest_decimal_def by blast
      then show ?thesis unfolding rest_decimal_def by (intro exI [of _ "ch # d"] exI [of _ f]) simp
    qed
  qed
qed

lemma is_decimal_Cons: "is_decimal (ch # cs) \<longleftrightarrow> is_digit ch \<and> rest_decimal cs"
proof
  assume "is_decimal (ch # cs)"
  then obtain d f where "ch # cs = d @ CHR ''.'' # f" "d \<noteq> []" "list_all is_digit d" "list_all is_digit f"
    unfolding is_decimal_def by blast
  then show "is_digit ch \<and> rest_decimal cs" by (cases d) (auto simp: rest_decimal_def)
next
  assume "is_digit ch \<and> rest_decimal cs"
  then obtain d f where "is_digit ch" "cs = d @ CHR ''.'' # f" "list_all is_digit d" "list_all is_digit f"
    unfolding rest_decimal_def by blast
  then show "is_decimal (ch # cs)" unfolding is_decimal_def by (intro exI [of _ "ch # d"] exI [of _ f]) simp
qed

lemma run_fraction:
  "at_index yy_accept (dfa_run 21 cs) = (if list_all is_digit cs then 14 else 0) \<and>
   at_index yy_accept (dfa_run 36 cs) = (if list_all is_digit cs then 14 else 0)"
  by (induction cs) (simp_all add: dfa_simps class_facts)

text \<open>The states of the keywords, and what is left of the keyword in each.\<close>

definition residuals :: "int \<Rightarrow> (string \<times> int) list" where
  "residuals s =
     (if s = 13 then [(''nd'', 7)] else if s = 27 then [(''d'', 7)] else if s = 37 then [([], 7)]
      else if s = 14 then [(''il'', 11), (''ot'', 9)] else if s = 28 then [(''l'', 11)] else if s = 38 then [([], 11)]
      else if s = 29 then [(''t'', 9)] else if s = 39 then [([], 9)]
      else if s = 15 then [(''r'', 8)] else if s = 30 then [([], 8)]
      else if s = 16 then [(''agged'', 10), (''rue'', 12)] else if s = 31 then [(''gged'', 10)]
      else if s = 40 then [(''ged'', 10)] else if s = 42 then [(''ed'', 10)] else if s = 44 then [(''d'', 10)]
      else if s = 45 then [([], 10)] else if s = 32 then [(''ue'', 12)] else if s = 41 then [(''e'', 12)]
      else if s = 43 then [([], 12)] else [])"

lemma class_letters:
  "class_of ch = 12 \<longleftrightarrow> ch = CHR ''a''" "class_of ch = 13 \<longleftrightarrow> ch = CHR ''d''" "class_of ch = 14 \<longleftrightarrow> ch = CHR ''e''"
  "class_of ch = 15 \<longleftrightarrow> ch = CHR ''g''" "class_of ch = 16 \<longleftrightarrow> ch = CHR ''i''" "class_of ch = 17 \<longleftrightarrow> ch = CHR ''l''"
  "class_of ch = 18 \<longleftrightarrow> ch = CHR ''n''" "class_of ch = 19 \<longleftrightarrow> ch = CHR ''o''" "class_of ch = 20 \<longleftrightarrow> ch = CHR ''r''"
  "class_of ch = 21 \<longleftrightarrow> ch = CHR ''t''" "class_of ch = 22 \<longleftrightarrow> ch = CHR ''u''"
proof -
  have codes: "code CHR ''a'' = 97" "code CHR ''d'' = 100" "code CHR ''e'' = 101" "code CHR ''g'' = 103"
    "code CHR ''i'' = 105" "code CHR ''l'' = 108" "code CHR ''n'' = 110" "code CHR ''o'' = 111" "code CHR ''r'' = 114"
    "code CHR ''t'' = 116" "code CHR ''u'' = 117" by code_simp+
  have iff: "class_code i = 12 \<longleftrightarrow> i = 97" "class_code i = 13 \<longleftrightarrow> i = 100" "class_code i = 14 \<longleftrightarrow> i = 101"
    "class_code i = 15 \<longleftrightarrow> i = 103" "class_code i = 16 \<longleftrightarrow> i = 105" "class_code i = 17 \<longleftrightarrow> i = 108"
    "class_code i = 18 \<longleftrightarrow> i = 110" "class_code i = 19 \<longleftrightarrow> i = 111" "class_code i = 20 \<longleftrightarrow> i = 114"
    "class_code i = 21 \<longleftrightarrow> i = 116" "class_code i = 22 \<longleftrightarrow> i = 117" for i
    by (auto simp: class_code_def)
  show "class_of ch = 12 \<longleftrightarrow> ch = CHR ''a''" "class_of ch = 13 \<longleftrightarrow> ch = CHR ''d''" "class_of ch = 14 \<longleftrightarrow> ch = CHR ''e''"
    "class_of ch = 15 \<longleftrightarrow> ch = CHR ''g''" "class_of ch = 16 \<longleftrightarrow> ch = CHR ''i''" "class_of ch = 17 \<longleftrightarrow> ch = CHR ''l''"
    "class_of ch = 18 \<longleftrightarrow> ch = CHR ''n''" "class_of ch = 19 \<longleftrightarrow> ch = CHR ''o''" "class_of ch = 20 \<longleftrightarrow> ch = CHR ''r''"
    "class_of ch = 21 \<longleftrightarrow> ch = CHR ''t''" "class_of ch = 22 \<longleftrightarrow> ch = CHR ''u''"
    unfolding class_of_def iff code_inject [of ch] codes by simp_all
qed


lemma accept_word: "s \<in> set word_states \<Longrightarrow>
    at_index yy_accept s = (case map_of (residuals s) [] of Some r \<Rightarrow> r | None \<Rightarrow> 16)"
  by (simp add: word_states_def) (elim disjE; simp add: at_index_def yy_accept_def residuals_def)

lemma residual_step: "s \<in> set word_states \<Longrightarrow> is_alnum ch \<Longrightarrow>
    dfa s (class_of ch) \<in> set word_states \<and> map_of (residuals (dfa s (class_of ch))) cs = map_of (residuals s) (ch # cs)"
  unfolding dfa_word
  by (simp add: word_states_def class_facts keyword_branches_def)
    (elim disjE; simp add: class_letters residuals_def)

lemma residual_alnum:
  assumes "map_of (residuals s) cs = Some r"
  shows "list_all is_alnum cs"
proof -
  have letters: "list_all is_alnum ''adegilnortu''" by code_simp
  have "(cs, r) \<in> set (residuals s)" using assms by (rule map_of_SomeD)
  then show ?thesis using letters by (auto simp: residuals_def split: if_splits)
qed

lemma run_word:
  "s \<in> set word_states \<Longrightarrow> at_index yy_accept (dfa_run s cs) =
     (if list_all is_alnum cs then (case map_of (residuals s) cs of Some r \<Rightarrow> r | None \<Rightarrow> 16) else 0)"
proof (induction cs arbitrary: s)
  case Nil
  then show ?case by (simp add: accept_word)
next
  case (Cons ch cs)
  show ?case
  proof (cases "is_alnum ch")
    case True
    with Cons.IH [of "dfa s (class_of ch)"] residual_step [OF Cons.prems True] show ?thesis by simp
  next
    case False
    then show ?thesis by (simp add: dfa_word [OF Cons.prems] class_facts)
  qed
qed

lemma run_digits:
  "s = 8 \<or> s = 22 \<Longrightarrow> at_index yy_accept (dfa_run s cs) =
     (if list_all is_digit cs then 13 else if rest_decimal cs then 14 else if list_all is_alnum cs then 16 else 0)"
proof (induction cs arbitrary: s)
  case Nil
  then show ?case by auto
next
  case (Cons ch cs)
  have word: "at_index yy_accept (dfa_run 23 cs) = (if list_all is_alnum cs then 16 else 0)"
    by (simp add: run_word word_states_def residuals_def)
  have step: "dfa s (class_of ch) = (if ch = CHR ''.'' then 21 else if is_digit ch then 22 else if is_alnum ch then 23 else 46)"
    using Cons.prems by (auto simp: dfa_simps class_facts)
  show ?case
    using Cons.IH [of 22] by (auto simp: step word run_fraction rest_decimal_simps digit_dot)
qed


text \<open>What is left of a quoted string after its opening quote.\<close>

definition rest_quoted :: "string \<Rightarrow> bool" where
  "rest_quoted cs \<longleftrightarrow> (\<exists>b. cs = b @ [quote] \<and> quoted_body b)"

inductive_simps quoted_body_Cons: "quoted_body (ch # cs)"

lemma special_distinct: "quote \<noteq> backslash" "quote \<noteq> newline" "backslash \<noteq> newline"
  by (simp_all add: quote_def backslash_def newline_def)

lemma rest_quoted_Nil: "\<not> rest_quoted []"
  by (simp add: rest_quoted_def)

lemma rest_quoted_quote: "rest_quoted (quote # cs) \<longleftrightarrow> cs = []"
proof
  assume "rest_quoted (quote # cs)"
  then obtain b where "quote # cs = b @ [quote]" "quoted_body b" unfolding rest_quoted_def by blast
  then show "cs = []" by (cases b) (auto simp: quoted_body_Cons special_distinct)
next
  assume "cs = []"
  then show "rest_quoted (quote # cs)" by (auto simp: rest_quoted_def intro: quoted_body.empty)
qed

lemma rest_quoted_plain: "ch \<noteq> quote \<Longrightarrow> rest_quoted cs \<Longrightarrow> rest_quoted (ch # cs)"
  unfolding rest_quoted_def by (metis append_Cons quoted_body.plain)

lemma rest_quoted_escaped: "ch \<noteq> newline \<Longrightarrow> rest_quoted cs \<Longrightarrow> rest_quoted (backslash # ch # cs)"
  unfolding rest_quoted_def by (metis append_Cons quoted_body.escaped)

lemma rest_quoted_Cons:
  assumes "ch \<noteq> quote"
  shows "rest_quoted (ch # cs) \<longleftrightarrow>
    rest_quoted cs \<or> ch = backslash \<and> (\<exists>e ds. cs = e # ds \<and> e \<noteq> newline \<and> rest_quoted ds)"
proof
  assume "rest_quoted (ch # cs)"
  then obtain b where "ch # cs = b @ [quote]" "quoted_body b" unfolding rest_quoted_def by blast
  with assms obtain b1 where b: "cs = b1 @ [quote]" "quoted_body (ch # b1)" by (cases b) auto
  from b(2) show "rest_quoted cs \<or> ch = backslash \<and> (\<exists>e ds. cs = e # ds \<and> e \<noteq> newline \<and> rest_quoted ds)"
    unfolding quoted_body_Cons using b(1) by (auto simp: rest_quoted_def)
next
  assume "rest_quoted cs \<or> ch = backslash \<and> (\<exists>e ds. cs = e # ds \<and> e \<noteq> newline \<and> rest_quoted ds)"
  then show "rest_quoted (ch # cs)"
    using assms rest_quoted_plain rest_quoted_escaped by blast
qed

lemma rest_quoted_backslash:
  "\<not> rest_quoted [backslash]"
  "rest_quoted (backslash # ch # cs) \<longleftrightarrow>
     (if ch = quote then cs = [] \<or> rest_quoted cs else if ch = backslash then rest_quoted (backslash # cs) else rest_quoted cs)"
  using rest_quoted_plain [of backslash cs] rest_quoted_Cons [of backslash "[]"] rest_quoted_Cons [of backslash "ch # cs"]
    rest_quoted_Cons [of ch cs] rest_quoted_quote [of cs] special_distinct
  by (auto simp: rest_quoted_Nil)

lemma rest_quoted_other: "ch \<noteq> quote \<Longrightarrow> ch \<noteq> backslash \<Longrightarrow> rest_quoted (ch # cs) \<longleftrightarrow> rest_quoted cs"
  by (simp add: rest_quoted_Cons)

lemma run_quoted:
  "at_index yy_accept (dfa_run 18 cs) = (if rest_quoted cs then 15 else 0) \<and>
   at_index yy_accept (dfa_run 33 cs) = (if rest_quoted cs then 15 else 0) \<and>
   at_index yy_accept (dfa_run 34 cs) = (if cs = [] \<or> rest_quoted cs then 15 else 0) \<and>
   at_index yy_accept (dfa_run 20 cs) = (if rest_quoted (backslash # cs) then 15 else 0) \<and>
   at_index yy_accept (dfa_run 35 cs) = (if rest_quoted (backslash # cs) then 15 else 0)"
proof (induction cs)
  case Nil
  show ?case by (simp add: rest_quoted_Nil rest_quoted_backslash)
next
  case (Cons ch cs)
  consider "ch = quote" | "ch = backslash" | "ch = newline" | "ch \<noteq> quote" "ch \<noteq> backslash" "ch \<noteq> newline" by blast
  then show ?case
    by cases (use Cons special_distinct special_distinct [symmetric] in
      \<open>simp_all add: dfa_simps class_facts run_single rest_quoted_quote rest_quoted_backslash rest_quoted_other\<close>)
qed

lemma is_quoted_Cons: "is_quoted (ch # cs) \<longleftrightarrow> ch = quote \<and> rest_quoted cs"
  by (auto simp: is_quoted_def rest_quoted_def)

lemma run_string: "at_index yy_accept (dfa_run 7 cs) = (if cs = [] then 19 else if rest_quoted cs then 15 else 0)"
proof (cases cs)
  case (Cons ch ds)
  consider "ch = quote" | "ch = backslash" | "ch \<noteq> quote" "ch \<noteq> backslash" by blast
  then show ?thesis
    by cases (use Cons special_distinct special_distinct [symmetric] run_quoted [of ds] in
      \<open>simp_all add: dfa_simps class_facts run_single rest_quoted_quote rest_quoted_other\<close>)
qed simp


lemma dfa_start:
  "dfa 1 y = (if y \<in> {1, 5, 11, 23} then 4 else if y = 2 then 5 else if y = 3 then 6 else if y = 4 then 7
     else if y = 6 then 8 else if y = 7 then 9 else if y = 8 then 10 else if y = 9 then 11
     else if y = 12 then 13 else if y = 18 then 14 else if y = 19 then 15 else if y = 21 then 16 else 12)"
  by (simp add: dfa_def)

lemma literal_none:
  assumes "class_of ch \<notin> {7, 8, 9, 12, 18, 19, 21}"
  shows "map_of literal_rules (ch # cs) = None"
proof -
  have "ch \<noteq> CHR ''<''" "ch \<noteq> CHR ''=''" "ch \<noteq> CHR ''>''" "ch \<noteq> CHR ''a''" "ch \<noteq> CHR ''n''" "ch \<noteq> CHR ''o''" "ch \<noteq> CHR ''t''"
    using assms class_facts(8-10) [of ch] class_letters(1,7,8,10) [of ch] by auto
  then show ?thesis by (simp add: literal_rules_def)
qed

lemma literal_word:
  assumes "is_alnum ch" "\<not> is_digit ch"
  shows "dfa 1 (class_of ch) \<in> set word_states \<and>
    map_of literal_rules (ch # cs) = map_of (residuals (dfa 1 (class_of ch))) cs"
proof -
  have w: "word_class (class_of ch)" "class_of ch \<noteq> 6" using assms class_facts(5,7) [of ch] by simp_all
  then have n: "class_of ch \<notin> {1, 2, 3, 4, 5, 7, 8, 9, 11, 23}" by (auto simp: word_class_def)
  then have "ch \<noteq> CHR ''<''" "ch \<noteq> CHR ''=''" "ch \<noteq> CHR ''>''" using class_facts(8-10) [of ch] by auto
  then show ?thesis
    using w(2) n by (simp add: dfa_start class_letters literal_rules_def residuals_def word_states_def)
qed

lemma rule_of_Cons:
  "rule_of (ch # cs) =
     (case map_of literal_rules (ch # cs) of
        Some r \<Rightarrow> r
      | None \<Rightarrow>
          if is_digit ch \<and> list_all is_digit cs then 13
          else if is_digit ch \<and> rest_decimal cs then 14
          else if ch = quote \<and> rest_quoted cs then 15
          else if is_alnum ch \<and> list_all is_alnum cs then 16
          else if is_blank ch \<and> list_all is_blank cs then 17
          else if ch = newline \<and> cs = [] then 18
          else if cs = [] then 19
          else 0)"
  by (cases "map_of literal_rules (ch # cs)") (simp_all add: rule_of_def is_decimal_Cons is_quoted_Cons split del: if_split cong: if_cong)

lemma class_cases:
  assumes "1 \<le> y \<and> y < (24 :: int)"
  shows "word_class y \<and> y \<noteq> 6 \<or> y = 7 \<or> y = 8 \<or> y = 9 \<or> y \<in> {1, 2, 3, 4, 5, 6, 11, 23}"
  using assms unfolding word_class_def insert_iff empty_iff by presburger

lemma dfa_accepts: "at_index yy_accept (dfa_run 1 cs) = rule_of cs"
proof (cases cs)
  case Nil
  then show ?thesis by (simp add: rule_of_def)
next
  case (Cons ch ds)
  have range: "1 \<le> class_of ch \<and> class_of ch < 24" using yy_class_range [of ch] by (simp add: yy_class_eq)
  note kinds = class_facts(1-3,5,7) [of ch, symmetric]
  note runs = run_blanks run_single run_operators run_digits run_string rule_of_Cons kinds word_class_def
  consider (letter) "is_alnum ch" "\<not> is_digit ch" | (lt) "class_of ch = 7" | (eq) "class_of ch = 8" | (gt) "class_of ch = 9"
    | (rest) "class_of ch \<in> {1, 2, 3, 4, 5, 6, 11, 23}"
    using class_cases [OF range] unfolding kinds by blast
  then show ?thesis
  proof cases
    case letter
    then have "ch \<noteq> quote" "\<not> is_blank ch" "ch \<noteq> newline" unfolding kinds word_class_def by auto
    then show ?thesis
      using literal_word [OF letter, of ds] letter residual_alnum [of "dfa 1 (class_of ch)" ds] by (auto simp: Cons run_word rule_of_Cons split: option.split)
  next
    case lt
    then have "ch = CHR ''<''" by (simp add: class_facts)
    moreover have "\<not> is_digit ch" "ch \<noteq> quote" "\<not> is_alnum ch" "\<not> is_blank ch" "ch \<noteq> newline"
      unfolding kinds word_class_def using lt by simp_all
    ultimately show ?thesis using lt by (simp add: Cons dfa_start run_operators rule_of_Cons literal_rules_def)
  next
    case eq
    then have "ch = CHR ''=''" by (simp add: class_facts)
    moreover have "\<not> is_digit ch" "ch \<noteq> quote" "\<not> is_alnum ch" "\<not> is_blank ch" "ch \<noteq> newline"
      unfolding kinds word_class_def using eq by simp_all
    ultimately show ?thesis using eq by (simp add: Cons dfa_start run_operators rule_of_Cons literal_rules_def)
  next
    case gt
    then have "ch = CHR ''>''" by (simp add: class_facts)
    moreover have "\<not> is_digit ch" "ch \<noteq> quote" "\<not> is_alnum ch" "\<not> is_blank ch" "ch \<noteq> newline"
      unfolding kinds word_class_def using gt by simp_all
    ultimately show ?thesis using gt by (simp add: Cons dfa_start run_operators rule_of_Cons literal_rules_def)
  next
    case rest
    then have "map_of literal_rules (ch # ds) = None" by (intro literal_none) auto
    with rest show ?thesis
      by (elim insertE emptyE) (simp_all add: Cons dfa_start runs rest_quoted_Nil)
  qed
qed

end
