(* ===== verification/Query_Lexer.thy ===== *)
theory Query_Lexer
  imports Query_Rules
begin

text \<open>
  The tokens of a query text: \<open>yylex\<close> returns the longest match of a rule at each point. With the grammar
  this gives what \<open>driver::parse_string\<close> accepts, and the type of the queries it makes.
\<close>

section \<open>The longest match\<close>

definition longest_match :: "string \<Rightarrow> nat \<Rightarrow> bool" where
  "longest_match cs n \<longleftrightarrow> 0 < n \<and> n \<le> length cs \<and> rule_of (take n cs) \<noteq> 0
     \<and> (\<forall>m. n < m \<and> m \<le> length cs \<longrightarrow> rule_of (take m cs) = 0)"

definition lexeme_of :: "string \<Rightarrow> lexeme list" where
  "lexeme_of w = (case yy_action (rule_of w) w of None \<Rightarrow> [] | Some l \<Rightarrow> [l])"

text \<open>The tokens of a text: each the longest one that some rule matches where the previous one ends.\<close>

inductive tokens :: "string \<Rightarrow> lexeme list \<Rightarrow> bool" where
  none: "tokens [] []"
| token: "longest_match cs n \<Longrightarrow> tokens (drop n cs) ls \<Longrightarrow> tokens cs (lexeme_of (take n cs) @ ls)"

lemma longest_match_unique: "longest_match cs n \<Longrightarrow> longest_match cs m \<Longrightarrow> n = m"
  unfolding longest_match_def by (metis nat_neq_iff)

lemma longest_match_Nil [simp]: "\<not> longest_match [] n"
  by (auto simp: longest_match_def)

inductive_cases tokens_Nil: "tokens [] ls"

lemma tokens_unique: "tokens cs ls \<Longrightarrow> tokens cs ks \<Longrightarrow> ls = ks"
proof (induction arbitrary: ks rule: tokens.induct)
  case none
  then show ?case by (rule tokens_Nil) simp_all
next
  case (token cs n ls)
  from token.prems show ?case
  proof cases
    case none
    then show ?thesis using token.hyps(1) by simp
  next
    case token1: (token m js)
    then have "m = n" using token.hyps(1) longest_match_unique by blast
    with token1 token.IH show ?thesis by simp
  qed
qed

text \<open>
  From a live state the loop at \<open>yy_match\<close> ends, and with the longest accepted prefix of the rest or, when
  there is none, with what it had.
\<close>

lemma yy_match_longest:
  assumes "s = 1 \<or> 3 < s \<and> s < 47"
  shows "yy_match s n acc cs = Some acc \<and> (\<forall>m \<le> length cs. at_index yy_accept (dfa_run s (take m cs)) = 0) \<or>
    (\<exists>m \<le> length cs. yy_match s n acc cs = Some (dfa_run s (take m cs), n + m)
       \<and> at_index yy_accept (dfa_run s (take m cs)) \<noteq> 0
       \<and> (\<forall>k. m < k \<and> k \<le> length cs \<longrightarrow> at_index yy_accept (dfa_run s (take k cs)) = 0))"
  using assms
proof (induction cs arbitrary: s n acc)
  case Nil
  then show ?case by simp
next
  case (Cons ch cs)
  define s1 where "s1 = dfa s (class_of ch)"
  let ?acc = "if at_index yy_accept s \<noteq> 0 then (s, n) else acc"
  have step: "yy_next s (yy_class ch) = Some s1" "3 < s1 \<and> s1 < 47"
    using yy_next_dfa [OF Cons.prems, of ch] by (simp_all add: s1_def yy_class_eq)
  have match: "yy_match s n acc (ch # cs) = (if s1 = 46 then Some ?acc else yy_match s1 (n + 1) ?acc cs)"
    by (simp add: step(1) Let_def)
  have run: "dfa_run s (take m (ch # cs)) = (case m of 0 \<Rightarrow> s | Suc k \<Rightarrow> dfa_run s1 (take k cs))" for m
    by (cases m) (simp_all add: s1_def)
  let ?dead = "\<forall>m \<le> length cs. at_index yy_accept (dfa_run s1 (take m cs)) = 0"
  have options: "yy_match s n acc (ch # cs) = Some ?acc \<and> ?dead \<or>
    (\<exists>m \<le> length cs. yy_match s n acc (ch # cs) = Some (dfa_run s1 (take m cs), n + 1 + m)
       \<and> at_index yy_accept (dfa_run s1 (take m cs)) \<noteq> 0
       \<and> (\<forall>k. m < k \<and> k \<le> length cs \<longrightarrow> at_index yy_accept (dfa_run s1 (take k cs)) = 0))"
  proof (cases "s1 = 46")
    case True
    then show ?thesis using match by simp
  next
    case False
    then show ?thesis unfolding match using Cons.IH [of s1 "n + 1" ?acc] step(2) by simp
  qed
  then show ?case
  proof (elim disjE conjE exE)
    assume m: "yy_match s n acc (ch # cs) = Some ?acc" and d: ?dead
    have dead: "at_index yy_accept (dfa_run s (take k (ch # cs))) = 0" if "0 < k" "k \<le> length (ch # cs)" for k
      using that d by (cases k) (simp_all add: s1_def)
    show ?thesis
    proof (cases "at_index yy_accept s = 0")
      case True
      then show ?thesis using m dead by (metis (full_types) dfa_run_simps(1) gr0I take0)
    next
      case False
      then show ?thesis using m dead by (intro disjI2 exI [of _ 0]) simp
    qed
  next
    fix m
    assume m: "m \<le> length cs" "yy_match s n acc (ch # cs) = Some (dfa_run s1 (take m cs), n + 1 + m)"
      "at_index yy_accept (dfa_run s1 (take m cs)) \<noteq> 0"
      "\<forall>k. m < k \<and> k \<le> length cs \<longrightarrow> at_index yy_accept (dfa_run s1 (take k cs)) = 0"
    have "at_index yy_accept (dfa_run s (take k (ch # cs))) = 0" if "Suc m < k" "k \<le> length (ch # cs)" for k
      using that m(4) by (cases k) (simp_all add: s1_def)
    then show ?thesis using m(1-3) by (intro disjI2 exI [of _ "Suc m"]) (simp add: s1_def)
  qed
qed

lemma rule_of_single: "rule_of [ch] \<noteq> 0"
  using map_of_SomeD [of literal_rules "[ch]"]
  by (auto simp: rule_of_def literal_rules_def split: option.split)

lemma yy_match_correct:
  assumes "cs \<noteq> []"
  obtains s n where "yy_match 1 0 (0, 0) cs = Some (s, n)" "at_index yy_accept s = rule_of (take n cs)" "longest_match cs n"
proof -
  have one: "rule_of (take 1 cs) \<noteq> 0" "1 \<le> length cs" using assms by (cases cs; simp add: rule_of_single)+
  then obtain m where m: "m \<le> length cs" "yy_match 1 0 (0, 0) cs = Some (dfa_run 1 (take m cs), m)" "rule_of (take m cs) \<noteq> 0"
    "\<forall>k. m < k \<and> k \<le> length cs \<longrightarrow> rule_of (take k cs) = 0"
    using yy_match_longest [of 1 0 "(0, 0)" cs] unfolding dfa_accepts by auto
  then have "0 < m" using one by (metis less_numeral_extra(1) neq0_conv)
  with m that show ?thesis by (simp add: longest_match_def dfa_accepts)
qed

lemma yy_action_ok: "w \<noteq> [] \<Longrightarrow> list_all lexeme_ok (lexeme_of w)"
  using code_range [of "hd w"] by (auto simp: lexeme_of_def yy_action_def signed_char_def is_operator_def)

lemma yylex_all_tokens: "\<exists>ls. yylex_all cs = Some ls \<and> tokens cs ls \<and> list_all lexeme_ok ls"
proof (induction "length cs" arbitrary: cs rule: less_induct)
  case less
  show ?case
  proof (cases "cs = []")
    case True
    then show ?thesis by (subst yylex_all.simps) (simp add: tokens.none)
  next
    case False
    then obtain s n where m: "yy_match 1 0 (0, 0) cs = Some (s, n)" "at_index yy_accept s = rule_of (take n cs)"
        "longest_match cs n" by (rule yy_match_correct)
    have n: "0 < n" "n \<le> length cs" using m(3) by (simp_all add: longest_match_def)
    then have "length (drop n cs) < length cs" by simp
    with less obtain ls where ls: "yylex_all (drop n cs) = Some ls" "tokens (drop n cs) ls" "list_all lexeme_ok ls"
      by blast
    have "yylex_all cs = Some (lexeme_of (take n cs) @ ls)"
      using False m ls(1) by (subst yylex_all.simps) (simp add: lexeme_of_def)
    moreover have "list_all lexeme_ok (lexeme_of (take n cs))" using n False by (intro yy_action_ok) simp
    ultimately show ?thesis using tokens.token [OF m(3) ls(2)] ls(3) by simp
  qed
qed

theorem yylex_all_correct: "\<exists>ls. yylex_all cs = Some ls \<and> (\<forall>ks. tokens cs ks \<longleftrightarrow> ks = ls)"
  using yylex_all_tokens [of cs] tokens_unique by metis


section \<open>Parsing a text\<close>

text \<open>
  C4. \<open>driver::parse_string\<close> ends on every text, without undefined behaviour. It succeeds exactly when the
  tokens of the text, each the longest that a rule of the scanner matches, derive from the grammar up to
  the end of the file, and it then leaves the query of that derivation in the context.
\<close>

theorem parse_string_correct:
  "\<exists>ls ok q. parse_string input e = Some (Inr (ok, q)) \<and> (\<forall>ks. tokens input ks \<longleftrightarrow> ks = ls)
     \<and> (ok \<longleftrightarrow> (\<exists>a. accepted ls a)) \<and> (\<forall>a. ok \<and> q = Some a \<longleftrightarrow> accepted ls a)"
proof -
  obtain ls where ls: "yylex_all input = Some ls" "tokens input ls" "list_all lexeme_ok ls"
    using yylex_all_tokens by blast
  obtain r p where r: "yyparse ls e = Some (Inr (r, p))" "r = 0 \<longleftrightarrow> (\<exists>q. accepted ls q)"
      "\<forall>q. r = 0 \<and> expression p = Some q \<longleftrightarrow> accepted ls q"
    using yyparse_accepts [OF ls(3)] by blast
  have "parse_string input e = Some (Inr (r = 0, expression p))" by (simp add: parse_string_def ls(1) r(1))
  moreover have "\<forall>ks. tokens input ks \<longleftrightarrow> ks = ls" using ls(2) tokens_unique by blast
  ultimately show ?thesis using r(2,3) by blast
qed

section \<open>Types\<close>

text \<open>What the grammar makes: string values are quoted, operators are those of the scanner.\<close>

fun query_typed :: "query_node \<Rightarrow> bool" where
  "query_typed Query_true \<longleftrightarrow> True"
| "query_typed (Query_tagged s) \<longleftrightarrow> is_quoted s"
| "query_typed (Query_field None field v) \<longleftrightarrow> v = VString None"
| "query_typed (Query_field (Some op) field v) \<longleftrightarrow> (case v of VString s \<Rightarrow> (\<exists>w. s = Some w \<and> is_quoted w) | _ \<Rightarrow> True)"
| "query_typed (Query_and l r) \<longleftrightarrow> query_typed l \<and> query_typed r"
| "query_typed (Query_or l r) \<longleftrightarrow> query_typed l \<and> query_typed r"
| "query_typed (Query_not r) \<longleftrightarrow> query_typed r"

definition string_quoted :: "lexeme \<Rightarrow> bool" where
  "string_quoted l \<longleftrightarrow> (\<forall>s. l = (STRING, StringVal s) \<longrightarrow> is_quoted s)"

lemma rule_quoted: "rule_of w = 15 \<Longrightarrow> is_quoted w"
  using map_of_SomeD [of literal_rules w] by (auto simp: rule_of_def literal_rules_def split: option.splits if_splits)

lemma lexeme_of_quoted: "list_all string_quoted (lexeme_of w)"
  using rule_quoted [of w] by (auto simp: lexeme_of_def yy_action_def string_quoted_def)

lemma tokens_quoted: "tokens cs ls \<Longrightarrow> list_all string_quoted ls"
  by (induction rule: tokens.induct) (simp_all add: lexeme_of_quoted)

lemma action_typed: "gram_action ts q \<Longrightarrow> list_all string_quoted ts \<Longrightarrow> query_typed q"
  by (induction rule: gram_action.induct)
    (auto simp: string_quoted_def query_field_nil_def query_field_string_def query_field_int_def query_field_double_def)

lemma expr_typed:
  "gram_unary ts q \<Longrightarrow> list_all string_quoted ts \<longrightarrow> query_typed q"
  "gram_expr ts q \<Longrightarrow> list_all string_quoted ts \<longrightarrow> query_typed q"
  by (induction rule: gram_unary_gram_expr.inducts) (auto dest: action_typed)

lemma start_typed: "gram_start ts q \<Longrightarrow> list_all string_quoted ts \<Longrightarrow> query_typed q"
  by (induction rule: gram_start.induct) (auto dest: expr_typed)

lemma accepted_typed: "accepted ls q \<Longrightarrow> list_all string_quoted ls \<Longrightarrow> query_typed q"
  unfolding accepted_def using start_typed by fastforce


text \<open>The errors that a compiled query can raise on an event.\<close>

definition benign :: "runtime \<Rightarrow> query_fn_t \<Rightarrow> bool" where
  "benign rt f \<longleftrightarrow> (\<forall>ev x. f ev = Inl x \<longrightarrow> x = Out_of_range \<or> (\<exists>v re. regex_fn rt v re = Inl x))"

lemma strip_value_total: "\<exists>w. strip_value v = Inr w"
  by (simp add: strip_value_def substr_def)

lemma is_quoted_length: "is_quoted s \<Longrightarrow> 2 \<le> length s"
  by (auto simp: is_quoted_def)

lemma benign_compare: "\<exists>v re. compare_string rt l r op = Inl x \<longrightarrow> regex_fn rt v re = Inl x"
  by (auto simp: compare_string_def match_like_def match_regex_def)

lemma benign_string: "\<exists>f. evaluate_string rt op field v = Inr f \<and> benign rt f"
proof -
  obtain w where w: "strip_value v = Inr w" using strip_value_total by blast
  have "benign rt (\<lambda>ev. compare_string rt (g ev) w op1)" for g op1
    unfolding benign_def using benign_compare by blast
  moreover have "benign rt (\<lambda>ev. if h ev then compare_string rt (g ev) w op1 else Inr False)" for g h op1
    unfolding benign_def using benign_compare by (metis sum.distinct(1))
  ultimately show ?thesis by (simp add: evaluate_string_def w)
qed

lemma benign_int: "benign rt (evaluate_int op field i)"
  by (auto simp: benign_def evaluate_int_def catch_invalid_def stoi_def split: if_splits sum.splits exn.splits option.splits)

lemma benign_double: "benign rt (evaluate_double op field i)"
  by (auto simp: benign_def evaluate_double_def catch_invalid_def stod_def split: if_splits sum.splits exn.splits option.splits)

lemma benign_connectives:
  assumes "benign rt f" "benign rt g"
  shows "benign rt (\<lambda>e. bind_exn (f e) (\<lambda>b. if b then g e else Inr False))"
    "benign rt (\<lambda>e. bind_exn (f e) (\<lambda>b. if b then Inr True else g e))"
    "benign rt (\<lambda>e. bind_exn (f e) (\<lambda>b. Inr (\<not> b)))"
  using assms by (auto simp: benign_def bind_exn_def split: sum.splits if_splits)

lemma typed_evaluates: "query_typed q \<Longrightarrow> \<exists>f. evaluate rt q = Inr f \<and> benign rt f"
proof (induction q rule: query_typed.induct)
  case (2 s)
  then show ?case using is_quoted_length [of s] by (cases s) (simp_all add: substr_def benign_def)
next
  case (4 op field v)
  show ?case
  proof (cases v)
    case (VString s)
    with 4 benign_string [of rt op field] show ?thesis by (auto simp: evaluate_field_def)
  qed (simp_all add: evaluate_field_def benign_int benign_double)
next
  case (5 l r)
  then show ?case using benign_connectives(1) by fastforce
next
  case (6 l r)
  then show ?case using benign_connectives(2) by fastforce
next
  case (7 r)
  then show ?case using benign_connectives(3) by fastforce
qed (simp_all add: benign_def evaluate_field_def evaluate_nil_def)

text \<open>
  C17. A query text that parses compiles to a predicate on events: no node has a value of the wrong type or
  a string without its quotes. The predicate raises nothing but what the regular expressions raise and
  the \<open>std::out_of_range\<close> of an attribute whose number does not fit.
\<close>

theorem parsed_query_evaluates:
  assumes "parse_string input e = Some (Inr (True, q))"
  shows "\<exists>f. context_evaluate rt q = Inr f
    \<and> (\<forall>ev x. f ev = Inl x \<longrightarrow> x = Out_of_range \<or> (\<exists>v re. regex_fn rt v re = Inl x))"
proof -
  obtain ls where ls: "yylex_all input = Some ls" "tokens input ls" "list_all lexeme_ok ls"
    using yylex_all_tokens by blast
  with assms yyparse_accepts [OF ls(3), of e] obtain a where "q = Some a" "accepted ls a"
    by (auto simp: parse_string_def)
  moreover from this have "query_typed a" using accepted_typed tokens_quoted [OF ls(2)] by blast
  ultimately show ?thesis
    using typed_evaluates [of a rt] by (auto simp: context_evaluate_def benign_def)
qed


declare yylex_all.simps [code] yyloop.simps [code]

theorem parsed_query_evaluates_witness:
  "\<exists>f. context_evaluate (rt_at 5) (Some (Query_and (Query_tagged [quote, CHR ''a'', quote]) (query_field_int ''metric'' 2 ''>='')))
      = Inr f \<and> \<not> (\<exists>ev x. f ev = Inl x \<and> x \<noteq> Out_of_range)"
proof -
  let ?q = "Query_and (Query_tagged [quote, CHR ''a'', quote]) (query_field_int ''metric'' 2 ''>='')"
  let ?in = "''tagged '' @ [quote, CHR ''a'', quote] @ '' and metric >= 2''"
  have "parse_string ?in None = Some (Inr (True, Some ?q))" by code_simp
  from parsed_query_evaluates [OF this, of "rt_at 5"] show ?thesis by (auto simp: rt_at_def)
qed

end
