(* ===== verification/Tcp_Pool.thy ===== *)
theory Tcp_Pool
  imports Tcp Util
begin

text \<open>
  \<open>transport/tcp_pool.cpp\<close> over \<open>pool/async_thread_pool.cpp\<close> and the descriptors of
  \<open>async/real_async_loop.cpp\<close>: threads with an event loop each that share out connections. What every
  user of a pool can rely on is proved once for the laws a user keeps to.
\<close>

section \<open>File descriptors of an event loop\<close>

datatype fd_mode = Mode_none | Mode_read | Mode_write | Mode_readwrite

text \<open>What libev reports about a descriptor: an error, and what reading and writing will do when it is ready.\<close>

record io =
  io_error :: bool
  io_read :: "recv_fn option"
  io_write :: "(byte list \<Rightarrow> nat option) option"

text \<open>
  A pool of threads with an event loop each. For every loop: the descriptors handed to it that it has not
  taken over yet, whether a signal is pending, the descriptors it watches, the connections; then the
  descriptors that were closed, in order, and the state of whoever uses the pool.
\<close>

record 'c tcp_pool =
  next_thread :: nat
  stop_flag :: bool
  signalled :: "bool list"
  new_fds :: "int list list"
  loop_fds :: "(int, fd_mode) um list"
  conn_maps :: "(int, tcp_connection) um list"
  closed_fds :: "int list"
  client :: 'c

definition on_loop :: "nat \<Rightarrow> ('a \<Rightarrow> 'a) \<Rightarrow> 'a list \<Rightarrow> 'a list" where
  "on_loop i f xs = xs[i := f (xs ! i)]"

definition thread_num :: "'c tcp_pool \<Rightarrow> nat" where
  "thread_num p = length (new_fds p)"

definition new_tcp_pool :: "nat \<Rightarrow> 'c \<Rightarrow> exn + 'c tcp_pool" where
  "new_tcp_pool n c =
     (if n < 1 then Inl Check_failed
      else Inr \<lparr>next_thread = 0, stop_flag = False, signalled = replicate n False, new_fds = replicate n [],
                loop_fds = replicate n [], conn_maps = replicate n [], closed_fds = [], client = c\<rparr>)"

text \<open>
  \<open>real_async_loop\<close>. A watcher closes its descriptor when it is destroyed; adding one for a descriptor that
  has one destroys the new watcher at once.
\<close>

definition add_fd :: "nat \<Rightarrow> int \<Rightarrow> fd_mode \<Rightarrow> 'c tcp_pool \<Rightarrow> 'c tcp_pool" where
  "add_fd i fd mode p =
     (case map_of (loop_fds p ! i) fd of
        None \<Rightarrow> p\<lparr>loop_fds := on_loop i (\<lambda>m. um_set m fd mode) (loop_fds p)\<rparr>
      | Some _ \<Rightarrow> p\<lparr>closed_fds := closed_fds p @ [fd]\<rparr>)"

definition remove_fd :: "nat \<Rightarrow> int \<Rightarrow> 'c tcp_pool \<Rightarrow> 'c tcp_pool" where
  "remove_fd i fd p =
     (case map_of (loop_fds p ! i) fd of
        None \<Rightarrow> p
      | Some _ \<Rightarrow> p\<lparr>loop_fds := on_loop i (\<lambda>m. um_erase m fd) (loop_fds p), closed_fds := closed_fds p @ [fd]\<rparr>)"

definition set_fd_mode :: "nat \<Rightarrow> int \<Rightarrow> fd_mode \<Rightarrow> 'c tcp_pool \<Rightarrow> exn + 'c tcp_pool" where
  "set_fd_mode i fd mode p =
     (case map_of (loop_fds p ! i) fd of
        None \<Rightarrow> Inl Undefined
      | Some _ \<Rightarrow> Inr (p\<lparr>loop_fds := on_loop i (\<lambda>m. um_set m fd mode) (loop_fds p)\<rparr>))"

section \<open>The pool\<close>

text \<open>\<open>async_thread_pool\<close>. A signal that is pending absorbs further ones.\<close>

definition take_next_thread :: "'c tcp_pool \<Rightarrow> nat \<times> 'c tcp_pool" where
  "take_next_thread p = (let t = (next_thread p + 1) mod thread_num p in (t, p\<lparr>next_thread := t\<rparr>))"

definition signal_thread :: "nat \<Rightarrow> 'c tcp_pool \<Rightarrow> exn + 'c tcp_pool" where
  "signal_thread i p =
     (if thread_num p \<le> i then Inl Check_failed else Inr (p\<lparr>signalled := (signalled p)[i := True]\<rparr>))"

definition stop_threads :: "'c tcp_pool \<Rightarrow> 'c tcp_pool" where
  "stop_threads p =
     (if stop_flag p then p else p\<lparr>stop_flag := True, signalled := map (\<lambda>_. True) (signalled p)\<rparr>)"

text \<open>\<open>tcp_pool\<close>. Its users pass what to do with a new connection, a ready one and a signal.\<close>

definition add_client_to :: "nat \<Rightarrow> int \<Rightarrow> 'c tcp_pool \<Rightarrow> exn + 'c tcp_pool" where
  "add_client_to i fd p = signal_thread i (p\<lparr>new_fds := on_loop i (\<lambda>q. q @ [fd]) (new_fds p)\<rparr>)"

definition add_client :: "int \<Rightarrow> 'c tcp_pool \<Rightarrow> exn + 'c tcp_pool" where
  "add_client fd p = (let (t, p1) = take_next_thread p in add_client_to t fd p1)"

definition add_client_sync :: "nat \<Rightarrow> int \<Rightarrow> 'c tcp_pool \<Rightarrow> 'c tcp_pool" where
  "add_client_sync i fd p =
     (let p1 = add_fd i fd Mode_none p
      in p1\<lparr>conn_maps := on_loop i (\<lambda>m. map_insert m fd new_connection) (conn_maps p1)\<rparr>)"

definition remove_client_sync :: "nat \<Rightarrow> int \<Rightarrow> 'c tcp_pool \<Rightarrow> exn + 'c tcp_pool" where
  "remove_client_sync i fd p =
     (case map_of (conn_maps p ! i) fd of
        None \<Rightarrow> Inl Check_failed
      | Some _ \<Rightarrow> Inr (remove_fd i fd (p\<lparr>conn_maps := on_loop i (\<lambda>m. um_erase m fd) (conn_maps p)\<rparr>)))"

definition signal_threads :: "'c tcp_pool \<Rightarrow> exn + 'c tcp_pool" where
  "signal_threads p = fold (\<lambda>i r. bind_exn r (signal_thread i)) [0..<thread_num p] (Inr p)"

type_synonym 'c create_fn = "nat \<Rightarrow> int \<Rightarrow> 'c tcp_pool \<Rightarrow> 'c tcp_pool"
type_synonym 'c ready_fn = "nat \<Rightarrow> int \<Rightarrow> io \<Rightarrow> 'c tcp_pool \<Rightarrow> exn + 'c tcp_pool"
type_synonym 'c async_fn = "nat \<Rightarrow> 'c tcp_pool \<Rightarrow> exn + 'c tcp_pool"

text \<open>One turn of the loop of \<open>add_fds\<close>, and the loop over the queue it took.\<close>

definition take_fd :: "'c create_fn \<Rightarrow> nat \<Rightarrow> int \<Rightarrow> 'c tcp_pool \<Rightarrow> 'c tcp_pool" where
  "take_fd create i fd p =
     (let p1 = add_fd i fd Mode_read p
      in create i fd (p1\<lparr>conn_maps := on_loop i (\<lambda>m. map_insert m fd new_connection) (conn_maps p1)\<rparr>))"

definition add_fds :: "'c create_fn \<Rightarrow> nat \<Rightarrow> 'c tcp_pool \<Rightarrow> 'c tcp_pool" where
  "add_fds create i p = fold (take_fd create i) (new_fds p ! i) (p\<lparr>new_fds := (new_fds p)[i := []]\<rparr>)"

definition async_hook :: "'c create_fn \<Rightarrow> 'c async_fn \<Rightarrow> nat \<Rightarrow> 'c tcp_pool \<Rightarrow> exn + 'c tcp_pool" where
  "async_hook create async i p = async i (if new_fds p = [] then p else add_fds create i p)"

definition async_callback :: "'c create_fn \<Rightarrow> 'c async_fn \<Rightarrow> nat \<Rightarrow> 'c tcp_pool \<Rightarrow> exn + 'c tcp_pool" where
  "async_callback create async i p =
     (let p1 = p\<lparr>signalled := (signalled p)[i := False]\<rparr>
      in if stop_flag p1 then Inr p1 else async_hook create async i p1)"

definition closing :: "nat \<Rightarrow> int \<Rightarrow> 'c tcp_pool \<Rightarrow> bool" where
  "closing i fd p \<longleftrightarrow> (\<exists>c. map_of (conn_maps p ! i) fd = Some c \<and> close_connection c)"

definition socket_callback :: "'c ready_fn \<Rightarrow> nat \<Rightarrow> int \<Rightarrow> io \<Rightarrow> 'c tcp_pool \<Rightarrow> exn + 'c tcp_pool" where
  "socket_callback ready i fd x p =
     (case map_of (conn_maps p ! i) fd of
        None \<Rightarrow> Inl Check_failed
      | Some _ \<Rightarrow>
          bind_exn (ready i fd x p) (\<lambda>p1.
            Inr (if closing i fd p1
                 then (let p2 = remove_fd i fd p1 in p2\<lparr>conn_maps := on_loop i (\<lambda>m. um_erase m fd) (conn_maps p2)\<rparr>)
                 else p1)))"


section \<open>What happens to a pool\<close>

text \<open>
  A connection is accepted, a loop sees its signal, or libev finds a watched descriptor ready. The kernel
  never gives out a descriptor that is open.
\<close>

datatype pool_event = Connect int | Wake nat | Ready nat int io

definition watched :: "nat \<Rightarrow> 'c tcp_pool \<Rightarrow> int list" where
  "watched i p = map fst (loop_fds p ! i)"

definition open_fds :: "'c tcp_pool \<Rightarrow> int list" where
  "open_fds p = concat (new_fds p) @ concat (map (map fst) (loop_fds p))"

definition possible :: "'c tcp_pool \<Rightarrow> pool_event \<Rightarrow> bool" where
  "possible p e =
     (case e of
        Connect fd \<Rightarrow> fd \<notin> set (open_fds p)
      | Wake i \<Rightarrow> i < thread_num p \<and> signalled p ! i
      | Ready i fd x \<Rightarrow> i < thread_num p \<and> fd \<in> set (watched i p))"

definition pool_do :: "'c create_fn \<Rightarrow> 'c ready_fn \<Rightarrow> 'c async_fn \<Rightarrow> pool_event \<Rightarrow> 'c tcp_pool \<Rightarrow> exn + 'c tcp_pool" where
  "pool_do create ready async e p =
     (case e of
        Connect fd \<Rightarrow> add_client fd p
      | Wake i \<Rightarrow> async_callback create async i p
      | Ready i fd x \<Rightarrow> socket_callback ready i fd x p)"

inductive pool_run :: "'c create_fn \<Rightarrow> 'c ready_fn \<Rightarrow> 'c async_fn \<Rightarrow> 'c tcp_pool \<Rightarrow> pool_event list \<Rightarrow> 'c tcp_pool \<Rightarrow> bool"
  for create ready async p
where
  start: "pool_run create ready async p [] p"
| step: "pool_run create ready async p es q \<Longrightarrow> possible q e \<Longrightarrow> pool_do create ready async e q = Inr r \<Longrightarrow>
    pool_run create ready async p (es @ [e]) r"

fun accepted_fd :: "pool_event \<Rightarrow> int list" where
  "accepted_fd (Connect fd) = [fd]"
| "accepted_fd _ = []"

definition accepted_fds :: "pool_event list \<Rightarrow> int list" where
  "accepted_fds es = concat (map accepted_fd es)"

section \<open>The invariant\<close>

definition lkeys :: "'c tcp_pool \<Rightarrow> int list list" where "lkeys p = map (map fst) (loop_fds p)"

definition ckeys :: "'c tcp_pool \<Rightarrow> int list list" where "ckeys p = map (map fst) (conn_maps p)"

text \<open>
  Every descriptor has one owner, the connections of a loop are those it watches, and a loop with
  descriptors to take over has a signal pending.
\<close>

definition pool_inv :: "'c tcp_pool \<Rightarrow> bool" where
  "pool_inv p \<longleftrightarrow> 0 < thread_num p \<and> \<not> stop_flag p \<and> length (signalled p) = thread_num p
     \<and> length (loop_fds p) = thread_num p \<and> length (conn_maps p) = thread_num p
     \<and> distinct (open_fds p)
     \<and> (\<forall>i < thread_num p. distinct (ckeys p ! i) \<and> set (ckeys p ! i) = set (lkeys p ! i)
          \<and> (new_fds p ! i \<noteq> [] \<longrightarrow> signalled p ! i))"

text \<open>What a user of the pool may change while it handles a callback.\<close>

definition keeps_tables :: "'c tcp_pool \<Rightarrow> 'c tcp_pool \<Rightarrow> bool" where
  "keeps_tables p q \<longleftrightarrow> new_fds q = new_fds p \<and> stop_flag q = stop_flag p \<and> closed_fds q = closed_fds p \<and> lkeys q = lkeys p \<and> ckeys q = ckeys p
     \<and> list_all2 (\<longrightarrow>) (signalled p) (signalled q)"

lemma keeps_tables_refl: "keeps_tables p p"
  by (simp add: keeps_tables_def list_all2_conv_all_nth)

lemma keeps_tables_trans: "keeps_tables p q \<Longrightarrow> keeps_tables q r \<Longrightarrow> keeps_tables p r"
  by (auto simp: keeps_tables_def list_all2_conv_all_nth)

lemma keeps_tables_thread_num: "keeps_tables p q \<Longrightarrow> thread_num q = thread_num p"
  by (simp add: keeps_tables_def thread_num_def)

lemma keeps_tables_inv:
  assumes "keeps_tables p q" "pool_inv p"
  shows "pool_inv q"
proof -
  have "length (loop_fds q) = length (loop_fds p)" "length (conn_maps q) = length (conn_maps p)"
    using assms(1) unfolding keeps_tables_def lkeys_def ckeys_def by (metis length_map)+
  with assms show ?thesis
    by (auto simp: keeps_tables_def pool_inv_def thread_num_def open_fds_def lkeys_def list_all2_conv_all_nth)
qed

lemma keys_um_set: "map fst (um_set m k v) = (if k \<in> set (map fst m) then map fst m else map fst m @ [k])"
  by (simp add: um_set_def update_keys)

lemma keys_map_insert: "map fst (map_insert m k v) = (if k \<in> set (map fst m) then map fst m else map fst m @ [k])"
  by (auto simp: map_insert_def map_of_eq_None_iff image_iff)

lemma keys_um_erase: "map fst (um_erase m k) = removeAll k (map fst m)"
  by (induction m) (auto simp: um_erase_def)

lemma map_on_loop: "map f (on_loop i g xs) = (map f xs)[i := f (g (xs ! i))]"
  by (simp add: on_loop_def map_update)

lemma length_on_loop [simp]: "length (on_loop i g xs) = length xs"
  by (simp add: on_loop_def)

lemma mset_concat_update:
  assumes "i < length xs"
  shows "mset (concat (xs[i := ys])) + mset (xs ! i) = mset (concat xs) + mset ys"
proof -
  have "concat xs = concat (take i xs) @ xs ! i @ concat (drop (Suc i) xs)"
    using assms by (subst id_take_nth_drop [OF assms]) simp
  moreover have "concat (xs[i := ys]) = concat (take i xs) @ ys @ concat (drop (Suc i) xs)"
    using assms by (simp add: upd_conv_take_nth_drop)
  ultimately show ?thesis by (simp add: ac_simps)
qed


lemma open_fds_eq: "mset (open_fds p) = mset (concat (new_fds p)) + mset (concat (lkeys p))"
  by (simp add: open_fds_def lkeys_def)

lemma open_fds_cong: "new_fds q = new_fds p \<Longrightarrow> lkeys q = lkeys p \<Longrightarrow> open_fds q = open_fds p"
  by (simp add: open_fds_def lkeys_def)

lemma concat_nth:
  assumes "i < length xs"
  shows "set (xs ! i) \<subseteq> set (concat xs)" "distinct (concat xs) \<Longrightarrow> distinct (xs ! i)"
  using nth_mem [OF assms] by (auto simp: distinct_concat_iff)

lemma owned_distinct:
  assumes "distinct (open_fds p)" "i < length (new_fds p)" "i < length (lkeys p)"
  shows "distinct (new_fds p ! i @ lkeys p ! i)"
proof -
  have "distinct (concat (new_fds p))" "distinct (concat (lkeys p))" "set (concat (new_fds p)) \<inter> set (concat (lkeys p)) = {}"
    using assms(1) by (simp_all add: open_fds_def lkeys_def)
  with concat_nth [OF assms(2)] concat_nth [OF assms(3)] show ?thesis unfolding distinct_append by blast
qed

lemma pool_inv_lengths:
  assumes "pool_inv p"
  shows "length (new_fds p) = thread_num p" "length (lkeys p) = thread_num p" "length (ckeys p) = thread_num p"
    "length (signalled p) = thread_num p" "length (loop_fds p) = thread_num p" "length (conn_maps p) = thread_num p"
  using assms by (simp_all add: pool_inv_def thread_num_def lkeys_def ckeys_def)

lemma add_client_inv:
  assumes "pool_inv p" "fd \<notin> set (open_fds p)"
  shows "\<exists>q. add_client fd p = Inr q \<and> pool_inv q \<and> mset (open_fds q) = add_mset fd (mset (open_fds p))
    \<and> closed_fds q = closed_fds p \<and> client q = client p \<and> conn_maps q = conn_maps p \<and> thread_num q = thread_num p"
proof -
  define t where "t = (next_thread p + 1) mod thread_num p"
  have t: "t < thread_num p" "t = Suc (next_thread p) mod thread_num p" using assms(1) by (simp_all add: t_def pool_inv_def)
  let ?q = "p\<lparr>next_thread := t, new_fds := on_loop t (\<lambda>q. q @ [fd]) (new_fds p), signalled := (signalled p)[t := True]\<rparr>"
  have n: "thread_num ?q = thread_num p" by (simp add: thread_num_def)
  have q: "add_client fd p = Inr ?q"
    using t(1) by (simp add: add_client_def take_next_thread_def add_client_to_def signal_thread_def Let_def
      flip: t(2)) (simp add: thread_num_def)
  have m: "mset (open_fds ?q) = add_mset fd (mset (open_fds p))"
    using mset_concat_update [of t "new_fds p" "new_fds p ! t @ [fd]"] t pool_inv_lengths [OF assms(1)]
    by (simp add: open_fds_eq on_loop_def lkeys_def)
  then have d: "distinct (open_fds ?q)"
    using mset_eq_imp_distinct_iff [of "open_fds ?q" "fd # open_fds p"] assms by (simp add: pool_inv_def)
  have k: "lkeys ?q = lkeys p" "ckeys ?q = ckeys p" by (simp_all add: lkeys_def ckeys_def)
  have "pool_inv ?q"
    using assms(1) t(1) d unfolding pool_inv_def n k by (simp add: on_loop_def nth_list_update)
  with q m n show ?thesis by auto
qed

text \<open>Closing a connection takes its descriptor out of every table.\<close>

definition drop_fd :: "nat \<Rightarrow> int \<Rightarrow> 'c tcp_pool \<Rightarrow> 'c tcp_pool" where
  "drop_fd i fd p =
     (let p2 = remove_fd i fd p in p2\<lparr>conn_maps := on_loop i (\<lambda>m. um_erase m fd) (conn_maps p2)\<rparr>)"

lemma drop_fd_inv:
  assumes "pool_inv p" "i < thread_num p" "fd \<in> set (lkeys p ! i)"
  shows "pool_inv (drop_fd i fd p) \<and> add_mset fd (mset (open_fds (drop_fd i fd p))) = mset (open_fds p)
    \<and> closed_fds (drop_fd i fd p) = closed_fds p @ [fd] \<and> client (drop_fd i fd p) = client p
    \<and> ckeys (drop_fd i fd p) = (ckeys p)[i := removeAll fd (ckeys p ! i)] \<and> thread_num (drop_fd i fd p) = thread_num p"
proof -
  let ?q = "drop_fd i fd p"
  note lens = pool_inv_lengths [OF assms(1)]
  have "map_of (loop_fds p ! i) fd \<noteq> None"
    using assms(2,3) lens by (auto simp: lkeys_def map_of_eq_None_iff)
  then have q: "?q = p\<lparr>loop_fds := on_loop i (\<lambda>m. um_erase m fd) (loop_fds p),
      conn_maps := on_loop i (\<lambda>m. um_erase m fd) (conn_maps p), closed_fds := closed_fds p @ [fd]\<rparr>"
    by (auto simp: drop_fd_def remove_fd_def Let_def)
  have n: "thread_num ?q = thread_num p" by (simp add: q thread_num_def)
  have c: "ckeys ?q = (ckeys p)[i := removeAll fd (ckeys p ! i)]" and l: "lkeys ?q = (lkeys p)[i := removeAll fd (lkeys p ! i)]"
    using assms(2) lens by (simp_all add: q ckeys_def lkeys_def map_on_loop keys_um_erase)
  have d: "distinct (lkeys p ! i)" using owned_distinct [of p i] assms(1,2) lens by (simp add: pool_inv_def)
  let ?rest = "removeAll fd (lkeys p ! i)"
  have "mset (lkeys p ! i) = mset ?rest + {#fd#}"
    using d assms(3) by (simp add: distinct_remove1_removeAll [symmetric])
  with mset_concat_update [of i "lkeys p" ?rest] assms(2) lens
  have "(mset (concat ((lkeys p)[i := ?rest])) + {#fd#}) + mset ?rest = mset (concat (lkeys p)) + mset ?rest"
    by (simp add: ac_simps)
  then have "mset (concat (lkeys p)) = add_mset fd (mset (concat ((lkeys p)[i := ?rest])))"
    unfolding add_right_cancel by simp
  then have m: "add_mset fd (mset (open_fds ?q)) = mset (open_fds p)"
    by (simp add: open_fds_eq l) (simp add: q)
  then have "distinct (open_fds ?q)"
    using mset_eq_imp_distinct_iff [of "fd # open_fds ?q" "open_fds p"] assms(1) by (simp add: pool_inv_def)
  then have "pool_inv ?q"
    using assms lens unfolding pool_inv_def n c l by (auto simp: q nth_list_update distinct_removeAll)
  with m c n show ?thesis by (simp add: q)
qed


section \<open>Users of a pool\<close>

text \<open>
  What a user of the pool promises: it keeps to the tables it may touch, knows exactly the connections of
  each loop, and forgets one when it asks for it to be closed. \<open>sized\<close> says that its own tables fit the
  number of loops.
\<close>

locale pool_user =
  fixes create :: "'c create_fn" and ready :: "'c ready_fn" and async :: "'c async_fn"
    and tracked :: "'c \<Rightarrow> nat \<Rightarrow> int set" and sized :: "nat \<Rightarrow> 'c \<Rightarrow> bool"
  assumes create_ok: "sized (thread_num p) (client p) \<Longrightarrow> i < thread_num p \<Longrightarrow> fd \<notin> tracked (client p) i \<Longrightarrow>
      keeps_tables p (create i fd p) \<and> sized (thread_num p) (client (create i fd p))
      \<and> tracked (client (create i fd p)) = (tracked (client p))(i := insert fd (tracked (client p) i))"
    and ready_ok: "pool_inv p \<Longrightarrow> sized (thread_num p) (client p) \<Longrightarrow>
      (\<And>j. j < thread_num p \<Longrightarrow> tracked (client p) j = set (ckeys p ! j)) \<Longrightarrow>
      i < thread_num p \<Longrightarrow> fd \<in> set (ckeys p ! i) \<Longrightarrow> ready i fd x p = Inr q \<Longrightarrow>
      keeps_tables p q \<and> sized (thread_num p) (client q)
      \<and> tracked (client q) = (if closing i fd q then (tracked (client p))(i := tracked (client p) i - {fd})
                              else tracked (client p))"
    and async_ok: "pool_inv p \<Longrightarrow> sized (thread_num p) (client p) \<Longrightarrow>
      (\<And>j. j < thread_num p \<Longrightarrow> tracked (client p) j = set (ckeys p ! j)) \<Longrightarrow> i < thread_num p \<Longrightarrow> async i p = Inr q \<Longrightarrow>
      keeps_tables p q \<and> sized (thread_num p) (client q) \<and> tracked (client q) = tracked (client p)"
begin

definition consistent :: "'c tcp_pool \<Rightarrow> bool" where
  "consistent p \<longleftrightarrow> pool_inv p \<and> sized (thread_num p) (client p)
     \<and> (\<forall>j < thread_num p. tracked (client p) j = set (ckeys p ! j))"

lemma take_fd_ok:
  assumes "i < thread_num p" "length (loop_fds p) = thread_num p" "length (conn_maps p) = thread_num p"
    "sized (thread_num p) (client p)" "fd \<notin> set (lkeys p ! i)" "fd \<notin> set (ckeys p ! i)" "fd \<notin> tracked (client p) i"
  defines "q \<equiv> take_fd create i fd p"
  shows "new_fds q = new_fds p" "closed_fds q = closed_fds p \<and> stop_flag q = stop_flag p" "list_all2 (\<longrightarrow>) (signalled p) (signalled q)"
    "lkeys q = (lkeys p)[i := lkeys p ! i @ [fd]]" "ckeys q = (ckeys p)[i := ckeys p ! i @ [fd]]"
    "sized (thread_num p) (client q)" "tracked (client q) = (tracked (client p))(i := insert fd (tracked (client p) i))"
proof -
  let ?p = "p\<lparr>loop_fds := on_loop i (\<lambda>m. um_set m fd Mode_read) (loop_fds p),
      conn_maps := on_loop i (\<lambda>m. map_insert m fd new_connection) (conn_maps p)\<rparr>"
  have "map_of (loop_fds p ! i) fd = None"
    using assms(1,2,5) by (simp add: lkeys_def map_of_eq_None_iff)
  then have q: "q = create i fd ?p" by (simp add: q_def take_fd_def add_fd_def Let_def)
  have keys: "lkeys ?p = (lkeys p)[i := lkeys p ! i @ [fd]]" "ckeys ?p = (ckeys p)[i := ckeys p ! i @ [fd]]"
    using assms(1-3,5,6) by (simp_all add: lkeys_def ckeys_def map_on_loop keys_um_set keys_map_insert)
  have n: "thread_num ?p = thread_num p" by (simp add: thread_num_def)
  from create_ok [of ?p i fd] assms(1,4,7) have "keeps_tables ?p q" "sized (thread_num p) (client q)"
    "tracked (client q) = (tracked (client p))(i := insert fd (tracked (client p) i))" by (simp_all add: n q)
  then show "new_fds q = new_fds p" "closed_fds q = closed_fds p \<and> stop_flag q = stop_flag p" "list_all2 (\<longrightarrow>) (signalled p) (signalled q)"
    "lkeys q = (lkeys p)[i := lkeys p ! i @ [fd]]" "ckeys q = (ckeys p)[i := ckeys p ! i @ [fd]]"
    "sized (thread_num p) (client q)" "tracked (client q) = (tracked (client p))(i := insert fd (tracked (client p) i))"
    unfolding keeps_tables_def keys by simp_all
qed

lemma take_fds_ok:
  assumes "i < thread_num p" "length (loop_fds p) = thread_num p" "length (conn_maps p) = thread_num p"
    "sized (thread_num p) (client p)" "distinct (fds @ lkeys p ! i)" "set (ckeys p ! i) = set (lkeys p ! i)"
    "distinct (ckeys p ! i)" "tracked (client p) i = set (ckeys p ! i)"
  shows "\<exists>q. fold (take_fd create i) fds p = q \<and> new_fds q = new_fds p \<and> closed_fds q = closed_fds p
    \<and> stop_flag q = stop_flag p \<and> list_all2 (\<longrightarrow>) (signalled p) (signalled q) \<and> lkeys q = (lkeys p)[i := lkeys p ! i @ fds]
    \<and> ckeys q = (ckeys p)[i := ckeys p ! i @ fds] \<and> sized (thread_num p) (client q)
    \<and> tracked (client q) = (tracked (client p))(i := set (ckeys p ! i @ fds))"
  using assms
proof (induction fds arbitrary: p)
  case Nil
  then show ?case by (auto simp: list_all2_conv_all_nth fun_eq_iff)
next
  case (Cons fd fds)
  let ?q = "take_fd create i fd p"
  have fresh: "fd \<notin> set (lkeys p ! i)" "fd \<notin> set (ckeys p ! i)" "fd \<notin> tracked (client p) i" using Cons.prems by auto
  note t = take_fd_ok [OF Cons.prems(1-4) fresh]
  have n: "thread_num ?q = thread_num p" using t(1) by (simp add: thread_num_def)
  have lens: "length (lkeys p) = thread_num p" "length (ckeys p) = thread_num p" "length (loop_fds ?q) = thread_num p"
      "length (conn_maps ?q) = thread_num p"
    using Cons.prems(2,3) arg_cong [OF t(4), of length] arg_cong [OF t(5), of length] by (simp_all add: lkeys_def ckeys_def)
  have "\<exists>q. fold (take_fd create i) fds ?q = q \<and> new_fds q = new_fds ?q \<and> closed_fds q = closed_fds ?q
    \<and> stop_flag q = stop_flag ?q \<and> list_all2 (\<longrightarrow>) (signalled ?q) (signalled q) \<and> lkeys q = (lkeys ?q)[i := lkeys ?q ! i @ fds]
    \<and> ckeys q = (ckeys ?q)[i := ckeys ?q ! i @ fds] \<and> sized (thread_num ?q) (client q)
    \<and> tracked (client q) = (tracked (client ?q))(i := set (ckeys ?q ! i @ fds))"
    using Cons.prems t lens n by (intro Cons.IH) auto
  moreover have "list_all2 (\<longrightarrow>) (signalled p) s" if "list_all2 (\<longrightarrow>) (signalled ?q) s" for s
    using that t(3) by (simp add: list_all2_conv_all_nth)
  ultimately show ?case using t lens n Cons.prems(1) by (simp add: fun_eq_iff)
qed


text \<open>Taking over the descriptors that were handed to a loop moves them and loses none.\<close>

lemma add_fds_ok:
  assumes "consistent p" "i < thread_num p"
  defines "q \<equiv> add_fds create i (p\<lparr>signalled := (signalled p)[i := False]\<rparr>)"
  shows "consistent q \<and> thread_num q = thread_num p \<and> mset (open_fds q) = mset (open_fds p) \<and> closed_fds q = closed_fds p"
proof -
  have inv: "pool_inv p" using assms(1) by (simp add: consistent_def)
  note lens = pool_inv_lengths [OF inv]
  let ?p = "p\<lparr>signalled := (signalled p)[i := False], new_fds := (new_fds p)[i := []]\<rparr>"
  have keys: "lkeys ?p = lkeys p" "ckeys ?p = ckeys p" and n: "thread_num ?p = thread_num p"
    by (simp_all add: lkeys_def ckeys_def thread_num_def)
  have own: "distinct (new_fds p ! i @ lkeys p ! i)"
    using owned_distinct [of p i] inv assms(2) lens by (simp add: pool_inv_def)
  have "q = fold (take_fd create i) (new_fds p ! i) ?p" by (simp add: q_def add_fds_def)
  with take_fds_ok [of i ?p "new_fds p ! i"] assms(1,2) lens own
  have q: "new_fds q = (new_fds p)[i := []]" "closed_fds q = closed_fds p \<and> \<not> stop_flag q"
      "list_all2 (\<longrightarrow>) ((signalled p)[i := False]) (signalled q)" "lkeys q = (lkeys p)[i := lkeys p ! i @ new_fds p ! i]"
      "ckeys q = (ckeys p)[i := ckeys p ! i @ new_fds p ! i]" "sized (thread_num p) (client q)"
      "tracked (client q) = (tracked (client p))(i := set (ckeys p ! i @ new_fds p ! i))"
    unfolding keys n by (auto simp: consistent_def pool_inv_def)
  have nq: "thread_num q = thread_num p" by (simp add: thread_num_def q(1))
  have lq: "length (signalled q) = thread_num p" "length (loop_fds q) = thread_num p" "length (conn_maps q) = thread_num p"
    using q(3) arg_cong [OF q(4), of length] arg_cong [OF q(5), of length] lens
    by (simp_all add: list_all2_conv_all_nth lkeys_def ckeys_def)
  have "mset (concat (new_fds q)) + mset (new_fds p ! i) = mset (concat (new_fds p))"
    using mset_concat_update [of i "new_fds p" "[]"] assms(2) lens by (simp add: q(1))
  moreover have "mset (concat (lkeys q)) = mset (concat (lkeys p)) + mset (new_fds p ! i)"
    using mset_concat_update [of i "lkeys p" "lkeys p ! i @ new_fds p ! i"] assms(2) lens by (simp add: q(4))
  ultimately have m: "mset (open_fds q) = mset (open_fds p)" by (simp add: open_fds_eq ac_simps)
  then have "distinct (open_fds q)" using mset_eq_imp_distinct_iff inv unfolding pool_inv_def by blast
  moreover have "distinct (ckeys q ! j) \<and> set (ckeys q ! j) = set (lkeys q ! j) \<and> (new_fds q ! j \<noteq> [] \<longrightarrow> signalled q ! j)"
    if "j < thread_num p" for j
    using that inv assms(2) lens own q(3) lq(1)
    by (auto simp: pool_inv_def q(1,4,5) nth_list_update list_all2_conv_all_nth)
  ultimately have "pool_inv q" using lq inv q(2) by (simp add: pool_inv_def nq)
  moreover have "tracked (client q) j = set (ckeys q ! j)" if "j < thread_num p" for j
    using that assms(1,2) lens by (auto simp: q(5,7) consistent_def nth_list_update)
  ultimately show ?thesis using q(2,6) nq m by (simp add: consistent_def)
qed

lemma user_step:
  assumes "consistent p" "keeps_tables p q" "sized (thread_num p) (client q)" "tracked (client q) = tracked (client p)"
  shows "consistent q \<and> mset (open_fds q) = mset (open_fds p) \<and> closed_fds q = closed_fds p \<and> thread_num q = thread_num p"
  using assms keeps_tables_inv [OF assms(2)] keeps_tables_thread_num [OF assms(2)] open_fds_cong [of q p]
  by (auto simp: consistent_def keeps_tables_def)

lemma async_callback_ok:
  assumes "consistent p" "i < thread_num p" "async_callback create async i p = Inr q"
  shows "consistent q \<and> thread_num q = thread_num p \<and> mset (open_fds q) = mset (open_fds p) \<and> closed_fds q = closed_fds p"
proof -
  let ?p = "add_fds create i (p\<lparr>signalled := (signalled p)[i := False]\<rparr>)"
  have "new_fds p \<noteq> []" "\<not> stop_flag p" using assms(1) by (auto simp: consistent_def pool_inv_def thread_num_def)
  then have "async i ?p = Inr q"
    using assms(3) by (simp add: async_callback_def async_hook_def Let_def)
  moreover note f = add_fds_ok [OF assms(1,2)]
  ultimately have "keeps_tables ?p q \<and> sized (thread_num ?p) (client q) \<and> tracked (client q) = tracked (client ?p)"
    using assms(2) by (intro async_ok [of ?p i]) (auto simp: consistent_def)
  with user_step [of ?p q] f show ?thesis by simp
qed

lemma socket_callback_ok:
  assumes "consistent p" "i < thread_num p" "fd \<in> set (watched i p)" "socket_callback ready i fd x p = Inr q"
  shows "consistent q \<and> thread_num q = thread_num p \<and> (mset (open_fds q) = mset (open_fds p) \<and> closed_fds q = closed_fds p
    \<or> mset (open_fds p) = add_mset fd (mset (open_fds q)) \<and> closed_fds q = closed_fds p @ [fd])"
proof -
  have inv: "pool_inv p" using assms(1) by (simp add: consistent_def)
  note lens = pool_inv_lengths [OF inv]
  have fd: "fd \<in> set (lkeys p ! i)" "fd \<in> set (ckeys p ! i)"
    using assms(2,3) inv lens by (auto simp: watched_def lkeys_def pool_inv_def)
  obtain r where r: "ready i fd x p = Inr r" "q = (if closing i fd r then drop_fd i fd r else r)"
    using assms(4) by (auto simp: socket_callback_def drop_fd_def Let_def bind_exn_Inr_iff split: option.splits)
  have k: "keeps_tables p r" "sized (thread_num p) (client r)"
      "tracked (client r) = (if closing i fd r then (tracked (client p))(i := tracked (client p) i - {fd}) else tracked (client p))"
    using ready_ok [OF inv _ _ assms(2) fd(2) r(1)] assms(1) by (auto simp: consistent_def)
  show ?thesis
  proof (cases "closing i fd r")
    case False
    then show ?thesis using user_step [OF assms(1) k(1,2)] k(3) r(2) by simp
  next
    case True
    have ir: "pool_inv r" "thread_num r = thread_num p" "lkeys r = lkeys p" "ckeys r = ckeys p" "closed_fds r = closed_fds p"
        "open_fds r = open_fds p"
      using keeps_tables_inv [OF k(1) inv] keeps_tables_thread_num [OF k(1)] k(1) open_fds_cong [of r p]
      by (simp_all add: keeps_tables_def)
    have d: "pool_inv q" "add_mset fd (mset (open_fds q)) = mset (open_fds p)" "closed_fds q = closed_fds p @ [fd]"
        "client q = client r" "ckeys q = (ckeys p)[i := removeAll fd (ckeys p ! i)]" "thread_num q = thread_num p"
      using drop_fd_inv [OF ir(1), of i fd] assms(2) fd(1) r(2) True ir by simp_all
    moreover have "tracked (client q) j = set (ckeys q ! j)" if "j < thread_num p" for j
      using that assms(1,2) True k(3) lens by (auto simp: d(4,5) consistent_def nth_list_update)
    ultimately show ?thesis using k(2) by (simp add: consistent_def)
  qed
qed


lemma pool_do_ok:
  assumes "consistent p" "possible p e" "pool_do create ready async e p = Inr q"
  shows "consistent q \<and> thread_num q = thread_num p \<and> mset (open_fds q) + mset (closed_fds q) = mset (open_fds p) + mset (closed_fds p) + mset (accepted_fd e)"
proof (cases e)
  case (Connect fd)
  then have c: "fd \<notin> set (open_fds p)" "add_client fd p = Inr q" using assms(2,3) by (simp_all add: possible_def pool_do_def)
  have inv: "pool_inv p" using assms(1) by (simp add: consistent_def)
  have "pool_inv q" "mset (open_fds q) = add_mset fd (mset (open_fds p))" "closed_fds q = closed_fds p" "client q = client p"
      "ckeys q = ckeys p" "thread_num q = thread_num p"
    using add_client_inv [OF inv c(1)] c(2) by (auto simp: ckeys_def)
  then show ?thesis using assms(1) by (simp add: consistent_def Connect)
next
  case (Wake i)
  then show ?thesis using async_callback_ok [OF assms(1), of i q] assms(2,3) by (simp add: possible_def pool_do_def)
next
  case (Ready i fd x)
  then show ?thesis using socket_callback_ok [OF assms(1), of i fd x q] assms(2,3) by (auto simp: possible_def pool_do_def)
qed

lemma run_ok:
  assumes "pool_run create ready async p es q" "consistent p"
  shows "consistent q \<and> thread_num q = thread_num p \<and> mset (open_fds q) + mset (closed_fds q) = mset (open_fds p) + mset (closed_fds p) + mset (accepted_fds es)"
  using assms
proof (induction rule: pool_run.induct)
  case start
  then show ?case by (simp add: accepted_fds_def)
next
  case (step es q e r)
  with pool_do_ok [of q e r] show ?case by (simp add: accepted_fds_def)
qed

lemma new_pool_consistent:
  assumes "new_tcp_pool n c = Inr p" "sized n c" "\<And>j. tracked c j = {}"
  shows "consistent p \<and> open_fds p = [] \<and> closed_fds p = [] \<and> thread_num p = n \<and> client p = c"
  using assms by (auto simp: new_tcp_pool_def consistent_def pool_inv_def thread_num_def open_fds_def lkeys_def ckeys_def
    split: if_splits)

end

text \<open>A user whose callbacks never fail: then nothing that can happen to the pool fails.\<close>

locale total_pool_user = pool_user +
  assumes ready_total: "consistent p \<Longrightarrow> i < thread_num p \<Longrightarrow> fd \<in> set (ckeys p ! i) \<Longrightarrow> \<exists>q. ready i fd x p = Inr q"
    and async_total: "consistent p \<Longrightarrow> i < thread_num p \<Longrightarrow> \<exists>q. async i p = Inr q"
begin

lemma pool_do_total:
  assumes "consistent p" "possible p e"
  shows "\<exists>q. pool_do create ready async e p = Inr q"
proof (cases e)
  case (Connect fd)
  then show ?thesis
    using add_client_inv [of p fd] assms by (auto simp: consistent_def possible_def pool_do_def)
next
  case (Wake i)
  then have i: "i < thread_num p" using assms(2) by (simp add: possible_def)
  let ?p = "add_fds create i (p\<lparr>signalled := (signalled p)[i := False]\<rparr>)"
  from async_total [of ?p i] add_fds_ok [OF assms(1) i] i obtain q where "async i ?p = Inr q" by auto
  moreover have "new_fds p \<noteq> []" "\<not> stop_flag p" using assms(1) by (auto simp: consistent_def pool_inv_def thread_num_def)
  ultimately show ?thesis by (simp add: Wake pool_do_def async_callback_def async_hook_def Let_def)
next
  case (Ready i fd x)
  then have i: "i < thread_num p" "fd \<in> set (lkeys p ! i)" "fd \<in> set (ckeys p ! i)"
    using assms by (auto simp: possible_def watched_def lkeys_def consistent_def pool_inv_def)
  then have "map_of (conn_maps p ! i) fd \<noteq> None"
    using assms(1) by (simp add: ckeys_def consistent_def pool_inv_def map_of_eq_None_iff)
  with ready_total [OF assms(1) i(1,3), of x] show ?thesis
    by (auto simp: Ready pool_do_def socket_callback_def)
qed

end

end
