(* ===== verification/Riemann_Pool.thy ===== *)
theory Riemann_Pool
  imports Tcp_Pool Instrumentation
begin

text \<open>
  \<open>riemann_tcp_pool.cpp\<close>: the server side of the Riemann protocol, as a user of the pool of connections.
\<close>

section \<open>The pool of Riemann connections\<close>

text \<open>
  The connections of each loop, without the buffers, which belong to the pool underneath; the gauge of
  open connections; and the messages handed on, with the descriptor each came from.
\<close>

record riemann_tcp_pool =
  connections :: "(int, bool \<times> nat) um list"
  connection_gauge :: gauge
  raw_msgs :: "(int \<times> byte list) list"

definition new_riemann_pool :: "nat \<Rightarrow> exn + riemann_tcp_pool tcp_pool" where
  "new_riemann_pool n =
     new_tcp_pool n \<lparr>connections = replicate n [], connection_gauge = new_gauge, raw_msgs = []\<rparr>"

definition conn_to_mode :: "tcp_connection \<Rightarrow> fd_mode" where
  "conn_to_mode c =
     (if pending_read c \<and> pending_write c then Mode_readwrite
      else if pending_read c then Mode_read
      else if pending_write c then Mode_write
      else Mode_none)"

definition create_conn :: "riemann_tcp_pool create_fn" where
  "create_conn i fd p =
     (let c = client p
      in p\<lparr>client := c\<lparr>connections := on_loop i (\<lambda>m. map_insert m fd (True, 0)) (connections c),
                        connection_gauge := gauge_incr 1 (connection_gauge c)\<rparr>\<rparr>)"

definition riemann_of :: "(bool \<times> nat) \<Rightarrow> tcp_connection \<Rightarrow> riemann_tcp_connection" where
  "riemann_of s c = \<lparr>tcp = c, reading_header = fst s, protobuf_size = snd s\<rparr>"

definition data_ready :: "byte list \<Rightarrow> riemann_tcp_pool ready_fn" where
  "data_ready ok_msg i fd x p =
     (case map_of (connections (client p) ! i) fd of
        None \<Rightarrow> Inl Check_failed
      | Some s \<Rightarrow>
          (case map_of (conn_maps p ! i) fd of
             None \<Rightarrow> Inl Undefined
           | Some t \<Rightarrow>
               let (ms, r) = callback ok_msg (io_read x) (io_write x) (riemann_of s t);
                   c = client p;
                   p1 = p\<lparr>conn_maps := on_loop i (\<lambda>m. um_set m fd (tcp r)) (conn_maps p),
                          client := c\<lparr>connections := on_loop i (\<lambda>m. um_set m fd (reading_header r, protobuf_size r)) (connections c),
                                     raw_msgs := raw_msgs c @ map (Pair fd) ms\<rparr>\<rparr>
               in bind_exn (set_fd_mode i fd (conn_to_mode (tcp r)) p1) (\<lambda>p2.
                    Inr (if close_connection (tcp r)
                         then let c2 = client p2
                              in p2\<lparr>client := c2\<lparr>connections := on_loop i (\<lambda>m. um_erase m fd) (connections c2),
                                                  connection_gauge := gauge_decr 1 (connection_gauge c2)\<rparr>\<rparr>
                         else p2))))"

definition no_async :: "'c async_fn" where
  "no_async i p = Inr p"

section \<open>It keeps the laws of a user\<close>

definition riemann_tracked :: "riemann_tcp_pool \<Rightarrow> nat \<Rightarrow> int set" where
  "riemann_tracked c i = (if i < length (connections c) then set (map fst (connections c ! i)) else {})"

definition open_connections :: "riemann_tcp_pool \<Rightarrow> nat" where
  "open_connections c = sum_list (map length (connections c))"

definition riemann_sized :: "nat \<Rightarrow> riemann_tcp_pool \<Rightarrow> bool" where
  "riemann_sized n c \<longleftrightarrow> length (connections c) = n \<and> (\<forall>m \<in> set (connections c). um_wf m)
     \<and> connection_gauge c = of_nat (open_connections c)"


lemma sum_list_update_length:
  "i < length xs \<Longrightarrow> sum_list (map length (xs[i := ys])) + length (xs ! i) = sum_list (map length xs) + length ys"
proof -
  assume "i < length xs"
  from mset_concat_update [OF this, of ys] show ?thesis
    by (metis length_concat size_mset size_union)
qed

lemma on_loop_nth [simp]: "i < length xs \<Longrightarrow> on_loop i f xs ! j = (if i = j then f (xs ! i) else xs ! j)"
  by (simp add: on_loop_def nth_list_update)

lemma create_conn_ok:
  assumes "riemann_sized (thread_num p) (client p)" "i < thread_num p" "fd \<notin> riemann_tracked (client p) i"
  shows "keeps_tables p (create_conn i fd p) \<and> riemann_sized (thread_num p) (client (create_conn i fd p))
    \<and> riemann_tracked (client (create_conn i fd p)) = (riemann_tracked (client p))(i := insert fd (riemann_tracked (client p) i))"
proof -
  let ?cs = "connections (client p)"
  have i: "i < length ?cs" "fd \<notin> set (map fst (?cs ! i))" using assms by (simp_all add: riemann_sized_def riemann_tracked_def)
  then have ins: "map_insert (?cs ! i) fd (True, 0) = ?cs ! i @ [(fd, (True, 0))]"
    by (simp add: map_insert_def map_of_eq_None_iff)
  have "um_wf (?cs ! i @ [(fd, (True, 0))])"
    using assms(1) i by (auto simp: riemann_sized_def um_wf_def)
  then have "riemann_sized (thread_num p) (client (create_conn i fd p))"
    using assms(1) i(1) sum_list_update_length [OF i(1), of "?cs ! i @ [(fd, (True, 0))]"]
    by (auto simp: riemann_sized_def create_conn_def Let_def on_loop_def ins open_connections_def gauge_incr_def
      dest!: set_update_subset_insert [THEN subsetD])
  moreover have "riemann_tracked (client (create_conn i fd p)) = (riemann_tracked (client p))(i := insert fd (riemann_tracked (client p) i))"
    using i by (auto simp: riemann_tracked_def create_conn_def Let_def ins fun_eq_iff)
  moreover have "keeps_tables p (create_conn i fd p)"
    using keeps_tables_refl [of p] by (simp add: keeps_tables_def create_conn_def Let_def lkeys_def ckeys_def)
  ultimately show ?thesis by blast
qed

lemma keys_on_loop_set:
  assumes "i < length xs" "fd \<in> set (map fst (xs ! i))"
  shows "map (map fst) (on_loop i (\<lambda>m. um_set m fd v) xs) = map (map fst) xs"
  using assms by (simp add: map_on_loop keys_um_set) (metis list_update_id map_update nth_map)

lemma length_um_set: "fd \<in> set (map fst m) \<Longrightarrow> length (um_set m fd v) = length m"
  using keys_um_set [of m fd v] by (metis length_map)

lemma length_um_erase: "um_wf m \<Longrightarrow> fd \<in> set (map fst m) \<Longrightarrow> Suc (length (um_erase m fd)) = length m"
proof -
  assume m: "um_wf m" "fd \<in> set (map fst m)"
  then have "length (removeAll fd (map fst m)) = length (map fst m) - 1"
    by (simp add: um_wf_def distinct_remove1_removeAll [symmetric] length_remove1)
  with m(2) show ?thesis using keys_um_erase [of m fd] by (metis One_nat_def Suc_pred length_map length_pos_if_in_set)
qed

text \<open>A client with one connection updated, or also taken out.\<close>

definition put_conn :: "nat \<Rightarrow> int \<Rightarrow> riemann_tcp_connection \<Rightarrow> byte list list \<Rightarrow> riemann_tcp_pool \<Rightarrow> riemann_tcp_pool" where
  "put_conn i fd r ms c = c\<lparr>connections := on_loop i (\<lambda>m. um_set m fd (reading_header r, protobuf_size r)) (connections c),
     raw_msgs := raw_msgs c @ map (Pair fd) ms\<rparr>"

definition drop_conn :: "nat \<Rightarrow> int \<Rightarrow> riemann_tcp_pool \<Rightarrow> riemann_tcp_pool" where
  "drop_conn i fd c = c\<lparr>connections := on_loop i (\<lambda>m. um_erase m fd) (connections c),
     connection_gauge := gauge_decr 1 (connection_gauge c)\<rparr>"

lemma put_conn_ok:
  assumes "riemann_sized n c" "i < n" "fd \<in> set (map fst (connections c ! i))"
  shows "riemann_sized n (put_conn i fd r ms c)" "riemann_tracked (put_conn i fd r ms c) = riemann_tracked c"
proof -
  let ?m = "um_set (connections c ! i) fd (reading_header r, protobuf_size r)"
  have i: "i < length (connections c)" using assms(1,2) by (simp add: riemann_sized_def)
  have "um_wf ?m" using assms(1) i by (simp add: riemann_sized_def)
  then show "riemann_sized n (put_conn i fd r ms c)"
    using assms(1) sum_list_update_length [OF i, of ?m] length_um_set [OF assms(3)]
    by (auto simp: riemann_sized_def put_conn_def open_connections_def on_loop_def dest!: set_update_subset_insert [THEN subsetD])
  show "riemann_tracked (put_conn i fd r ms c) = riemann_tracked c"
    using i assms(3) by (auto simp: riemann_tracked_def put_conn_def fun_eq_iff keys_um_set simp del: set_map)
qed

lemma drop_conn_ok:
  assumes "riemann_sized n c" "i < n" "fd \<in> set (map fst (connections c ! i))"
  shows "riemann_sized n (drop_conn i fd c)"
    "riemann_tracked (drop_conn i fd c) = (riemann_tracked c)(i := riemann_tracked c i - {fd})"
proof -
  let ?m = "um_erase (connections c ! i) fd"
  have i: "i < length (connections c)" "um_wf (connections c ! i)" using assms(1,2) by (simp_all add: riemann_sized_def)
  then have wf: "um_wf ?m" by simp
  define k where "k = open_connections (drop_conn i fd c)"
  have "open_connections c = Suc k"
    using sum_list_update_length [OF i(1), of ?m] length_um_erase [OF i(2) assms(3)]
    by (simp add: k_def open_connections_def drop_conn_def on_loop_def)
  then have "connection_gauge (drop_conn i fd c) = of_nat k"
    using assms(1) by (simp add: riemann_sized_def drop_conn_def gauge_decr_def)
  then show "riemann_sized n (drop_conn i fd c)"
    using assms(1) wf unfolding riemann_sized_def k_def
    by (auto simp: drop_conn_def on_loop_def dest!: set_update_subset_insert [THEN subsetD])
  show "riemann_tracked (drop_conn i fd c) = (riemann_tracked c)(i := riemann_tracked c i - {fd})"
    using i by (auto simp: riemann_tracked_def drop_conn_def fun_eq_iff keys_um_erase simp del: set_map)
qed

lemma data_ready_eq:
  assumes "map_of (connections (client p) ! i) fd = Some s" "map_of (conn_maps p ! i) fd = Some t"
    "map_of (loop_fds p ! i) fd = Some m" "callback ok_msg (io_read x) (io_write x) (riemann_of s t) = (ms, r)"
  shows "data_ready ok_msg i fd x p =
    Inr (p\<lparr>conn_maps := on_loop i (\<lambda>m. um_set m fd (tcp r)) (conn_maps p),
           loop_fds := on_loop i (\<lambda>m. um_set m fd (conn_to_mode (tcp r))) (loop_fds p),
           client := (if close_connection (tcp r) then drop_conn i fd (put_conn i fd r ms (client p))
                      else put_conn i fd r ms (client p))\<rparr>)"
  using assms by (simp add: data_ready_def Let_def set_fd_mode_def drop_conn_def put_conn_def)

lemma data_ready_ok:
  assumes "pool_inv p" "riemann_sized (thread_num p) (client p)"
    "\<And>j. j < thread_num p \<Longrightarrow> riemann_tracked (client p) j = set (ckeys p ! j)"
    "i < thread_num p" "fd \<in> set (ckeys p ! i)"
  shows "\<exists>q. data_ready ok_msg i fd x p = Inr q \<and> keeps_tables p q \<and> riemann_sized (thread_num p) (client q)
    \<and> riemann_tracked (client q) = (if closing i fd q then (riemann_tracked (client p))(i := riemann_tracked (client p) i - {fd})
                              else riemann_tracked (client p))"
proof -
  let ?cs = "connections (client p)"
  note lens = pool_inv_lengths [OF assms(1)]
  have fd: "fd \<in> set (map fst (?cs ! i))" "fd \<in> set (map fst (conn_maps p ! i))" "fd \<in> set (map fst (loop_fds p ! i))"
    using assms lens by (auto simp: riemann_sized_def riemann_tracked_def ckeys_def lkeys_def pool_inv_def)
  then obtain s t m where st: "map_of (?cs ! i) fd = Some s" "map_of (conn_maps p ! i) fd = Some t" "map_of (loop_fds p ! i) fd = Some m"
    by (metis map_of_eq_None_iff not_None_eq set_map)
  obtain ms r where cb: "callback ok_msg (io_read x) (io_write x) (riemann_of s t) = (ms, r)" by fastforce
  let ?c = "put_conn i fd r ms (client p)"
  let ?q = "p\<lparr>conn_maps := on_loop i (\<lambda>m. um_set m fd (tcp r)) (conn_maps p),
           loop_fds := on_loop i (\<lambda>m. um_set m fd (conn_to_mode (tcp r))) (loop_fds p),
           client := (if close_connection (tcp r) then drop_conn i fd ?c else ?c)\<rparr>"
  have q: "data_ready ok_msg i fd x p = Inr ?q" using data_ready_eq [OF st cb] .
  have k: "keeps_tables p ?q"
    using keeps_tables_refl [of p] assms(4) fd(2,3) lens
    by (simp add: keeps_tables_def lkeys_def ckeys_def keys_on_loop_set)
  have closing: "closing i fd ?q \<longleftrightarrow> close_connection (tcp r)"
    using assms(4) lens by (simp add: closing_def)
  have put: "riemann_sized (thread_num p) ?c" "riemann_tracked ?c = riemann_tracked (client p)"
    using put_conn_ok [OF assms(2,4) fd(1)] by simp_all
  have "fd \<in> set (map fst (connections ?c ! i))"
    using assms(2,4) fd(1) by (simp add: put_conn_def riemann_sized_def keys_um_set del: set_map)
  from drop_conn_ok [OF put(1) assms(4) this] put k closing q show ?thesis by (intro exI [of _ ?q]) simp
qed

interpretation rpool: pool_user create_conn "data_ready ok_msg" no_async riemann_tracked riemann_sized for ok_msg
proof unfold_locales
  fix p :: "riemann_tcp_pool tcp_pool" and i fd x q
  assume "pool_inv p" "riemann_sized (thread_num p) (client p)"
    "\<And>j. j < thread_num p \<Longrightarrow> riemann_tracked (client p) j = set (ckeys p ! j)"
    "i < thread_num p" "fd \<in> set (ckeys p ! i)" "data_ready ok_msg i fd x p = Inr q"
  from data_ready_ok [OF this(1-5), of ok_msg x] this(6)
  show "keeps_tables p q \<and> riemann_sized (thread_num p) (client q)
      \<and> riemann_tracked (client q) = (if closing i fd q then (riemann_tracked (client p))(i := riemann_tracked (client p) i - {fd})
                              else riemann_tracked (client p))" by auto
qed (auto simp: create_conn_ok no_async_def keeps_tables_refl)

interpretation rtotal: total_pool_user create_conn "data_ready ok_msg" no_async riemann_tracked riemann_sized for ok_msg
proof unfold_locales
  fix p :: "riemann_tcp_pool tcp_pool" and i fd x
  assume "rpool.consistent p" "i < thread_num p" "fd \<in> set (ckeys p ! i)"
  then show "\<exists>q. data_ready ok_msg i fd x p = Inr q"
    using data_ready_ok [of p i fd ok_msg x] by (auto simp: rpool.consistent_def)
qed (simp add: no_async_def)

lemma new_riemann_pool_ok:
  assumes "0 < n"
  shows "\<exists>p. new_riemann_pool n = Inr p \<and> rpool.consistent p \<and> open_fds p = [] \<and> closed_fds p = [] \<and> raw_msgs (client p) = []"
proof -
  let ?c = "\<lparr>connections = replicate n [], connection_gauge = new_gauge, raw_msgs = []\<rparr>"
  obtain p where p: "new_tcp_pool n ?c = Inr p" using assms by (simp add: new_tcp_pool_def)
  moreover have "sum_list (map length (replicate n [])) = 0" by (simp add: map_replicate_const sum_list_replicate)
  ultimately have "riemann_sized n ?c" "\<And>j. riemann_tracked ?c j = {}"
    by (auto simp: riemann_sized_def riemann_tracked_def open_connections_def new_gauge_def sum_list_replicate)
  from rpool.new_pool_consistent [OF p this] p show ?thesis by (auto simp: new_riemann_pool_def)
qed

text \<open>
  C9. However connections come and go, the pool of Riemann connections keeps its books: every accepted
  descriptor is still open, with exactly one loop as its owner, or was closed exactly once; the loop that
  watches a descriptor has its connection; the gauge shows the number of connections, modulo \<open>2\<^sup>3\<^sup>2\<close>; and
  whatever can happen next happens without a failed \<open>CHECK\<close> or a dangling reference.
\<close>

theorem riemann_pool_books:
  assumes "new_riemann_pool n = Inr p" "pool_run create_conn (data_ready ok_msg) no_async p es q"
  shows "mset (accepted_fds es) = mset (open_fds q) + mset (closed_fds q) \<and> distinct (open_fds q)
    \<and> (\<forall>i < n. set (watched i q) = set (map fst (conn_maps q ! i)) \<and> set (watched i q) = set (map fst (connections (client q) ! i)))
    \<and> connection_gauge (client q) = of_nat (sum_list (map length (connections (client q))))
    \<and> (\<forall>e. possible q e \<longrightarrow> (\<exists>r. pool_do create_conn (data_ready ok_msg) no_async e q = Inr r))"
proof -
  have n: "0 < n" using assms(1) by (auto simp: new_riemann_pool_def new_tcp_pool_def split: if_splits)
  then have p: "rpool.consistent p" "open_fds p = []" "closed_fds p = []" "thread_num p = n"
    using new_riemann_pool_ok [OF n] assms(1) by (auto simp: new_riemann_pool_def new_tcp_pool_def thread_num_def)
  then have q: "rpool.consistent q" "mset (accepted_fds es) = mset (open_fds q) + mset (closed_fds q)"
    using rpool.run_ok [OF assms(2)] by simp_all
  have nq: "thread_num q = n" using rpool.run_ok [OF assms(2) p(1)] p(4) by simp
  have inv: "pool_inv q" "riemann_sized n (client q)" "\<forall>i < n. riemann_tracked (client q) i = set (ckeys q ! i)"
    using q(1) by (simp_all add: rpool.consistent_def nq)
  have "set (watched i q) = set (map fst (conn_maps q ! i)) \<and> set (watched i q) = set (map fst (connections (client q) ! i))"
    if "i < n" for i
    using that inv nq pool_inv_lengths [OF inv(1)]
    by (auto simp: pool_inv_def watched_def lkeys_def ckeys_def riemann_tracked_def riemann_sized_def)
  moreover have "distinct (open_fds q)" "connection_gauge (client q) = of_nat (sum_list (map length (connections (client q))))"
    using inv(1,2) by (simp_all add: pool_inv_def riemann_sized_def open_connections_def)
  ultimately show ?thesis using q(2) rtotal.pool_do_total [OF q(1), of _ ok_msg] by blast
qed

section \<open>Connections do not disturb each other\<close>

text \<open>One connection alone: the messages it hands on while it sees the given readiness events.\<close>

definition serve :: "byte list \<Rightarrow> io list \<Rightarrow> riemann_tcp_connection \<Rightarrow> byte list list \<times> riemann_tcp_connection" where
  "serve ok_msg xs r =
     foldl (\<lambda>(ms, r) x. case callback ok_msg (io_read x) (io_write x) r of (ms1, r1) \<Rightarrow> (ms @ ms1, r1)) ([], r) xs"

fun own_io :: "int \<Rightarrow> pool_event \<Rightarrow> io list" where
  "own_io fd (Ready i f x) = (if f = fd then [x] else [])"
| "own_io fd _ = []"

definition own_ios :: "int \<Rightarrow> pool_event list \<Rightarrow> io list" where
  "own_ios fd es = concat (map (own_io fd) es)"

definition own_msgs :: "int \<Rightarrow> riemann_tcp_pool tcp_pool \<Rightarrow> byte list list" where
  "own_msgs fd p = map snd (filter (\<lambda>m. fst m = fd) (raw_msgs (client p)))"

text \<open>The connection of a descriptor: its buffers from the pool and its parser state.\<close>

definition conn_view :: "nat \<Rightarrow> int \<Rightarrow> riemann_tcp_pool tcp_pool \<Rightarrow> riemann_tcp_connection option" where
  "conn_view i fd p =
     (case (map_of (connections (client p) ! i) fd, map_of (conn_maps p ! i) fd) of
        (Some s, Some t) \<Rightarrow> Some (riemann_of s t)
      | _ \<Rightarrow> None)"

lemma riemann_of_eq: "riemann_of (reading_header r, protobuf_size r) (tcp r) = r"
  by (simp add: riemann_of_def)

lemma map_of_map_insert: "map_of m k = None \<Longrightarrow> map_of (map_insert m k v) = (map_of m)(k \<mapsto> v)"
  by (auto simp: map_insert_def map_add_def fun_eq_iff split: option.split)

lemma filter_pair: "filter (\<lambda>m. fst m = fd) (map (Pair f) ms) = (if f = fd then map (Pair f) ms else [])"
  by (induction ms) auto

lemma ready_view:
  assumes "rpool.consistent p" "i < thread_num p" "f \<in> set (watched i p)" "socket_callback (data_ready ok_msg) i f x p = Inr q"
  shows "\<exists>r ms r1. conn_view i f p = Some r \<and> callback ok_msg (io_read x) (io_write x) r = (ms, r1)
    \<and> new_fds q = new_fds p \<and> (\<forall>j < thread_num p. set (watched j q) \<subseteq> set (watched j p))
    \<and> (\<forall>fd. own_msgs fd q = own_msgs fd p @ (if fd = f then ms else []))
    \<and> (\<forall>j < thread_num p. \<forall>fd. fd \<in> set (watched j q) \<longrightarrow> conn_view j fd q = (if j = i \<and> fd = f then Some r1 else conn_view j fd p))"
proof -
  have inv: "pool_inv p" "riemann_sized (thread_num p) (client p)" "riemann_tracked (client p) i = set (ckeys p ! i)"
    using assms(1,2) by (simp_all add: rpool.consistent_def)
  note lens = pool_inv_lengths [OF inv(1)]
  have cs: "length (connections (client p)) = thread_num p" using inv(2) by (simp add: riemann_sized_def)
  have "f \<in> set (map fst (loop_fds p ! i))" "f \<in> set (map fst (conn_maps p ! i))" "f \<in> set (map fst (connections (client p) ! i))"
    using assms(2,3) inv lens cs by (auto simp: watched_def lkeys_def ckeys_def pool_inv_def riemann_tracked_def)
  then obtain s t m where st: "map_of (connections (client p) ! i) f = Some s" "map_of (conn_maps p ! i) f = Some t"
      "map_of (loop_fds p ! i) f = Some m"
    by (metis map_of_eq_None_iff not_None_eq set_map)
  obtain ms r where cb: "callback ok_msg (io_read x) (io_write x) (riemann_of s t) = (ms, r)" by fastforce
  let ?c = "put_conn i f r ms (client p)"
  let ?q = "p\<lparr>conn_maps := on_loop i (\<lambda>m. um_set m f (tcp r)) (conn_maps p),
           loop_fds := on_loop i (\<lambda>m. um_set m f (conn_to_mode (tcp r))) (loop_fds p),
           client := (if close_connection (tcp r) then drop_conn i f ?c else ?c)\<rparr>"
  have q: "q = (if close_connection (tcp r) then drop_fd i f ?q else ?q)"
    using assms(2,4) data_ready_eq [OF st cb] st(2) lens
    by (simp add: socket_callback_def closing_def drop_fd_def split: if_splits)
  have v: "conn_view i f p = Some (riemann_of s t)" by (simp add: conn_view_def st)
  have keys: "map fst (um_set (loop_fds p ! i) f md) = map fst (loop_fds p ! i)" for md
    using st(3) by (simp add: keys_um_set) (metis fst_conv image_eqI map_of_SomeD)
  have msgs: "own_msgs fd q = own_msgs fd p @ (if fd = f then ms else [])" for fd
    by (auto simp: q own_msgs_def drop_fd_def remove_fd_def put_conn_def drop_conn_def Let_def filter_pair comp_def split: option.split)
  have new: "new_fds q = new_fds p" by (auto simp: q drop_fd_def remove_fd_def Let_def split: option.split)
  have sub: "set (watched j q) = (if close_connection (tcp r) \<and> j = i then set (watched j p) - {f} else set (watched j p))"
    if "j < thread_num p" for j
    using that assms(2) lens keys
    by (auto simp: q watched_def drop_fd_def remove_fd_def Let_def keys_um_erase simp del: set_map)
  have "conn_view j fd q = (if j = i \<and> fd = f then Some r else conn_view j fd p)"
    if "j < thread_num p" "fd \<in> set (watched j q)" for j fd
    using that sub [OF that(1)] assms(2) lens cs
    by (auto simp: q conn_view_def drop_fd_def remove_fd_def put_conn_def drop_conn_def Let_def riemann_of_eq
      split: if_splits option.splits)
  with v cb msgs new sub show ?thesis by (intro exI [of _ "riemann_of s t"] exI [of _ ms] exI [of _ r]) auto
qed

lemma take_fd_view:
  assumes "i < length (connections (client p))" "i < length (conn_maps p)"
    "f \<notin> set (map fst (connections (client p) ! i))" "f \<notin> set (map fst (conn_maps p ! i))" "f \<notin> set (map fst (loop_fds p ! i))"
  defines "q \<equiv> take_fd create_conn i f p"
  shows "own_msgs fd q = own_msgs fd p"
    "conn_view j fd q = (if j = i \<and> fd = f then Some (new_riemann_connection new_connection) else conn_view j fd p)"
proof -
  have "map_of (loop_fds p ! i) f = None" using assms(5) by (simp add: map_of_eq_None_iff)
  then have q: "q = create_conn i f (p\<lparr>loop_fds := on_loop i (\<lambda>m. um_set m f Mode_read) (loop_fds p),
      conn_maps := on_loop i (\<lambda>m. map_insert m f new_connection) (conn_maps p)\<rparr>)"
    by (simp add: q_def take_fd_def add_fd_def Let_def)
  show "own_msgs fd q = own_msgs fd p" by (simp add: q create_conn_def Let_def own_msgs_def)
  have "map_of (connections (client p) ! i) f = None" "map_of (conn_maps p ! i) f = None"
    using assms(3,4) by (simp_all add: map_of_eq_None_iff)
  then show "conn_view j fd q = (if j = i \<and> fd = f then Some (new_riemann_connection new_connection) else conn_view j fd p)"
    using assms(1,2) by (auto simp: q create_conn_def Let_def conn_view_def map_of_map_insert riemann_of_def new_riemann_connection_def
      cong: option.case_cong)
qed


lemma take_fds_view:
  assumes "i < thread_num p" "length (connections (client p)) = thread_num p" "length (conn_maps p) = thread_num p"
    "length (loop_fds p) = thread_num p" "distinct fs" "riemann_sized (thread_num p) (client p)"
    "set fs \<inter> set (map fst (connections (client p) ! i)) = {}" "set fs \<inter> set (map fst (conn_maps p ! i)) = {}"
    "set fs \<inter> set (map fst (loop_fds p ! i)) = {}"
  shows "own_msgs fd (fold (take_fd create_conn i) fs p) = own_msgs fd p \<and>
    conn_view j fd (fold (take_fd create_conn i) fs p)
      = (if j = i \<and> fd \<in> set fs then Some (new_riemann_connection new_connection) else conn_view j fd p)"
  using assms
proof (induction fs arbitrary: p)
  case (Cons f fs)
  let ?q = "take_fd create_conn i f p"
  have f: "f \<notin> set (map fst (connections (client p) ! i))" "f \<notin> set (map fst (conn_maps p ! i))" "f \<notin> set (map fst (loop_fds p ! i))"
    using Cons.prems by auto
  have keys: "f \<notin> set (lkeys p ! i)" "f \<notin> set (ckeys p ! i)" "f \<notin> riemann_tracked (client p) i"
    using f Cons.prems by (simp_all add: lkeys_def ckeys_def riemann_tracked_def)
  note t = rpool.take_fd_ok [OF Cons.prems(1) Cons.prems(4) Cons.prems(3) Cons.prems(6) keys]
  have v: "own_msgs fd ?q = own_msgs fd p"
      "conn_view j fd ?q = (if j = i \<and> fd = f then Some (new_riemann_connection new_connection) else conn_view j fd p)"
    using take_fd_view(1) [of i p f fd] take_fd_view(2) [of i p f j fd] Cons.prems(1-4) f by simp_all
  have n: "thread_num ?q = thread_num p" using t(1) by (simp add: thread_num_def)
  have "own_msgs fd (fold (take_fd create_conn i) fs ?q) = own_msgs fd ?q \<and>
    conn_view j fd (fold (take_fd create_conn i) fs ?q)
      = (if j = i \<and> fd \<in> set fs then Some (new_riemann_connection new_connection) else conn_view j fd ?q)"
  proof (rule Cons.IH)
    have i: "i < length (lkeys p)" "i < length (ckeys p)" "i < length (loop_fds ?q)" "i < length (conn_maps ?q)"
      using arg_cong [OF t(4), of length] arg_cong [OF t(5), of length] Cons.prems(1,3,4) by (simp_all add: lkeys_def ckeys_def)
    have "map fst (loop_fds ?q ! i) = lkeys p ! i @ [f]" "map fst (conn_maps ?q ! i) = ckeys p ! i @ [f]"
      using t(4,5) i nth_list_update_eq [OF i(1)] nth_list_update_eq [OF i(2)] by (metis lkeys_def nth_map, metis ckeys_def nth_map)
    then show "set fs \<inter> set (map fst (loop_fds ?q ! i)) = {}" "set fs \<inter> set (map fst (conn_maps ?q ! i)) = {}"
      using Cons.prems i by (auto simp: lkeys_def ckeys_def)
    have "riemann_tracked (client ?q) i = insert f (riemann_tracked (client p) i)" using t(7) by simp
    then show "set fs \<inter> set (map fst (connections (client ?q) ! i)) = {}"
      using Cons.prems t(6) by (auto simp: riemann_tracked_def riemann_sized_def)
    show "length (connections (client ?q)) = thread_num ?q" "riemann_sized (thread_num ?q) (client ?q)"
      using t(6) n by (simp_all add: riemann_sized_def)
    show "length (conn_maps ?q) = thread_num ?q" "length (loop_fds ?q) = thread_num ?q"
      using arg_cong [OF t(4), of length] arg_cong [OF t(5), of length] Cons.prems(3,4) n by (simp_all add: lkeys_def ckeys_def)
  qed (use Cons.prems n in simp_all)
  then show ?case using v Cons.prems(5) by auto
qed simp


lemma wake_view:
  assumes "rpool.consistent p" "i < thread_num p" "async_callback create_conn no_async i p = Inr q" "j < thread_num p"
  shows "own_msgs fd q = own_msgs fd p \<and> new_fds q = (new_fds p)[i := []]
    \<and> watched j q = watched j p @ (if j = i then new_fds p ! i else [])
    \<and> conn_view j fd q = (if j = i \<and> fd \<in> set (new_fds p ! i) then Some (new_riemann_connection new_connection) else conn_view j fd p)"
proof -
  have inv: "pool_inv p" "riemann_sized (thread_num p) (client p)" "riemann_tracked (client p) i = set (ckeys p ! i)"
    using assms(1,2) by (simp_all add: rpool.consistent_def)
  note lens = pool_inv_lengths [OF inv(1)]
  have cs: "length (connections (client p)) = thread_num p" using inv(2) by (simp add: riemann_sized_def)
  let ?p = "p\<lparr>signalled := (signalled p)[i := False], new_fds := (new_fds p)[i := []]\<rparr>"
  have n: "thread_num ?p = thread_num p" "lkeys ?p = lkeys p" "ckeys ?p = ckeys p"
    by (simp_all add: thread_num_def lkeys_def ckeys_def)
  have "new_fds p \<noteq> []" "\<not> stop_flag p" using inv(1) by (auto simp: pool_inv_def thread_num_def)
  then have q: "q = fold (take_fd create_conn i) (new_fds p ! i) ?p"
    using assms(3) by (simp add: async_callback_def async_hook_def no_async_def add_fds_def Let_def)
  have own: "distinct (new_fds p ! i @ lkeys p ! i)" "set (ckeys p ! i) = set (lkeys p ! i)" "distinct (ckeys p ! i)"
    using owned_distinct [of p i] inv(1) assms(2) lens by (simp_all add: pool_inv_def)
  have keys: "set (new_fds p ! i) \<inter> set (map fst (connections (client p) ! i)) = {}"
      "set (new_fds p ! i) \<inter> set (map fst (conn_maps p ! i)) = {}" "set (new_fds p ! i) \<inter> set (map fst (loop_fds p ! i)) = {}"
    using own inv(3) assms(2) lens cs by (auto simp: riemann_tracked_def lkeys_def ckeys_def)
  have t: "new_fds q = (new_fds p)[i := []]" "lkeys q = (lkeys p)[i := lkeys p ! i @ new_fds p ! i]"
    using rpool.take_fds_ok [of i ?p "new_fds p ! i"] assms(2) lens own inv unfolding n q by simp_all
  have l: "length (loop_fds q) = thread_num p" using arg_cong [OF t(2), of length] lens by (simp add: lkeys_def)
  have "watched j q = lkeys q ! j" "watched j p = lkeys p ! j" "watched i p = lkeys p ! i"
    using assms(2,4) l lens by (simp_all add: watched_def lkeys_def)
  then have w: "watched j q = watched j p @ (if j = i then new_fds p ! i else [])"
    using assms(2) lens by (simp add: t(2) nth_list_update)
  have v: "own_msgs fd q = own_msgs fd ?p \<and> conn_view j fd q
      = (if j = i \<and> fd \<in> set (new_fds p ! i) then Some (new_riemann_connection new_connection) else conn_view j fd ?p)"
    unfolding q using assms(2) lens cs own(1) inv(2) keys by (intro take_fds_view) (simp_all add: n)
  have same: "own_msgs fd ?p = own_msgs fd p" "conn_view j fd ?p = conn_view j fd p" by (simp_all add: own_msgs_def conn_view_def)
  show ?thesis using v t(1) w unfolding same by simp
qed


lemma connect_view:
  assumes "add_client f p = Inr q"
  shows "own_msgs fd q = own_msgs fd p \<and> watched j q = watched j p \<and> conn_view j fd q = conn_view j fd p
    \<and> set (concat (new_fds q)) \<subseteq> insert f (set (concat (new_fds p)))"
proof -
  let ?k = "Suc (next_thread p) mod length (new_fds p)"
  have "?k < length (new_fds p) \<and> q = p\<lparr>next_thread := ?k, new_fds := on_loop ?k (\<lambda>fs. fs @ [f]) (new_fds p),
      signalled := (signalled p)[?k := True]\<rparr>"
    using assms by (auto simp: add_client_def take_next_thread_def add_client_to_def signal_thread_def thread_num_def Let_def
      split: if_splits)
  then obtain k where k: "k < length (new_fds p)" "q = p\<lparr>next_thread := k, new_fds := on_loop k (\<lambda>fs. fs @ [f]) (new_fds p),
      signalled := (signalled p)[k := True]\<rparr>"
    by blast
  have "set (on_loop k (\<lambda>fs. fs @ [f]) (new_fds p)) \<subseteq> insert (new_fds p ! k @ [f]) (set (new_fds p))"
    unfolding on_loop_def by (rule set_update_subset_insert)
  then show ?thesis using nth_mem [OF k(1)] by (auto simp: k(2) own_msgs_def watched_def conn_view_def)
qed

lemma concat_owner:
  assumes "distinct (concat xs)" "i < length xs" "j < length xs" "x \<in> set (xs ! i)" "x \<in> set (xs ! j)"
  shows "i = j"
proof -
  have less: False if "i < j" "j < length xs" "x \<in> set (xs ! i)" "x \<in> set (xs ! j)" for i j
  proof -
    have "concat xs = concat (take j xs) @ xs ! j @ concat (drop (Suc j) xs)"
      using that(2) by (subst id_take_nth_drop [OF that(2)]) simp
    then have "set (concat (take j xs)) \<inter> set (xs ! j) = {}" using assms(1) by auto
    moreover have "xs ! i \<in> set (take j xs)" using that(1,2) by (auto simp: in_set_conv_nth)
    ultimately show False using that(3,4) by auto
  qed
  from less [of i j] less [of j i] assms show ?thesis by (meson linorder_neqE_nat)
qed

lemma watched_owner:
  assumes "pool_inv p" "i < thread_num p" "fd \<in> set (watched i p)"
  shows "fd \<in> set (open_fds p)" "fd \<notin> set (concat (new_fds p))"
    "j < thread_num p \<Longrightarrow> fd \<in> set (watched j p) \<Longrightarrow> j = i"
proof -
  note lens = pool_inv_lengths [OF assms(1)]
  have d: "distinct (open_fds p)" using assms(1) by (simp add: pool_inv_def)
  have w: "watched k p = lkeys p ! k" if "k < thread_num p" for k using that lens by (simp add: watched_def lkeys_def)
  have "fd \<in> set (concat (lkeys p))" using concat_nth(1) [of i "lkeys p"] assms(2,3) lens w by auto
  then show "fd \<in> set (open_fds p)" "fd \<notin> set (concat (new_fds p))" using d by (auto simp: open_fds_def lkeys_def)
  show "j = i" if "j < thread_num p" "fd \<in> set (watched j p)"
    using concat_owner [of "lkeys p" j i fd] d that assms(2,3) lens w by (simp add: open_fds_def lkeys_def)
qed

lemma serve_snoc:
  "serve ok_msg (xs @ [x]) r =
     (case callback ok_msg (io_read x) (io_write x) (snd (serve ok_msg xs r)) of (ms, r1) \<Rightarrow> (fst (serve ok_msg xs r) @ ms, r1))"
  by (simp add: serve_def split: prod.split)

lemma serve_Nil [simp]: "serve ok_msg [] r = ([], r)"
  by (simp add: serve_def)

definition isolated :: "byte list \<Rightarrow> int \<Rightarrow> pool_event list \<Rightarrow> riemann_tcp_pool tcp_pool \<Rightarrow> bool" where
  "isolated ok_msg fd es q \<longleftrightarrow>
     (let s = serve ok_msg (own_ios fd es) (new_riemann_connection new_connection)
      in own_msgs fd q = fst s \<and> (fd \<notin> set (accepted_fds es) \<or> fd \<in> set (concat (new_fds q)) \<longrightarrow> own_ios fd es = [])
         \<and> (\<forall>j < thread_num q. fd \<in> set (watched j q) \<longrightarrow> conn_view j fd q = Some (snd s)))"

lemma isolated_step:
  assumes "isolated ok_msg fd es p" "rpool.consistent p" "possible p e"
    "pool_do create_conn (data_ready ok_msg) no_async e p = Inr q" "count (mset (accepted_fds (es @ [e]))) fd \<le> 1"
    "mset (accepted_fds es) = mset (open_fds p) + mset (closed_fds p)"
  shows "isolated ok_msg fd (es @ [e]) q"
proof -
  have nq: "thread_num q = thread_num p" and cq: "rpool.consistent q" using rpool.pool_do_ok [OF assms(2-4)] by simp_all
  show ?thesis
  proof (cases e)
    case (Connect f)
    have c: "add_client f p = Inr q" "f \<notin> set (open_fds p)"
      using assms(3,4) Connect by (simp_all add: pool_do_def possible_def)
    have "own_ios fd (es @ [e]) = own_ios fd es" by (simp add: own_ios_def Connect)
    moreover have "own_ios fd es = []" if "fd = f"
    proof -
      have "fd \<notin> set (accepted_fds es)" using assms(5) that by (simp add: Connect accepted_fds_def count_eq_zero_iff [symmetric] del: set_concat)
      then show ?thesis using assms(1) by (simp add: isolated_def Let_def)
    qed
    ultimately show ?thesis
      using assms(1) connect_view [OF c(1), of fd] c(2) nq
      by (auto simp: isolated_def Let_def accepted_fds_def Connect)
  next
    case (Wake i)
    have w: "i < thread_num p" "async_callback create_conn no_async i p = Inr q"
      using assms(3,4) Wake by (simp_all add: pool_do_def possible_def)
    have ios: "own_ios fd (es @ [e]) = own_ios fd es" "accepted_fds (es @ [e]) = accepted_fds es"
      by (simp_all add: own_ios_def accepted_fds_def Wake)
    note v = wake_view [OF assms(2) w]
    let ?s = "serve ok_msg (own_ios fd es) (new_riemann_connection new_connection)"
    have old: "own_msgs fd p = fst ?s" "fd \<notin> set (accepted_fds es) \<or> fd \<in> set (concat (new_fds p)) \<longrightarrow> own_ios fd es = []"
        "\<And>j. j < thread_num p \<Longrightarrow> fd \<in> set (watched j p) \<Longrightarrow> conn_view j fd p = Some (snd ?s)"
      using assms(1) by (auto simp: isolated_def Let_def)
    have new: "new_fds q = (new_fds p)[i := []]" "own_msgs fd q = fst ?s" using v [of 0 fd] w(1) old(1) by auto
    have "set (new_fds q) \<subseteq> insert [] (set (new_fds p))" unfolding new(1) by (rule set_update_subset_insert)
    then have "set (concat (new_fds q)) \<subseteq> set (concat (new_fds p))" by auto
    moreover have "set (new_fds p ! i) \<subseteq> set (concat (new_fds p))"
      using concat_nth(1) [of i "new_fds p"] w(1) by (simp add: thread_num_def)
    moreover have "conn_view j fd q = Some (snd ?s)" if "j < thread_num p" "fd \<in> set (watched j q)" for j
    proof (cases "j = i \<and> fd \<in> set (new_fds p ! i)")
      case True
      then show ?thesis using v [OF that(1), of fd] old(2) \<open>set (new_fds p ! i) \<subseteq> _\<close> by auto
    next
      case False
      then show ?thesis using v [OF that(1), of fd] old(3) [OF that(1)] that(2) by (auto split: if_splits)
    qed
    ultimately show ?thesis using old(2) new(2) unfolding isolated_def Let_def ios nq by blast
  next
    case (Ready i f x)
    let ?s = "serve ok_msg (own_ios fd es) (new_riemann_connection new_connection)"
    have r: "i < thread_num p" "f \<in> set (watched i p)" "socket_callback (data_ready ok_msg) i f x p = Inr q"
      using assms(3,4) Ready by (simp_all add: pool_do_def possible_def)
    have inv: "pool_inv p" using assms(2) by (simp add: rpool.consistent_def)
    have old: "own_msgs fd p = fst ?s" "fd \<notin> set (accepted_fds es) \<or> fd \<in> set (concat (new_fds p)) \<longrightarrow> own_ios fd es = []"
        "\<And>j. j < thread_num p \<Longrightarrow> fd \<in> set (watched j p) \<Longrightarrow> conn_view j fd p = Some (snd ?s)"
      using assms(1) by (auto simp: isolated_def Let_def)
    obtain r0 ms r1 where v: "conn_view i f p = Some r0" "callback ok_msg (io_read x) (io_write x) r0 = (ms, r1)"
        "new_fds q = new_fds p" "\<And>j. j < thread_num p \<Longrightarrow> set (watched j q) \<subseteq> set (watched j p)"
        "own_msgs fd q = own_msgs fd p @ (if fd = f then ms else [])"
        "\<And>j. j < thread_num p \<Longrightarrow> fd \<in> set (watched j q) \<Longrightarrow>
            conn_view j fd q = (if j = i \<and> fd = f then Some r1 else conn_view j fd p)"
      using ready_view [OF assms(2) r] by blast
    have acc: "accepted_fds (es @ [e]) = accepted_fds es" by (simp add: accepted_fds_def Ready)
    show ?thesis
    proof (cases "fd = f")
      case False
      then have "own_ios fd (es @ [e]) = own_ios fd es" by (simp add: own_ios_def Ready)
      then show ?thesis using old v False nq unfolding isolated_def Let_def acc by auto
    next
      case True
      have ios: "own_ios fd (es @ [e]) = own_ios fd es @ [x]" using True by (simp add: own_ios_def Ready)
      have own: "fd \<in> set (open_fds p)" "fd \<notin> set (concat (new_fds p))" "\<And>j. j < thread_num p \<Longrightarrow> fd \<in> set (watched j p) \<Longrightarrow> j = i"
        using watched_owner [OF inv r(1)] r(2) True by auto
      have "fd \<in> set (accepted_fds es)" using own(1) assms(6) by (metis UnCI set_mset_mset set_mset_union)
      have "r0 = snd ?s" using v(1) old(3) [OF r(1)] r(2) True by simp
      then have s: "serve ok_msg (own_ios fd es @ [x]) (new_riemann_connection new_connection) = (fst ?s @ ms, r1)"
        using v(2) by (simp add: serve_snoc)
      have "conn_view j fd q = Some r1" if "j < thread_num p" "fd \<in> set (watched j q)" for j
      proof -
        have "j = i" using own(3) [OF that(1)] v(4) [OF that(1)] that(2) by blast
        then show ?thesis using v(6) [OF that] True by simp
      qed
      moreover have "own_msgs fd q = fst ?s @ ms" using v(5) old(1) True by simp
      ultimately show ?thesis
        using \<open>fd \<in> set (accepted_fds es)\<close> own(2) unfolding isolated_def Let_def acc ios s nq v(3) by simp
    qed
  qed
qed


text \<open>
  C8. However the connections of a pool interleave, over whatever loops, a connection is served as if it were
  alone: the messages that it has handed on are those of its own stream of readiness events, for every
  descriptor that was given out once.
\<close>

theorem riemann_pool_isolates:
  assumes "new_riemann_pool n = Inr p" "pool_run create_conn (data_ready ok_msg) no_async p es q"
    and "count (mset (accepted_fds es)) fd = 1"
  shows "map snd (filter (\<lambda>m. fst m = fd) (raw_msgs (client q)))
    = fst (serve ok_msg (own_ios fd es) (new_riemann_connection new_connection))"
proof -
  have "0 < n" using assms(1) by (auto simp: new_riemann_pool_def new_tcp_pool_def split: if_splits)
  then have p: "rpool.consistent p" "open_fds p = []" "closed_fds p = []" "raw_msgs (client p) = []"
    using new_riemann_pool_ok [of n] assms(1) by auto
  have start: "isolated ok_msg fd [] p"
    using p(1,2,4) watched_owner(1) [of p _ fd]
    by (auto simp: isolated_def Let_def own_msgs_def own_ios_def rpool.consistent_def)
  have "count (mset (accepted_fds es)) fd \<le> 1 \<Longrightarrow> isolated ok_msg fd es q"
    using assms(2)
  proof (induction rule: pool_run.induct)
    case start
    show ?case by (rule \<open>isolated ok_msg fd [] p\<close>)
  next
    case (step es q e r)
    have "isolated ok_msg fd es q" using step by (simp add: accepted_fds_def)
    moreover have "rpool.consistent q" "mset (accepted_fds es) = mset (open_fds q) + mset (closed_fds q)"
      using rpool.run_ok [OF step.hyps(1) p(1)] p(2,3) by simp_all
    ultimately show ?case using isolated_step step.hyps(2,3) step.prems by blast
  qed
  then show ?thesis using assms(3) by (simp add: isolated_def own_msgs_def Let_def)
qed


text \<open>A run of one connection on a pool with one loop, which sends the message with the single byte 7.\<close>

definition frame_io :: io where
  "frame_io = \<lparr>io_error = False, io_read = Some (\<lambda>_. Received [0, 0, 0, 1, 7]), io_write = None\<rparr>"

lemma serve_frame:
  "fst (serve [16, 1] [frame_io] (new_riemann_connection new_connection)) = [[7]]"
  by (simp add: serve_def frame_io_def callback_def read_cb_def tcp_read_def read_from_fd_def r_reserve_def new_connection_def
      new_riemann_connection_def k_default_buffer_size_def read_loop.simps read_once_def read_header_def read_message_def
      read_bytes_def ntohl_def queue_write_def w_reserve_def ok_response_def be32_def Let_def)

lemma sample_run:
  "\<exists>p q. new_riemann_pool 1 = Inr p
     \<and> pool_run create_conn (data_ready [16, 1]) no_async p [Connect 5, Wake 0, Ready 0 5 frame_io] q"
proof -
  let ?c = "\<lparr>connections = [[]], connection_gauge = 0, raw_msgs = []\<rparr>"
  let ?p = "\<lparr>next_thread = 0, stop_flag = False, signalled = [False], new_fds = [[]], loop_fds = [[]], conn_maps = [[]],
      closed_fds = [], client = ?c\<rparr>"
  let ?p1 = "?p\<lparr>signalled := [True], new_fds := [[5]]\<rparr>"
  let ?p2 = "?p\<lparr>loop_fds := [[(5, Mode_read)]], conn_maps := [[(5, new_connection)]],
      client := ?c\<lparr>connections := [[(5, (True, 0))]], connection_gauge := 1\<rparr>\<rparr>"
  have p: "new_riemann_pool 1 = Inr ?p" by (simp add: new_riemann_pool_def new_tcp_pool_def new_gauge_def)
  have "pool_run create_conn (data_ready [16, 1]) no_async ?p ([] @ [Connect 5]) ?p1"
    by (rule pool_run.step, rule pool_run.start)
      (simp_all add: possible_def open_fds_def pool_do_def add_client_def take_next_thread_def add_client_to_def signal_thread_def
        thread_num_def on_loop_def Let_def)
  then have run: "pool_run create_conn (data_ready [16, 1]) no_async ?p (([] @ [Connect 5]) @ [Wake 0]) ?p2"
    by (rule pool_run.step)
      (simp_all add: possible_def pool_do_def async_callback_def async_hook_def add_fds_def take_fd_def add_fd_def create_conn_def
        no_async_def thread_num_def on_loop_def um_set_def map_insert_def gauge_incr_def Let_def)
  have "\<exists>q. data_ready [16, 1] 0 5 frame_io ?p2 = Inr q"
    by (auto simp: data_ready_def set_fd_mode_def Let_def split: prod.split)
  then obtain q where "pool_do create_conn (data_ready [16, 1]) no_async (Ready 0 5 frame_io) ?p2 = Inr q"
    by (auto simp: pool_do_def socket_callback_def)
  moreover have "possible ?p2 (Ready 0 5 frame_io)" by (simp add: possible_def thread_num_def watched_def)
  ultimately have "pool_run create_conn (data_ready [16, 1]) no_async ?p ((([] @ [Connect 5]) @ [Wake 0]) @ [Ready 0 5 frame_io]) q"
    using pool_run.step [OF run] by blast
  then have "pool_run create_conn (data_ready [16, 1]) no_async ?p [Connect 5, Wake 0, Ready 0 5 frame_io] q" by simp
  with p show ?thesis by blast
qed

theorem riemann_pool_isolates_witness:
  "\<exists>p q. new_riemann_pool 1 = Inr p
     \<and> pool_run create_conn (data_ready [16, 1]) no_async p [Connect 5, Wake 0, Ready 0 5 frame_io] q
     \<and> map snd (filter (\<lambda>m. fst m = 5) (raw_msgs (client q))) = [[7]]"
proof -
  obtain p q where pq: "new_riemann_pool 1 = Inr p"
      "pool_run create_conn (data_ready [16, 1]) no_async p [Connect 5, Wake 0, Ready 0 5 frame_io] q"
    using sample_run by blast
  moreover have "count (mset (accepted_fds [Connect 5, Wake 0, Ready 0 5 frame_io])) 5 = 1"
    by (simp add: accepted_fds_def)
  moreover have "own_ios 5 [Connect 5, Wake 0, Ready 0 5 frame_io] = [frame_io]" by (simp add: own_ios_def)
  ultimately have "map snd (filter (\<lambda>m. fst m = 5) (raw_msgs (client q))) = [[7]]"
    using riemann_pool_isolates [of 1 p "[16, 1]" _ q 5] serve_frame by metis
  with pq show ?thesis by (intro exI [of _ p] exI [of _ q] conjI)
qed

theorem riemann_pool_books_witness:
  "\<exists>p q. new_riemann_pool 1 = Inr p
     \<and> pool_run create_conn (data_ready [16, 1]) no_async p [Connect 5, Wake 0, Ready 0 5 frame_io] q
     \<and> {#5#} = mset (open_fds q) + mset (closed_fds q)"
proof -
  obtain p q where pq: "new_riemann_pool 1 = Inr p"
      "pool_run create_conn (data_ready [16, 1]) no_async p [Connect 5, Wake 0, Ready 0 5 frame_io] q"
    using sample_run by blast
  moreover have "mset (accepted_fds [Connect 5, Wake 0, Ready 0 5 frame_io]) = {#5#}" by (simp add: accepted_fds_def)
  ultimately show ?thesis using riemann_pool_books [OF pq] by metis
qed

end
