(* ===== verification/Client_Pool.thy ===== *)
theory Client_Pool
  imports Tcp_Pool Event
begin

text \<open>
  \<open>transport/tcp_client_pool.cpp\<close>: connections from this process to other servers, which carry events in
  batches. It uses the pool of connections, but it breaks the laws of a user when a write fails.
\<close>

section \<open>The state of a client pool\<close>

text \<open>
  For every loop: the events that wait to be put into a batch, whether the next batch is due whatever its
  size, and for every connection the batches that wait to be written.
\<close>

record tcp_client_pool =
  thread_queues :: "event list list"
  fd_queues :: "(int, byte list list) um list"
  flush_batch :: "bool list"
  batch_size :: nat
  client_next :: nat

definition k_queue_capacity :: nat where "k_queue_capacity = 10000"

definition new_client_pool :: "nat \<Rightarrow> nat \<Rightarrow> exn + tcp_client_pool tcp_pool" where
  "new_client_pool n bs =
     new_tcp_pool n \<lparr>thread_queues = replicate n [], fd_queues = replicate n [], flush_batch = replicate n False,
                     batch_size = bs, client_next = 0\<rparr>"

text \<open>The other constructor, for single events, aborts.\<close>

definition new_unbatched_pool :: "nat \<Rightarrow> exn + tcp_client_pool tcp_pool" where
  "new_unbatched_pool n = Inl Check_failed"

definition client_push_event :: "event \<Rightarrow> tcp_client_pool tcp_pool \<Rightarrow> exn + tcp_client_pool tcp_pool" where
  "client_push_event e p =
     (let c = client p; t = client_next c
      in if k_queue_capacity \<le> length (thread_queues c ! t) then Inr p
         else let p1 = p\<lparr>client := c\<lparr>thread_queues := on_loop t (\<lambda>q. q @ [e]) (thread_queues c)\<rparr>\<rparr>
              in if length (thread_queues c ! t) + 1 < batch_size c then Inr p1
                 else bind_exn (signal_thread t p1) (\<lambda>p2.
                        Inr (p2\<lparr>client := (client p2)\<lparr>client_next := (t + 1) mod length (thread_queues c)\<rparr>\<rparr>)))"

definition client_create_conn :: "tcp_client_pool create_fn" where
  "client_create_conn i fd p = p\<lparr>client := (client p)\<lparr>fd_queues := on_loop i (\<lambda>m. map_insert m fd []) (fd_queues (client p))\<rparr>\<rparr>"

section \<open>Writing\<close>

text \<open>Batches move into the buffer of the connection while there is room; whether any did, what is left.\<close>

fun fill_buffer :: "byte list list \<Rightarrow> tcp_connection \<Rightarrow> bool \<times> byte list list \<times> tcp_connection" where
  "fill_buffer [] c = (False, [], c)"
| "fill_buffer (b # bs) c =
     (case queue_write b c of
        (False, c1) \<Rightarrow> (False, b # bs, c1)
      | (True, c1) \<Rightarrow> (case fill_buffer bs c1 of (_, r, c2) \<Rightarrow> (True, r, c2)))"

text \<open>
  What \<open>data_ready\<close> does to one connection: the bytes that went out, the batches that are left, the
  connection, the mode it asks for and whether it forgets the connection.
\<close>

definition client_io :: "io \<Rightarrow> byte list list \<Rightarrow> tcp_connection
    \<Rightarrow> byte list \<times> byte list list \<times> tcp_connection \<times> fd_mode option \<times> bool" where
  "client_io x out c =
     (let c1 = (case io_read x of None \<Rightarrow> c | Some recv \<Rightarrow> snd (tcp_read recv c))
      in if io_read x \<noteq> None \<and> close_connection c1 then ([], out, c1, None, True)
         else if \<not> pending_write c1 \<and> out = [] then ([], out, c1, Some Mode_read, False)
         else (case io_write x of
                 None \<Rightarrow> ([], out, c1, None, False)
               | Some wr \<Rightarrow>
                   let (popped, out1, c2) = fill_buffer out c1
                   in (case wr (w_buffer c2) of None \<Rightarrow> [] | Some n \<Rightarrow> take n (w_buffer c2),
                       out1, snd (tcp_write wr c2), if popped then Some Mode_readwrite else None, False)))"

definition set_mode_opt :: "nat \<Rightarrow> int \<Rightarrow> fd_mode option \<Rightarrow> 'c tcp_pool \<Rightarrow> exn + 'c tcp_pool" where
  "set_mode_opt i fd m p = (case m of None \<Rightarrow> Inr p | Some mode \<Rightarrow> set_fd_mode i fd mode p)"

definition client_data_ready :: "tcp_client_pool ready_fn" where
  "client_data_ready i fd x p =
     (case map_of (fd_queues (client p) ! i) fd of
        None \<Rightarrow> Inl Check_failed
      | Some out \<Rightarrow>
          (case map_of (conn_maps p ! i) fd of
             None \<Rightarrow> Inl Undefined
           | Some t \<Rightarrow>
               (case client_io x out t of
                  (_, out1, t1, m, forget) \<Rightarrow>
                    set_mode_opt i fd m
                      (p\<lparr>conn_maps := on_loop i (\<lambda>m. um_set m fd t1) (conn_maps p),
                         client := (client p)\<lparr>fd_queues := on_loop i (\<lambda>m. if forget then um_erase m fd else um_set m fd out1)
                                                              (fd_queues (client p))\<rparr>\<rparr>))))"

section \<open>Batches\<close>

text \<open>
  A batch is moved into the queue of the first connection that has room; what is moved into the queues of
  the others is the empty vector that is left.
\<close>

fun enqueue_output :: "nat \<Rightarrow> int list \<Rightarrow> byte list \<Rightarrow> tcp_client_pool tcp_pool \<Rightarrow> exn + tcp_client_pool tcp_pool" where
  "enqueue_output i [] out p = Inr p"
| "enqueue_output i (fd # fds) out p =
     (case map_of (fd_queues (client p) ! i) fd of
        None \<Rightarrow> Inl Undefined
      | Some q \<Rightarrow>
          if k_queue_capacity < length q then enqueue_output i fds out p
          else bind_exn
                 (set_fd_mode i fd Mode_readwrite
                    (p\<lparr>client := (client p)\<lparr>fd_queues := on_loop i (\<lambda>m. um_set m fd (q @ [out])) (fd_queues (client p))\<rparr>\<rparr>))
                 (enqueue_output i fds []))"

definition batch_due :: "nat \<Rightarrow> tcp_client_pool \<Rightarrow> bool" where
  "batch_due i c \<longleftrightarrow> flush_batch c ! i \<or> batch_size c < length (thread_queues c ! i)"

definition client_async :: "(event list \<Rightarrow> byte list) \<Rightarrow> (int list \<Rightarrow> int list) \<Rightarrow> tcp_client_pool async_fn" where
  "client_async encode ord i p =
     (let c = client p; events = thread_queues c ! i
      in if fd_queues c ! i = [] \<or> \<not> batch_due i c \<or> events = [] then Inr p
         else enqueue_output i (ord (map fst (fd_queues c ! i))) (encode events)
                (p\<lparr>client := c\<lparr>thread_queues := (thread_queues c)[i := []],
                               flush_batch := (flush_batch c)[i := False]\<rparr>\<rparr>))"

section \<open>Timers\<close>

definition signal_batch_flush :: "nat \<Rightarrow> tcp_client_pool tcp_pool \<Rightarrow> exn + tcp_client_pool tcp_pool" where
  "signal_batch_flush i p =
     signal_thread i (p\<lparr>client := (client p)\<lparr>flush_batch := (flush_batch (client p))[i := True]\<rparr>\<rparr>)"

text \<open>\<open>connect\<close> is the descriptor of a new connection to the server, none when connecting fails.\<close>

definition connect_clients :: "int option \<Rightarrow> nat \<Rightarrow> tcp_client_pool tcp_pool \<Rightarrow> exn + tcp_client_pool tcp_pool" where
  "connect_clients connect i p =
     (if fd_queues (client p) ! i \<noteq> [] then Inr p
      else case connect of None \<Rightarrow> Inr p | Some fd \<Rightarrow> add_client_to i fd p)"


section \<open>A connection that fails while writing\<close>

lemma fill_buffer_split:
  assumes "fill_buffer out c = (popped, out1, c2)"
  shows "w_buffer c2 @ concat out1 = w_buffer c @ concat out \<and> (popped \<or> out1 = out)
    \<and> length out1 \<le> length out \<and> close_connection c2 = close_connection c"
  using assms
proof (induction out arbitrary: c popped out1 c2)
  case (Cons b bs)
  show ?case
  proof (cases "w_reserve c < length b")
    case True
    then show ?thesis using Cons.prems by (simp add: queue_write_def)
  next
    case False
    let ?c = "c\<lparr>w_buffer := w_buffer c @ b\<rparr>"
    obtain pop r d where f: "fill_buffer bs ?c = (pop, r, d)" by (cases "fill_buffer bs ?c") auto
    then have "popped" "out1 = r" "c2 = d" using Cons.prems False by (simp_all add: queue_write_def)
    then show ?thesis using Cons.IH [OF f] by simp
  qed
qed simp

text \<open>
  C37. When the write of a client connection fails, the pool closes the descriptor but the connection stays in
  the tables of the client: the loop never connects to the server again, and the next batch makes it
  reach for a descriptor that is gone.
\<close>

theorem client_write_failure:
  assumes "i < length (loop_fds p)" "i < length (conn_maps p)" "i < length (fd_queues (client p))"
    "i < length (flush_batch (client p))" "i < thread_num p"
    "loop_fds p ! i = [(fd, m)]" "conn_maps p ! i = [(fd, t)]" "fd_queues (client p) ! i = [(fd, out)]"
    "io_read x = None" "io_write x = Some (\<lambda>_. None)" "pending_write t \<or> out \<noteq> []"
  shows "\<exists>q. socket_callback client_data_ready i fd x p = Inr q \<and> watched i q = [] \<and> closed_fds q = closed_fds p @ [fd]
    \<and> map fst (fd_queues (client q) ! i) = [fd] \<and> (\<forall>c. connect_clients c i q = Inr q)
    \<and> (thread_queues (client p) ! i \<noteq> [] \<and> length out \<le> k_queue_capacity \<longrightarrow>
         bind_exn (signal_batch_flush i q) (client_async encode (\<lambda>fds. fds) i) = Inl Undefined)"
proof -
  obtain popped out1 c where f: "fill_buffer out t = (popped, out1, c)" by (cases "fill_buffer out t") auto
  let ?t = "c\<lparr>close_connection := True\<rparr>"
  let ?mode = "if popped then Mode_readwrite else m"
  let ?p1 = "p\<lparr>conn_maps := (conn_maps p)[i := [(fd, ?t)]], loop_fds := (loop_fds p)[i := [(fd, ?mode)]],
      client := (client p)\<lparr>fd_queues := (fd_queues (client p))[i := [(fd, out1)]]\<rparr>\<rparr>"
  let ?q = "?p1\<lparr>conn_maps := (conn_maps p)[i := []], loop_fds := (loop_fds p)[i := []], closed_fds := closed_fds p @ [fd]\<rparr>"
  have io: "client_io x out t = ([], out1, ?t, if popped then Some Mode_readwrite else None, False)"
    using assms(9-11) f by (simp add: client_io_def tcp_write_def write_to_fd_def)
  have same: "(loop_fds p)[i := [(fd, m)]] = loop_fds p" using assms(6) by (metis list_update_id)
  have "client_data_ready i fd x p = Inr ?p1"
    using assms(1-8) io same
    by (auto simp: client_data_ready_def set_mode_opt_def set_fd_mode_def on_loop_def um_set_def)
  then have "socket_callback client_data_ready i fd x p = Inr ?q"
    using assms(1,2,7) by (simp add: socket_callback_def closing_def remove_fd_def on_loop_def um_erase_def Let_def)
  moreover have "length out1 \<le> length out" using fill_buffer_split [OF f] by simp
  moreover have "bind_exn (signal_batch_flush i ?q) (client_async encode (\<lambda>fds. fds) i) = Inl Undefined"
    if "thread_queues (client p) ! i \<noteq> [] \<and> length out \<le> k_queue_capacity"
    using that assms(1,3-5) \<open>length out1 \<le> length out\<close>
    by (simp add: signal_batch_flush_def signal_thread_def thread_num_def client_async_def batch_due_def set_fd_mode_def Let_def)
  ultimately show ?thesis using assms(1,3)
    by (intro exI [of _ ?q]) (simp add: watched_def connect_clients_def)
qed


section \<open>What reaches the server\<close>

text \<open>What happens to a client pool, and what it does to one loop and its connection.\<close>

datatype client_event = Push event | Flush nat | Signal nat | Io nat int io

definition client_do :: "(event list \<Rightarrow> byte list) \<Rightarrow> (int list \<Rightarrow> int list) \<Rightarrow> client_event
    \<Rightarrow> tcp_client_pool tcp_pool \<Rightarrow> exn + tcp_client_pool tcp_pool" where
  "client_do encode ord e p =
     (case e of
        Push ev \<Rightarrow> client_push_event ev p
      | Flush j \<Rightarrow> signal_batch_flush j p
      | Signal j \<Rightarrow> async_callback client_create_conn (client_async encode ord) j p
      | Io j f x \<Rightarrow> socket_callback client_data_ready j f x p)"

definition queue_of :: "nat \<Rightarrow> tcp_client_pool tcp_pool \<Rightarrow> event list" where
  "queue_of i p = thread_queues (client p) ! i"

definition out_of :: "nat \<Rightarrow> tcp_client_pool tcp_pool \<Rightarrow> byte list list" where
  "out_of i p = snd (hd (fd_queues (client p) ! i))"

definition conn_of :: "nat \<Rightarrow> int \<Rightarrow> tcp_client_pool tcp_pool \<Rightarrow> tcp_connection" where
  "conn_of i fd p = the (map_of (conn_maps p ! i) fd)"

fun pushed :: "nat \<Rightarrow> tcp_client_pool tcp_pool \<Rightarrow> client_event \<Rightarrow> event list" where
  "pushed i p (Push ev) = (if client_next (client p) = i \<and> length (queue_of i p) < k_queue_capacity then [ev] else [])"
| "pushed i p _ = []"

fun batched :: "nat \<Rightarrow> tcp_client_pool tcp_pool \<Rightarrow> client_event \<Rightarrow> event list list" where
  "batched i p (Signal j) = (if j = i \<and> batch_due i (client p) \<and> queue_of i p \<noteq> [] then [queue_of i p] else [])"
| "batched i p _ = []"

fun written :: "nat \<Rightarrow> int \<Rightarrow> tcp_client_pool tcp_pool \<Rightarrow> client_event \<Rightarrow> byte list" where
  "written i fd p (Io j f x) = (if j = i \<and> f = fd then fst (client_io x (out_of i p) (conn_of i fd p)) else [])"
| "written i fd p _ = []"

text \<open>Loop \<open>i\<close> has the open connection \<open>fd\<close>, the only one, and its queue has room.\<close>

definition linked :: "nat \<Rightarrow> int \<Rightarrow> tcp_client_pool tcp_pool \<Rightarrow> bool" where
  "linked i fd p \<longleftrightarrow> i < thread_num p \<and> length (thread_queues (client p)) = thread_num p
     \<and> length (fd_queues (client p)) = thread_num p \<and> length (flush_batch (client p)) = thread_num p
     \<and> length (conn_maps p) = thread_num p \<and> length (loop_fds p) = thread_num p
     \<and> \<not> stop_flag p \<and> new_fds p ! i = [] \<and> map fst (fd_queues (client p) ! i) = [fd] \<and> length (out_of i p) \<le> k_queue_capacity
     \<and> fd \<in> set (watched i p) \<and> map_of (conn_maps p ! i) fd \<noteq> None \<and> \<not> close_connection (conn_of i fd p)"

inductive link_run :: "(event list \<Rightarrow> byte list) \<Rightarrow> (int list \<Rightarrow> int list) \<Rightarrow> nat \<Rightarrow> int \<Rightarrow> tcp_client_pool tcp_pool
    \<Rightarrow> event list \<Rightarrow> event list list \<Rightarrow> byte list \<Rightarrow> tcp_client_pool tcp_pool \<Rightarrow> bool"
  for encode ord i fd p
where
  start: "linked i fd p \<Longrightarrow> link_run encode ord i fd p [] [] [] p"
| step: "link_run encode ord i fd p evs bs bytes q \<Longrightarrow> client_do encode ord e q = Inr r \<Longrightarrow> linked i fd r \<Longrightarrow>
    link_run encode ord i fd p (evs @ pushed i q e) (bs @ batched i q e) (bytes @ written i fd q e) r"

text \<open>Steps of other loops leave a loop alone.\<close>

definition same_loop :: "nat \<Rightarrow> tcp_client_pool tcp_pool \<Rightarrow> tcp_client_pool tcp_pool \<Rightarrow> bool" where
  "same_loop i p q \<longleftrightarrow> thread_queues (client q) ! i = thread_queues (client p) ! i
     \<and> fd_queues (client q) ! i = fd_queues (client p) ! i \<and> conn_maps q ! i = conn_maps p ! i"

lemma same_loop_refl [simp]: "same_loop i p p"
  by (simp add: same_loop_def)

lemma same_loop_trans: "same_loop i p q \<Longrightarrow> same_loop i q r \<Longrightarrow> same_loop i p r"
  by (simp add: same_loop_def)

lemma on_loop_other [simp]: "i \<noteq> j \<Longrightarrow> on_loop j f xs ! i = xs ! i"
  by (simp add: on_loop_def)

lemma set_fd_mode_same: "set_fd_mode j fd m p = Inr q \<Longrightarrow> same_loop i p q"
  by (auto simp: set_fd_mode_def same_loop_def split: option.splits)

lemma enqueue_output_same: "j \<noteq> i \<Longrightarrow> enqueue_output j fds out p = Inr q \<Longrightarrow> same_loop i p q"
proof (induction j fds out p rule: enqueue_output.induct)
  case (2 j fd fds out p)
  obtain qu where qu: "map_of (fd_queues (client p) ! j) fd = Some qu" using "2.prems"(2) by (auto split: option.splits)
  show ?case
  proof (cases "k_queue_capacity < length qu")
    case True
    then show ?thesis using 2 qu by simp
  next
    case False
    let ?p = "p\<lparr>client := (client p)\<lparr>fd_queues := on_loop j (\<lambda>m. um_set m fd (qu @ [out])) (fd_queues (client p))\<rparr>\<rparr>"
    obtain r where r: "set_fd_mode j fd Mode_readwrite ?p = Inr r" "enqueue_output j fds [] r = Inr q"
      using "2.prems"(2) qu False by (auto simp: bind_exn_Inr_iff)
    have "same_loop i p ?p" using "2.prems"(1) by (simp add: same_loop_def)
    with set_fd_mode_same [OF r(1), of i] "2.IH"(2) [OF qu False "2.prems"(1) r(2)] show ?thesis
      using same_loop_trans by blast
  qed
qed simp

lemma take_fd_same: "j \<noteq> i \<Longrightarrow> same_loop i p (take_fd client_create_conn j fd p)"
  by (auto simp: take_fd_def add_fd_def client_create_conn_def same_loop_def Let_def split: option.split)

lemma take_fds_same: "j \<noteq> i \<Longrightarrow> same_loop i p (fold (take_fd client_create_conn j) fds p)"
  by (induction fds arbitrary: p) (auto intro: same_loop_trans take_fd_same)

lemma client_async_same: "j \<noteq> i \<Longrightarrow> client_async encode ord j p = Inr q \<Longrightarrow> same_loop i p q"
proof -
  assume j: "j \<noteq> i" and q: "client_async encode ord j p = Inr q"
  let ?p = "p\<lparr>client := (client p)\<lparr>thread_queues := (thread_queues (client p))[j := []],
      flush_batch := (flush_batch (client p))[j := False]\<rparr>\<rparr>"
  have "same_loop i p ?p" using j by (simp add: same_loop_def)
  with j q show ?thesis
    using enqueue_output_same [OF j] same_loop_trans by (auto simp: client_async_def Let_def split: if_splits)
qed

lemma async_callback_same:
  assumes "j \<noteq> i" "async_callback client_create_conn (client_async encode ord) j p = Inr q"
  shows "same_loop i p q"
proof -
  let ?p = "p\<lparr>signalled := (signalled p)[j := False]\<rparr>"
  let ?p1 = "add_fds client_create_conn j ?p"
  have s: "same_loop i p ?p" by (simp add: same_loop_def)
  have "same_loop i ?p (?p\<lparr>new_fds := (new_fds ?p)[j := []]\<rparr>)" by (simp add: same_loop_def)
  then have "same_loop i ?p ?p1" using take_fds_same [OF assms(1)] same_loop_trans unfolding add_fds_def by blast
  with s have "same_loop i p ?p1" using same_loop_trans by blast
  with s client_async_same [OF assms(1)] assms(2) show ?thesis
    by (auto simp: async_callback_def async_hook_def Let_def split: if_splits intro: same_loop_trans)
qed

lemma client_data_ready_same:
  assumes "j \<noteq> i" "client_data_ready j f x p = Inr q"
  shows "same_loop i p q"
  using assms
  by (auto simp: client_data_ready_def set_mode_opt_def set_fd_mode_def same_loop_def split: option.splits prod.splits)

lemma socket_callback_same:
  assumes "j \<noteq> i" "socket_callback client_data_ready j f x p = Inr q"
  shows "same_loop i p q"
proof -
  obtain r where r: "client_data_ready j f x p = Inr r" "q = (if closing j f r then drop_fd j f r else r)"
    using assms(2) by (auto simp: socket_callback_def drop_fd_def Let_def bind_exn_Inr_iff split: option.splits)
  have "same_loop i r (drop_fd j f r)"
    using assms(1) by (auto simp: same_loop_def drop_fd_def remove_fd_def Let_def split: option.split)
  then show ?thesis using r(2) client_data_ready_same [OF assms(1) r(1)] same_loop_trans by auto
qed


lemma client_io_bytes:
  assumes "client_io x out c = (bytes, out1, c1, m, forget)"
  shows "w_buffer c @ concat out = bytes @ w_buffer c1 @ concat out1"
proof -
  let ?c = "case io_read x of None \<Rightarrow> c | Some recv \<Rightarrow> snd (tcp_read recv c)"
  have w: "w_buffer ?c = w_buffer c"
    by (auto simp: tcp_read_def read_from_fd_def split: option.split recv_result.split bool.split)
  obtain popped out2 c2 where f: "fill_buffer out ?c = (popped, out2, c2)" by (cases "fill_buffer out ?c") auto
  have s: "w_buffer c2 @ concat out2 = w_buffer c @ concat out" using fill_buffer_split [OF f] w by simp
  show ?thesis
  proof (cases "(bytes, out1, c1) = ([], out, ?c)")
    case True
    then show ?thesis using w by simp
  next
    case False
    then obtain wr where wr: "io_write x = Some wr"
      using assms by (cases "io_write x") (simp_all add: client_io_def Let_def split: if_splits)
    then have "bytes = (case wr (w_buffer c2) of None \<Rightarrow> [] | Some n \<Rightarrow> take n (w_buffer c2))" "out1 = out2"
        "c1 = snd (tcp_write wr c2)"
      using assms f False by (simp_all add: client_io_def Let_def split: if_splits)
    moreover from this have "bytes @ w_buffer c1 = w_buffer c2"
      by (simp add: tcp_write_def write_to_fd_def split: option.split)
    ultimately show ?thesis using s by (metis append.assoc)
  qed
qed

lemma linked_out: "linked i fd p \<Longrightarrow> fd_queues (client p) ! i = [(fd, out_of i p)]"
  by (auto simp: linked_def out_of_def)

lemma enqueue_single:
  assumes "fd_queues (client p) ! i = [(fd, out)]" "i < length (fd_queues (client p))" "length out \<le> k_queue_capacity"
    "enqueue_output i [fd] b p = Inr q"
  shows "fd_queues (client q) ! i = [(fd, out @ [b])]" "thread_queues (client q) = thread_queues (client p)"
    "conn_maps q = conn_maps p"
  using assms by (auto simp: set_fd_mode_def um_set_def on_loop_def split: option.splits)

lemma link_signal:
  assumes "linked i fd p" "iteration_order ord" "async_callback client_create_conn (client_async encode ord) i p = Inr q"
  shows "queue_of i q = (if batch_due i (client p) then [] else queue_of i p)
    \<and> out_of i q = out_of i p @ map encode (batched i p (Signal i)) \<and> conn_maps q ! i = conn_maps p ! i"
proof -
  have ord: "ord [fd] = [fd]" using assms(2) unfolding iteration_order_def by (metis mset_single_iff mset.simps)
  have l: "\<not> stop_flag p" "new_fds p ! i = []" "i < length (fd_queues (client p))" "i < length (thread_queues (client p))"
      "length (out_of i p) \<le> k_queue_capacity"
    using assms(1) by (simp_all add: linked_def)
  let ?p = "p\<lparr>signalled := (signalled p)[i := False]\<rparr>"
  have "(new_fds p)[i := []] = new_fds p" using l(2) by (metis list_update_id)
  then have "add_fds client_create_conn i ?p = ?p" using l(2) by (simp add: add_fds_def)
  then have a: "client_async encode ord i ?p = Inr q"
    using assms(3) l(1) by (simp add: async_callback_def async_hook_def Let_def split: if_splits)
  show ?thesis
  proof (cases "batch_due i (client p) \<and> queue_of i p \<noteq> []")
    case False
    then have "q = ?p" using a by (auto simp: client_async_def queue_of_def Let_def split: if_splits)
    then show ?thesis using False by (auto simp: queue_of_def out_of_def)
  next
    case True
    let ?r = "?p\<lparr>client := (client p)\<lparr>thread_queues := (thread_queues (client p))[i := []],
        flush_batch := (flush_batch (client p))[i := False]\<rparr>\<rparr>"
    have "enqueue_output i [fd] (encode (queue_of i p)) ?r = Inr q"
      using a True linked_out [OF assms(1)] ord by (simp add: client_async_def queue_of_def Let_def)
    from enqueue_single [OF _ _ l(5) this] linked_out [OF assms(1)] l(3)
    have e: "fd_queues (client q) ! i = [(fd, out_of i p @ [encode (queue_of i p)])]"
        "thread_queues (client q) = (thread_queues (client p))[i := []]" "conn_maps q = conn_maps p" by simp_all
    then show ?thesis using l(4) True by (simp add: queue_of_def [of i q] out_of_def [of i q])
  qed
qed

lemma link_push:
  assumes "linked i fd p" "client_push_event ev p = Inr q"
  shows "queue_of i q = queue_of i p @ pushed i p (Push ev) \<and> fd_queues (client q) ! i = fd_queues (client p) ! i
    \<and> conn_maps q ! i = conn_maps p ! i"
proof -
  let ?t = "client_next (client p)"
  have i: "i < length (thread_queues (client p))" using assms(1) by (simp add: linked_def)
  have "fd_queues (client q) = fd_queues (client p) \<and> conn_maps q = conn_maps p \<and>
    thread_queues (client q) = (if k_queue_capacity \<le> length (thread_queues (client p) ! ?t) then thread_queues (client p)
      else on_loop ?t (\<lambda>qu. qu @ [ev]) (thread_queues (client p)))"
    using assms(2) by (simp add: client_push_event_def signal_thread_def Let_def split: if_splits) auto
  then show ?thesis using i by (cases "?t = i") (simp_all add: queue_of_def on_loop_def)
qed

lemma link_io:
  assumes "linked i fd p" "linked i fd q" "socket_callback client_data_ready i f x p = Inr q"
  shows "f = fd \<and> queue_of i q = queue_of i p
    \<and> w_buffer (conn_of i fd p) @ concat (out_of i p) = written i fd p (Io i f x) @ w_buffer (conn_of i fd q) @ concat (out_of i q)"
proof -
  have out: "fd_queues (client p) ! i = [(fd, out_of i p)]" "fd_queues (client q) ! i = [(fd, out_of i q)]"
    using linked_out assms(1,2) by blast+
  obtain r where r: "client_data_ready i f x p = Inr r" "q = (if closing i f r then drop_fd i f r else r)"
    using assms(3) by (auto simp: socket_callback_def drop_fd_def Let_def bind_exn_Inr_iff split: option.splits)
  have f: "f = fd" using r(1) by (auto simp: client_data_ready_def out split: option.splits if_splits)
  have t: "map_of (conn_maps p ! i) fd = Some (conn_of i fd p)" using assms(1) by (auto simp: linked_def conn_of_def)
  obtain bytes out1 c1 m forget where io: "client_io x (out_of i p) (conn_of i fd p) = (bytes, out1, c1, m, forget)"
    by (metis prod.exhaust)
  let ?p = "p\<lparr>conn_maps := on_loop i (\<lambda>m. um_set m fd c1) (conn_maps p),
      client := (client p)\<lparr>fd_queues := on_loop i (\<lambda>m. if forget then um_erase m fd else um_set m fd out1) (fd_queues (client p))\<rparr>\<rparr>"
  have "set_mode_opt i fd m ?p = Inr r" using r(1) out(1) t io unfolding client_data_ready_def f by simp
  then have rs: "client r = client ?p" "conn_maps r = conn_maps ?p"
    by (auto simp: set_mode_opt_def set_fd_mode_def split: option.splits)
  have len: "i < length (conn_maps p)" "i < length (fd_queues (client p))" using assms(1) by (simp_all add: linked_def)
  have "\<not> closing i fd r"
  proof
    assume "closing i fd r"
    then have "map_of (conn_maps q ! i) fd = None"
      using r(2) f rs(2) len by (auto simp: drop_fd_def remove_fd_def on_loop_def Let_def split: option.splits)
    then show False using assms(2) by (simp add: linked_def)
  qed
  then have q: "q = r" using r(2) f by simp
  have "\<not> forget" using out(2) len unfolding q rs by (auto simp: on_loop_def out(1) um_erase_def split: if_splits)
  then have "out_of i q = out1" "conn_of i fd q = c1" "queue_of i q = queue_of i p"
    using len unfolding q by (simp_all add: out_of_def [of i r] conn_of_def [of i fd r] queue_of_def rs on_loop_def out(1) um_set_def update_conv')
  then show ?thesis using client_io_bytes [OF io] f io by simp
qed

lemma link_step:
  assumes "linked i fd p" "linked i fd q" "iteration_order ord" "client_do encode ord e p = Inr q"
  shows "concat (batched i p e) @ queue_of i q = queue_of i p @ pushed i p e
    \<and> w_buffer (conn_of i fd p) @ concat (out_of i p) @ concat (map encode (batched i p e))
        = written i fd p e @ w_buffer (conn_of i fd q) @ concat (out_of i q)"
proof (cases e)
  case (Push ev)
  then show ?thesis
    using link_push [OF assms(1), of ev q] assms(4) by (simp add: client_do_def conn_of_def out_of_def)
next
  case (Flush j)
  then show ?thesis
    using assms(4)
    by (auto simp: client_do_def signal_batch_flush_def signal_thread_def conn_of_def out_of_def queue_of_def split: if_splits)
next
  case (Signal j)
  show ?thesis
  proof (cases "j = i")
    case True
    then show ?thesis
      using link_signal [OF assms(1,3), of encode q] assms(4) by (auto simp: Signal client_do_def conn_of_def)
  next
    case False
    then have "same_loop i p q" using async_callback_same [of j i encode ord p q] assms(4) by (simp add: Signal client_do_def)
    then show ?thesis using False by (simp add: Signal same_loop_def queue_of_def out_of_def conn_of_def)
  qed
next
  case (Io j f x)
  show ?thesis
  proof (cases "j = i")
    case True
    then show ?thesis using link_io [OF assms(1,2), of f x] assms(4) by (simp add: Io client_do_def)
  next
    case False
    then have "same_loop i p q" using socket_callback_same [of j i f x p q] assms(4) by (simp add: Io client_do_def)
    then show ?thesis using False by (simp add: Io same_loop_def queue_of_def out_of_def conn_of_def)
  qed
qed

text \<open>
  C10. While a loop keeps its connection to the server, the server receives the events that the loop was given:
  each once and in order, cut into batches, each batch whole. What has not arrived is in the buffer of
  the connection, in the queue of batches or in the queue of events.
\<close>

theorem client_delivers:
  assumes "link_run encode ord i fd p evs bs bytes q" "iteration_order ord"
    and "queue_of i p = []" "out_of i p = []" "w_buffer (conn_of i fd p) = []"
  shows "evs = concat bs @ queue_of i q
    \<and> concat (map encode bs) = bytes @ w_buffer (conn_of i fd q) @ concat (out_of i q)"
proof -
  have "linked i fd q \<and> evs = concat bs @ queue_of i q
    \<and> concat (map encode bs) = bytes @ w_buffer (conn_of i fd q) @ concat (out_of i q)"
    using assms(1)
  proof (induction rule: link_run.induct)
    case start
    then show ?case using assms(3-5) by simp
  next
    case (step evs bs bytes q e r)
    then show ?case using link_step [of i fd q r ord encode e] assms(2) by simp
  qed
  then show ?thesis by blast
qed


text \<open>A pool with one loop, connected, before anything was sent.\<close>

definition sample_pool :: "tcp_client_pool tcp_pool" where
  "sample_pool =
     \<lparr>next_thread = 0, stop_flag = False, signalled = [False], new_fds = [[]], loop_fds = [[(5, Mode_read)]],
      conn_maps = [[(5, new_connection)]], closed_fds = [],
      client = \<lparr>thread_queues = [[]], fd_queues = [[(5, [])]], flush_batch = [False], batch_size = 100, client_next = 0\<rparr>\<rparr>"

definition write_all :: io where
  "write_all = \<lparr>io_error = False, io_read = None, io_write = Some (\<lambda>bs. Some (length bs))\<rparr>"

lemma sample_link_run:
  "\<exists>q. link_run (\<lambda>es. [of_nat (length es)]) (\<lambda>fds. fds) 0 5 sample_pool [empty_event] [[empty_event]] [1] q"
proof -
  let ?enc = "\<lambda>es :: event list. [of_nat (length es) :: byte]" and ?ord = "\<lambda>fds :: int list. fds"
  let ?c = "client sample_pool"
  let ?p1 = "sample_pool\<lparr>client := ?c\<lparr>thread_queues := [[empty_event]]\<rparr>\<rparr>"
  let ?p2 = "?p1\<lparr>signalled := [True], client := (client ?p1)\<lparr>flush_batch := [True]\<rparr>\<rparr>"
  let ?p3 = "sample_pool\<lparr>loop_fds := [[(5, Mode_readwrite)]], client := ?c\<lparr>fd_queues := [[(5, [[1]])]]\<rparr>\<rparr>"
  let ?p4 = "?p3\<lparr>client := ?c\<rparr>"
  note defs = sample_pool_def linked_def out_of_def conn_of_def watched_def thread_num_def k_queue_capacity_def client_do_def
    queue_of_def on_loop_def new_connection_def
  have "link_run ?enc ?ord 0 5 sample_pool [] [] [] sample_pool" by (rule link_run.start) (simp add: defs)
  from link_run.step [OF this, of "Push empty_event" ?p1]
  have "link_run ?enc ?ord 0 5 sample_pool [empty_event] [] [] ?p1"
    by (simp add: defs client_push_event_def)
  from link_run.step [OF this, of "Flush 0" ?p2]
  have "link_run ?enc ?ord 0 5 sample_pool [empty_event] [] [] ?p2"
    by (simp add: defs signal_batch_flush_def signal_thread_def)
  from link_run.step [OF this, of "Signal 0" ?p3]
  have "link_run ?enc ?ord 0 5 sample_pool [empty_event] [[empty_event]] [] ?p3"
    by (simp add: defs async_callback_def async_hook_def add_fds_def client_async_def batch_due_def set_fd_mode_def um_set_def Let_def)
  from link_run.step [OF this, of "Io 0 5 write_all" ?p4]
  have "link_run ?enc ?ord 0 5 sample_pool [empty_event] [[empty_event]] [1] ?p4"
    by (simp add: defs socket_callback_def client_data_ready_def client_io_def write_all_def pending_write_def queue_write_def
        w_reserve_def k_default_buffer_size_def tcp_write_def write_to_fd_def set_mode_opt_def set_fd_mode_def closing_def um_set_def Let_def)
  then show ?thesis by blast
qed

theorem client_delivers_witness:
  "\<exists>q. link_run (\<lambda>es. [of_nat (length es)]) (\<lambda>fds. fds) 0 5 sample_pool [empty_event] [[empty_event]] [1] q
     \<and> queue_of 0 q = [] \<and> w_buffer (conn_of 0 5 q) = [] \<and> concat (out_of 0 q) = []"
proof -
  obtain q where q: "link_run (\<lambda>es. [of_nat (length es)]) (\<lambda>fds. fds) 0 5 sample_pool [empty_event] [[empty_event]] [1] q"
    using sample_link_run by blast
  have "queue_of 0 sample_pool = []" "out_of 0 sample_pool = []" "w_buffer (conn_of 0 5 sample_pool) = []"
    by (simp_all add: sample_pool_def queue_of_def out_of_def conn_of_def new_connection_def)
  from client_delivers [OF q _ this] q show ?thesis by (intro exI [of _ q]) auto
qed

theorem client_write_failure_witness:
  "\<exists>q. socket_callback client_data_ready 0 5 (write_all\<lparr>io_write := Some (\<lambda>_. None)\<rparr>)
       (sample_pool\<lparr>client := (client sample_pool)\<lparr>fd_queues := [[(5, [[1]])]], thread_queues := [[empty_event]]\<rparr>\<rparr>) = Inr q
     \<and> watched 0 q = [] \<and> (\<forall>c. connect_clients c 0 q = Inr q)
     \<and> bind_exn (signal_batch_flush 0 q) (client_async (\<lambda>_. []) (\<lambda>fds. fds) 0) = Inl Undefined"
proof -
  let ?p = "sample_pool\<lparr>client := (client sample_pool)\<lparr>fd_queues := [[(5, [[1]])]], thread_queues := [[empty_event]]\<rparr>\<rparr>"
  let ?x = "write_all\<lparr>io_write := Some (\<lambda>_. None)\<rparr>"
  have p: "0 < length (loop_fds ?p)" "0 < length (conn_maps ?p)" "0 < length (fd_queues (client ?p))"
    "0 < length (flush_batch (client ?p))" "0 < thread_num ?p" "loop_fds ?p ! 0 = [(5, Mode_read)]"
    "conn_maps ?p ! 0 = [(5, new_connection)]" "fd_queues (client ?p) ! 0 = [(5, [[1]])]" "io_read ?x = None"
    "io_write ?x = Some (\<lambda>_. None)" "pending_write new_connection \<or> [[1 :: byte]] \<noteq> []"
    by (simp_all add: sample_pool_def write_all_def thread_num_def)
  have "thread_queues (client ?p) ! 0 \<noteq> [] \<and> length [[1 :: byte]] \<le> k_queue_capacity"
    by (simp add: k_queue_capacity_def)
  with client_write_failure [OF p, of "\<lambda>_. []"] show ?thesis by blast
qed

end
