(* ===== verification/External.thy ===== *)
theory External
  imports Client_Pool Websocket Stream_Infra
begin

text \<open>
  What leaves the process: the lines for Graphite and the messages for another Riemann server, both sent in
  batches by the pools of theory \<open>Client_Pool\<close>; the mails and the requests to Pager Duty, which libcurl
  transfers; and the record of external calls that the rule tester keeps instead
  (\<open>src/src/external\<close>).
\<close>

section \<open>Graphite\<close>

text \<open>A line of the plaintext protocol per event: a dotted path, the value and the time.\<close>

definition graphite_escape :: "string \<Rightarrow> string" where
  "graphite_escape str = map (\<lambda>c. if c = CHR '' '' then CHR ''-'' else c) (map (\<lambda>c. if c = CHR ''.'' then CHR ''-'' else c) str)"

definition graphite_line :: "event \<Rightarrow> string" where
  "graphite_line e =
     host e @ ''.'' @ graphite_escape (service e) @ '' '' @ metric_to_str e @ '' '' @ int_to_string (time e) @ [CHR 0x0A]"

definition graphite_output :: "event list \<Rightarrow> byte list" where
  "graphite_output events = bytes_of (concat (map graphite_line events))"

definition k_graphite_batch_size :: nat where "k_graphite_batch_size = 100"

section \<open>Forwarding\<close>

text \<open>\<open>msg_bytes\<close> is the serialised message with the given events that the protobuf library produces.\<close>

definition riemann_output :: "(event list \<Rightarrow> byte list) \<Rightarrow> event list \<Rightarrow> byte list" where
  "riemann_output msg_bytes events = be32 (length (msg_bytes events)) @ msg_bytes events"

definition k_default_batch_size :: nat where "k_default_batch_size = 100"

section \<open>A pool per server\<close>

record outgoing =
  address :: "string \<times> int"
  out_pool :: "tcp_client_pool tcp_pool"

definition new_outgoing :: "nat \<Rightarrow> nat \<Rightarrow> string \<Rightarrow> int \<Rightarrow> exn + outgoing" where
  "new_outgoing threads batch server_host port =
     bind_exn (new_client_pool threads batch) (\<lambda>p. Inr \<lparr>address = (server_host, port), out_pool = p\<rparr>)"

text \<open>\<open>graphite::push_event\<close> and \<open>riemann_tcp_client::push_event\<close>: the pools are found by host name.\<close>

definition host_push :: "nat \<Rightarrow> nat \<Rightarrow> string \<Rightarrow> int \<Rightarrow> event \<Rightarrow> (string, outgoing) um \<Rightarrow> exn + (string, outgoing) um" where
  "host_push threads batch server_host port e m =
     bind_exn (case map_of m server_host of None \<Rightarrow> new_outgoing threads batch server_host port | Some o1 \<Rightarrow> Inr o1) (\<lambda>o1.
       bind_exn (client_push_event e (out_pool o1)) (\<lambda>p. Inr (um_set m server_host (o1\<lparr>out_pool := p\<rparr>))))"

section \<open>Mail\<close>

record mailer_extra =
  mail_server :: string
  mail_from :: string
  mail_to :: "string list"

text \<open>libcurl asks for the next bytes; the product of the two sizes is one of \<open>size_t\<close>.\<close>

definition payload_source :: "nat \<Rightarrow> nat \<Rightarrow> byte list \<times> nat \<Rightarrow> byte list \<times> (byte list \<times> nat)" where
  "payload_source sz nmemb pd =
     (if sz = 0 \<or> nmemb = 0 \<or> (sz * nmemb) mod 2 ^ 64 < 1 then ([], pd)
      else let (payload, copied) = pd;
               to_copy = min ((sz * nmemb) mod 2 ^ 64) (length payload - copied)
           in if 0 < to_copy then (take to_copy (drop copied payload), (payload, copied + to_copy)) else ([], pd))"

definition payload_text :: "runtime \<Rightarrow> mailer_extra \<Rightarrow> event \<Rightarrow> byte list" where
  "payload_text rt extra e =
     (let to = (if mail_to extra \<noteq> [] then mail_to extra ! 0 else ''unknown'');
          subject = host e @ '' '' @ service e @ '' is '' @ state e
                    @ (if has_metric e then '' ('' @ metric_to_str e @ '')'' else [])
      in bytes_of (''To: '' @ to @ crlf @ ''From: '' @ mail_from extra @ crlf @ ''Subject: '' @ subject @ crlf @ crlf
                   @ json_str rt e))"

record mail_request =
  mail_url :: string
  mail_sender :: string
  mail_recipients :: "string list"
  mail_payload :: "byte list \<times> nat"

definition mail_curl_event :: "runtime \<Rightarrow> mailer_extra \<Rightarrow> event \<Rightarrow> mail_request" where
  "mail_curl_event rt extra e =
     \<lparr>mail_url = ''smtp://'' @ mail_server extra, mail_sender = mail_from extra, mail_recipients = mail_to extra,
      mail_payload = (payload_text rt extra e, 0)\<rparr>"

section \<open>Pager duty\<close>

datatype pd_action = Pd_trigger | Pd_acknowledge | Pd_resolve

definition pd_action_to_string :: "pd_action \<Rightarrow> string" where
  "pd_action_to_string a =
     (if a = Pd_trigger then ''trigger'' else if a = Pd_acknowledge then ''acknowledge'' else ''resolve'')"

definition k_pd_url :: string where
  "k_pd_url = ''https://events.pagerduty.com/generic/2010-04-15/create_event.json''"

definition pd_json :: "runtime \<Rightarrow> string \<Rightarrow> pd_action \<Rightarrow> event \<Rightarrow> json" where
  "pd_json rt pg_key a e =
     JObject (um_set (um_set (um_set (um_set (um_set []
       ''incident_key'' (JString (host e @ ''/'' @ service e)))
       ''service_key'' (JString pg_key))
       ''event_type'' (JString (pd_action_to_string a)))
       ''description'' (JString (host e @ '' '' @ service e @ '' is '' @ state e @ ''('' @ metric_to_str e @ '')'')))
       ''details'' (JString (json_str rt e)))"

definition pd_curl_event :: "runtime \<Rightarrow> string \<Rightarrow> pd_action \<Rightarrow> event \<Rightarrow> string \<times> string" where
  "pd_curl_event rt pg_key a e = (k_pd_url, styled rt (pd_json rt pg_key a e))"

section \<open>The external calls of the rule tester\<close>

record external_event_t =
  external_method :: string
  message :: string
  extra :: string
  call_time :: int
  call_event :: event

definition add_call :: "runtime \<Rightarrow> string \<Rightarrow> string \<Rightarrow> string \<Rightarrow> event \<Rightarrow> external_event_t list \<Rightarrow> external_event_t list" where
  "add_call rt ext msg ex e calls =
     calls @ [\<lparr>external_method = ext, message = msg, extra = ex, call_time = unix_time rt, call_event = e\<rparr>]"

fun mock_external :: "runtime \<Rightarrow> action \<Rightarrow> external_event_t list \<Rightarrow> external_event_t list" where
  "mock_external rt (Forward server port e) calls = add_call rt ''forward'' (''forward event to '' @ server) [] e calls"
| "mock_external rt (Graphite server port e) calls = add_call rt ''graphite'' (''send event to '' @ server) [] e calls"
| "mock_external rt (PagerDutyTrigger pg_key e) calls =
     add_call rt ''pagerduty'' (''trigger pagerduty for key '' @ pg_key) [] e calls"
| "mock_external rt (PagerDutyResolve pg_key e) calls =
     add_call rt ''pagerduty'' (''resolve pagerduty for key '' @ pg_key) [] e calls"
| "mock_external rt (PagerDutyAcknowledge pg_key e) calls =
     add_call rt ''pagerduty'' (''acknowledge pagerduty for key '' @ pg_key) [] e calls"
| "mock_external rt (Email server from to e) calls = add_call rt ''email'' (''send email from '' @ from @ '' to '') [] e calls"
| "mock_external rt _ calls = calls"

section \<open>Payloads\<close>

fun upload :: "(nat \<times> nat) list \<Rightarrow> byte list \<times> nat \<Rightarrow> byte list list \<times> (byte list \<times> nat)" where
  "upload [] pd = ([], pd)"
| "upload ((sz, nmemb) # calls) pd =
     (case payload_source sz nmemb pd of
        (bs, pd1) \<Rightarrow> (case upload calls pd1 of (cs, pd2) \<Rightarrow> (bs # cs, pd2)))"

lemma payload_source_step:
  assumes "payload_source sz nmemb (payload, copied) = (bs, pd1)" "copied \<le> length payload"
  shows "\<exists>k \<le> length payload. pd1 = (payload, k) \<and> bs @ drop k payload = drop copied payload
    \<and> (0 < (sz * nmemb) mod 2 ^ 64 \<and> copied < length payload \<longrightarrow> copied < k) \<and> length bs \<le> sz * nmemb"
proof -
  define m where "m = (sz * nmemb) mod 2 ^ 64"
  have src: "payload_source sz nmemb (payload, copied) =
      (if m = 0 \<or> length payload \<le> copied then ([], (payload, copied))
       else (take (min m (length payload - copied)) (drop copied payload), (payload, copied + min m (length payload - copied))))"
    unfolding payload_source_def m_def [symmetric] by (auto simp: m_def Let_def)
  have m: "m \<le> sz * nmemb" unfolding m_def by (rule mod_less_eq_dividend)
  show ?thesis
  proof (cases "0 < m \<and> copied < length payload")
    case True
    let ?k = "min m (length payload - copied)"
    have r: "bs = take ?k (drop copied payload)" "pd1 = (payload, copied + ?k)" using assms(1) True by (auto simp: src)
    have "take ?k (drop copied payload) @ drop (copied + ?k) payload = drop copied payload"
      by (metis add.commute append_take_drop_id drop_drop)
    then show ?thesis unfolding m_def [symmetric] using True r m by (intro exI [of _ "copied + ?k"]) auto
  next
    case False
    then have "bs = []" "pd1 = (payload, copied)" using assms(1) by (auto simp: src split: if_splits)
    then show ?thesis unfolding m_def [symmetric] using False assms(2) by auto
  qed
qed

text \<open>
  C40. Whatever amounts libcurl asks for, the mail payload is handed over in order and once, never more at a time
  than was asked for, and as many requests for at least one byte as the payload has bytes get all of it.
\<close>

theorem mail_payload_uploaded:
  "\<exists>cs k. upload calls (payload, 0) = (cs, (payload, k)) \<and> concat cs = take k payload \<and> k \<le> length payload
     \<and> list_all2 (\<lambda>bs (sz, nmemb). length bs \<le> sz * nmemb) cs calls
     \<and> min (length payload) (length (filter (\<lambda>(sz, nmemb). 0 < (sz * nmemb) mod 2 ^ 64) calls)) \<le> k"
proof -
  have "\<exists>cs k. upload calls (payload, c) = (cs, (payload, k)) \<and> concat cs @ drop k payload = drop c payload \<and> k \<le> length payload
     \<and> list_all2 (\<lambda>bs (sz, nmemb). length bs \<le> sz * nmemb) cs calls
     \<and> min (length payload) (c + length (filter (\<lambda>(sz, nmemb). 0 < (sz * nmemb) mod 2 ^ 64) calls)) \<le> k"
    if "c \<le> length payload" for c
    using that
  proof (induction calls arbitrary: c)
    case (Cons call calls)
    obtain sz nmemb where call: "call = (sz, nmemb)" by (cases call)
    obtain bs pd1 where s: "payload_source sz nmemb (payload, c) = (bs, pd1)" by (cases "payload_source sz nmemb (payload, c)")
    obtain k where k: "k \<le> length payload" "pd1 = (payload, k)" "bs @ drop k payload = drop c payload"
        "0 < (sz * nmemb) mod 2 ^ 64 \<and> c < length payload \<longrightarrow> c < k" "length bs \<le> sz * nmemb"
      using payload_source_step [OF s Cons.prems] by blast
    have "c \<le> k" using arg_cong [OF k(3), of length] Cons.prems k(1) by simp
    obtain cs k2 where r: "upload calls (payload, k) = (cs, (payload, k2))" "concat cs @ drop k2 payload = drop k payload"
        "k2 \<le> length payload" "list_all2 (\<lambda>bs (sz, nmemb). length bs \<le> sz * nmemb) cs calls"
        "min (length payload) (k + length (filter (\<lambda>(sz, nmemb). 0 < (sz * nmemb) mod 2 ^ 64) calls)) \<le> k2"
      using Cons.IH [OF k(1)] by blast
    let ?f = "length (filter (\<lambda>(sz, nmemb). 0 < (sz * nmemb) mod 2 ^ 64) calls)"
    have "min (length payload) (c + (if 0 < (sz * nmemb) mod 2 ^ 64 then 1 else 0) + ?f) \<le> k2"
      using r(5) k(4) \<open>c \<le> k\<close> Cons.prems by (cases "0 < (sz * nmemb) mod 2 ^ 64"; simp) linarith+
    moreover have "concat (bs # cs) @ drop k2 payload = drop c payload" using r(2) k(3) by simp
    ultimately show ?case using s k(2,5) r(1,3,4) by (intro exI [of _ "bs # cs"] exI [of _ k2]) (auto simp: call split: if_splits)
  qed simp
  from this [of 0] obtain cs k where r: "upload calls (payload, 0) = (cs, (payload, k))" "concat cs @ drop k payload = payload"
      "k \<le> length payload" "list_all2 (\<lambda>bs (sz, nmemb). length bs \<le> sz * nmemb) cs calls"
      "min (length payload) (length (filter (\<lambda>(sz, nmemb). 0 < (sz * nmemb) mod 2 ^ 64) calls)) \<le> k" by auto
  have "concat cs = take k payload" using r(2) append_take_drop_id [of k payload] by (metis append_same_eq)
  with r show ?thesis by blast
qed


section \<open>Forwarded events arrive\<close>

text \<open>
  C38. A batch that one instance forwards is a message that the other reads: when the bytes of forwarded batches
  reach a Riemann connection, however the network cuts them into reads, it hands on the messages of the
  batches whole and in order, and the events that the protobuf library parses from them are those that were
  forwarded. With as many reads as there are bytes all of them arrive.
\<close>

theorem forwarded_batches_arrive:
  assumes roundtrip: "\<And>es. es \<in> set batches \<Longrightarrow> parse (msg_bytes es) = Some es"
    and sendable: "\<And>es. es \<in> set batches \<Longrightarrow> sendable (msg_bytes es)"
    and acks: "length batches * length (ok_response ok_msg) \<le> k_default_buffer_size"
  shows "\<exists>d sock r. receive ok_msg ns (concat (map (riemann_output msg_bytes) batches)) (new_riemann_connection new_connection)
       = (map msg_bytes (take d batches), sock, r)
     \<and> map (\<lambda>m. parse m) (map msg_bytes (take d batches)) = map Some (take d batches)
     \<and> (length (concat (map (riemann_output msg_bytes) batches)) \<le> length (filter (\<lambda>n. 0 < n) ns) \<longrightarrow> take d batches = batches)"
proof -
  let ?ms = "map msg_bytes batches" and ?r = "new_riemann_connection new_connection"
  have f: "concat (map (riemann_output msg_bytes) batches) = frames ?ms"
    by (induction batches) (simp_all add: riemann_output_def)
  have inv: "framing_inv ok_msg [] ?ms (frames ?ms) ?r" "waiting ?r"
    by (simp_all add: framing_inv_def waiting_def new_riemann_connection_def new_connection_def)
  have "list_all sendable ?ms" using sendable by (auto simp: list_all_iff)
  from receive_framing [OF inv(1) this inv(2), of ns] acks obtain d sock r where
    res: "receive ok_msg ns (frames ?ms) ?r = (take d ?ms, sock, r)"
    and inv: "framing_inv ok_msg (take d ?ms) (drop d ?ms) sock r" and w: "waiting r"
    and len: "length sock \<le> length (frames ?ms) - length (filter (\<lambda>n. 0 < n) ns)"
    by fastforce
  have "drop d ?ms = []" if "sock = []"
    using inv w that by (cases "drop d ?ms") (auto simp: framing_inv_def waiting_def split: if_splits)
  then have "take d batches = batches" if "length (frames ?ms) \<le> length (filter (\<lambda>n. 0 < n) ns)"
    using len that by simp
  moreover have "map parse (map msg_bytes (take d batches)) = map Some (take d batches)"
    using roundtrip by (auto dest: in_set_takeD)
  ultimately show ?thesis using res f by (intro exI [of _ d] exI [of _ sock] exI [of _ r]) (simp add: take_map)
qed

theorem forwarded_batches_arrive_witness:
  "\<exists>sock r. receive [16, 1] (replicate 5 1) (concat (map (riemann_output (\<lambda>_. [7])) [[empty_event]]))
       (new_riemann_connection new_connection) = ([[7]], sock, r)"
proof -
  have s: "sendable [7 :: byte]" and a: "length [[empty_event]] * length (ok_response [16, 1]) \<le> k_default_buffer_size"
    by (simp_all add: sendable_def k_default_buffer_size_def ok_response_def)
  have "length (concat (map (riemann_output (\<lambda>_. [7])) [[empty_event]])) \<le> length (filter (\<lambda>n. 0 < n) (replicate 5 (1 :: nat)))"
    by (simp add: riemann_output_def)
  with forwarded_batches_arrive [of "[[empty_event]]" "\<lambda>_. Some [empty_event]" "\<lambda>_. [7]" "[16, 1]" "replicate 5 1", OF _ s a]
  show ?thesis by fastforce
qed

section \<open>Lines of the plaintext protocol\<close>

fun fields :: "char \<Rightarrow> string \<Rightarrow> string list" where
  "fields c [] = [[]]"
| "fields c (x # xs) =
     (if x = c then [] # fields c xs else (case fields c xs of f # fs \<Rightarrow> (x # f) # fs | [] \<Rightarrow> [[x]]))"

lemma fields_none: "c \<notin> set s \<Longrightarrow> fields c s = [s]"
  by (induction s) auto

lemma fields_append: "c \<notin> set s \<Longrightarrow> fields c (s @ c # t) = s # fields c t"
  by (induction s) auto

lemma digits_chars: "0 \<le> n \<Longrightarrow> ch \<in> set (digits n) \<Longrightarrow> \<exists>k \<in> {48..57}. ch = char_of (k :: int)"
proof (induction n rule: digits.induct)
  case (1 n)
  show ?case
  proof (cases "n < 10")
    case True
    then show ?thesis using 1 by (auto simp: digits.simps [of n])
  next
    case False
    then have "ch \<in> set (digits (n div 10)) \<or> ch = char_of (48 + n mod 10)" using "1.prems" by (auto simp: digits.simps [of n])
    moreover have "48 + n mod 10 \<in> {48..57}" by simp
    ultimately show ?thesis using "1.IH" [OF False] "1.prems"(1) by auto
  qed
qed

lemma digit_char_plain: "k \<in> {48..57 :: int} \<Longrightarrow> char_of k \<noteq> CHR '' '' \<and> char_of k \<noteq> CHR 0x0A"
proof -
  assume "k \<in> {48..57 :: int}"
  moreover have "list_all (\<lambda>k. char_of k \<noteq> CHR '' '' \<and> char_of k \<noteq> CHR 0x0A) [48..57 :: int]" by code_simp
  ultimately show ?thesis unfolding list_all_iff set_upto by blast
qed

definition plain :: "string \<Rightarrow> bool" where
  "plain s \<longleftrightarrow> CHR '' '' \<notin> set s \<and> CHR 0x0A \<notin> set s"

lemma plain_simps [simp]:
  "plain (s @ t) \<longleftrightarrow> plain s \<and> plain t" "plain (c # t) \<longleftrightarrow> c \<noteq> CHR '' '' \<and> c \<noteq> CHR 0x0A \<and> plain t" "plain []"
  by (auto simp: plain_def)

lemma plain_digits: "0 \<le> n \<Longrightarrow> plain (digits n)"
  using digits_chars digit_char_plain unfolding plain_def by metis

lemma plain_int: "plain (int_to_string i)"
  using plain_digits [of i] plain_digits [of "- i"] by (simp add: int_to_string_def)


lemma round_half_even_nonneg: "0 \<le> q \<Longrightarrow> 0 \<le> round_half_even q"
  by (simp add: round_half_even_def Let_def)

lemma plain_metric: "plain (metric_to_str e)"
proof -
  have "plain (fixed6 q)" for q
    using plain_digits [of "round_half_even (\<bar>q\<bar> * 1000000) mod 1000000"]
      plain_digits [of "round_half_even (\<bar>q\<bar> * 1000000) div 1000000"] round_half_even_nonneg [of "\<bar>q\<bar> * 1000000"]
    by (simp add: fixed6_def Let_def) (simp add: plain_def)
  then have "plain (double_to_string x)" for x by (cases x) simp_all
  then show ?thesis by (simp add: metric_to_str_def k_empty_value_def)
qed

lemma plain_escape: "CHR 0x0A \<notin> set s \<Longrightarrow> plain (graphite_escape s)"
  by (auto simp: plain_def graphite_escape_def)

lemma text_of_bytes_of [simp]: "text_of (bytes_of s) = s"
proof -
  have "unat (of_char c :: byte) = of_char c" for c
  proof -
    have "(of_char c :: byte) = of_nat (of_char c)" by (cases c) simp
    moreover have "(of_char c :: nat) < 2 ^ LENGTH(8)" by (cases c) simp
    ultimately show ?thesis by (simp add: unat_of_nat take_bit_nat_eq_self)
  qed
  then show ?thesis by (induction s) (simp_all add: text_of_def bytes_of_def)
qed

lemma graphite_fields:
  assumes "plain (host e)" "CHR 0x0A \<notin> set (service e)"
  shows "fields CHR '' '' (butlast (graphite_line e))
      = [host e @ ''.'' @ graphite_escape (service e), metric_to_str e, int_to_string (time e)]"
    and "fields CHR 0x0A (graphite_line e @ t) = butlast (graphite_line e) # fields CHR 0x0A t"
proof -
  let ?p = "host e @ ''.'' @ graphite_escape (service e)" and ?v = "metric_to_str e" and ?i = "int_to_string (time e)"
  have p: "plain ?p" "plain ?v" "plain ?i" using assms by (simp_all add: plain_escape plain_metric plain_int)
  have l: "graphite_line e = (?p @ CHR '' '' # ?v @ CHR '' '' # ?i) @ [CHR 0x0A]" by (simp add: graphite_line_def)
  then have b: "butlast (graphite_line e) = ?p @ CHR '' '' # ?v @ CHR '' '' # ?i" by (simp only: butlast_snoc)
  have f: "fields CHR '' '' (?p @ CHR '' '' # t) = ?p # fields CHR '' '' t" "fields CHR '' '' (?v @ CHR '' '' # t) = ?v # fields CHR '' '' t"
    "fields CHR '' '' ?i = [?i]" for t
    using p unfolding plain_def by (blast intro: fields_append fields_none)+
  show "fields CHR '' '' (butlast (graphite_line e)) = [?p, ?v, ?i]" unfolding b f ..
  have "CHR 0x0A \<notin> set (?p @ CHR '' '' # ?v @ CHR '' '' # ?i)" using p unfolding plain_def by simp
  from fields_append [OF this, of t] show "fields CHR 0x0A (graphite_line e @ t) = butlast (graphite_line e) # fields CHR 0x0A t"
    unfolding b unfolding l by simp
qed

lemma fields_not_Nil [simp]: "fields c s \<noteq> []"
  by (induction s) (auto split: list.splits)

text \<open>
  C39. What goes to Graphite is the plaintext protocol, one line of three fields per event: reading it back gives
  the path, the value and the time of every event in order, as long as no host name holds a space or a line end
  and no service a line end. Dots and spaces of the service never show up in the path.
\<close>

theorem graphite_lines:
  assumes "\<And>e. e \<in> set es \<Longrightarrow> plain (host e) \<and> CHR 0x0A \<notin> set (service e)"
  shows "map (fields CHR '' '') (butlast (fields CHR 0x0A (text_of (graphite_output es))))
    = map (\<lambda>e. [host e @ ''.'' @ graphite_escape (service e), metric_to_str e, int_to_string (time e)]) es"
  using assms unfolding graphite_output_def text_of_bytes_of
  by (induction es) (simp_all add: graphite_fields)

theorem graphite_lines_witness:
  "map (fields CHR '' '') (butlast (fields CHR 0x0A (text_of (graphite_output
       [set_host ''h'' (set_service ''cpu load'' empty_event), empty_event]))))
    = [[''h.cpu-load'', ''nil'', ''0''], [''.'', ''nil'', ''0'']]"
proof -
  have "digits 0 = ''0''" by code_simp
  then show ?thesis
    by (subst graphite_lines) (auto simp: graphite_escape_def event_defs metric_to_str_def int_to_string_def plain_def k_empty_value_def)
qed

text \<open>
  The pools of outgoing connections are found by host alone: an event for a second server on the same host
  goes to the port that was used first.
\<close>

theorem first_port_wins:
  assumes "host_push n b h port1 e1 m = Inr m1" "map_of m h = None" "host_push n b h port2 e2 m1 = Inr m2"
  shows "\<exists>o1 o2. map_of m1 h = Some o1 \<and> map_of m2 h = Some o2 \<and> address o2 = (h, port1)
    \<and> client_push_event e2 (out_pool o1) = Inr (out_pool o2)"
  using assms by (auto simp: host_push_def new_outgoing_def bind_exn_Inr_iff)


theorem first_port_wins_witness:
  "\<exists>m1 m2 o2. host_push 1 100 ''h'' 2003 empty_event [] = Inr m1 \<and> host_push 1 100 ''h'' 2004 empty_event m1 = Inr m2
     \<and> map_of m2 ''h'' = Some o2 \<and> address o2 = (''h'', 2003)"
proof -
  define m where "m n = [(''h'', \<lparr>address = (''h'', 2003 :: int), out_pool =
    \<lparr>next_thread = 0, stop_flag = False, signalled = [False], new_fds = [[]], loop_fds = [[]], conn_maps = [[]], closed_fds = [],
     client = \<lparr>thread_queues = [replicate n empty_event], fd_queues = [[]], flush_batch = [False], batch_size = 100, client_next = 0\<rparr>\<rparr>\<rparr>)]"
    for n
  have m1: "host_push 1 100 ''h'' 2003 empty_event [] = Inr (m 1)"
    by (simp add: m_def host_push_def new_outgoing_def new_client_pool_def new_tcp_pool_def client_push_event_def Let_def
        k_queue_capacity_def on_loop_def um_set_def)
  moreover have "host_push 1 100 ''h'' 2004 empty_event (m 1) = Inr (m 2)"
    by (simp add: m_def host_push_def client_push_event_def Let_def k_queue_capacity_def on_loop_def um_set_def numeral_2_eq_2)
  ultimately show ?thesis using first_port_wins [OF m1] by fastforce
qed

end
