(* ===== verification/Spec2Isabelle.thy ===== *)
theory Spec2Isabelle
  imports Rules Index Stream_Core Websocket Scheduler Query_Lexer Riemann_Pool External
begin

text \<open>
  A verification library for cavalieri, a stream processor for monitoring events.
\<close>

end
